(* ===== verification/Prelude.thy ===== *)
theory Prelude
  imports Main "HOL-Library.Word"
begin

unbundle bit_operations_syntax

text \<open>
  Shared vocabulary of the development.

  The kernel crate is built with \<^verbatim>\<open>overflow-checks = true\<close> in its release profile
  (\<^verbatim>\<open>kernel/Cargo.toml\<close>, line 25), so a bare \<open>+\<close>, \<open>-\<close> or \<open>*\<close> that leaves the range of
  its type stops the machine. A \<open>usize\<close> of the kernel is a \<open>nat\<close>, its arithmetic is
  \<open>usize_add\<close> and \<open>usize_mul\<close>, whose value \<open>None\<close> is that panic; the same two functions are
  the library's \<open>checked_add\<close> and \<open>checked_mul\<close>, where the source handles the \<open>None\<close> itself.
  Values that the code also reads bit by bit (page table entries, ELF fields, byte
  streams) are words, with \<open>checked_add_w\<close> for their overflow checks.

  Also here: byte slices, little-endian reads, the \<open>Result\<close> of Rust as a sum with \<open>Inl\<close>
  for \<open>Err\<close>, and the generic lemmas that the component theories share.
\<close>

type_synonym u8 = "8 word"
type_synonym u16 = "16 word"
type_synonym u32 = "32 word"
type_synonym u64 = "64 word"
type_synonym usize = nat

named_theorems rust_arith \<open>characterisations of the checked and saturating operations\<close>

subsection \<open>Bounded arithmetic of usize\<close>

abbreviation usize_limit :: nat where
  "usize_limit \<equiv> 2 ^ 64"

definition usize_add :: "usize \<Rightarrow> usize \<Rightarrow> usize option" where
  "usize_add a b = (if a + b < usize_limit then Some (a + b) else None)"

definition usize_mul :: "usize \<Rightarrow> usize \<Rightarrow> usize option" where
  "usize_mul a b = (if a * b < usize_limit then Some (a * b) else None)"

definition saturating_add :: "usize \<Rightarrow> usize \<Rightarrow> usize" where
  "saturating_add a b = min (a + b) (usize_limit - 1)"

definition saturating_mul :: "usize \<Rightarrow> usize \<Rightarrow> usize" where
  "saturating_mul a b = min (a * b) (usize_limit - 1)"

definition saturating_sub :: "usize \<Rightarrow> usize \<Rightarrow> usize" where
  "saturating_sub a b = a - b"

definition div_ceil :: "usize \<Rightarrow> usize \<Rightarrow> usize" where
  "div_ceil a b = a div b + (if a mod b = 0 then 0 else 1)"

lemma usize_add_Some [rust_arith]: "usize_add a b = Some c \<longleftrightarrow> c = a + b \<and> a + b < usize_limit"
  by (auto simp: usize_add_def)

lemma usize_add_None [rust_arith]: "usize_add a b = None \<longleftrightarrow> usize_limit \<le> a + b"
  by (auto simp: usize_add_def)

lemma usize_mul_Some [rust_arith]: "usize_mul a b = Some c \<longleftrightarrow> c = a * b \<and> a * b < usize_limit"
  by (auto simp: usize_mul_def)

lemma usize_mul_None [rust_arith]: "usize_mul a b = None \<longleftrightarrow> usize_limit \<le> a * b"
  by (auto simp: usize_mul_def)

lemma div_ceil_mult_ge:
  assumes "0 < b"
  shows "a \<le> div_ceil a b * b"
proof -
  have "a = a div b * b + a mod b" by simp
  moreover have "a mod b < b" using assms by simp
  moreover have "div_ceil a b * b = a div b * b + (if a mod b = 0 then 0 else b)"
    by (simp add: div_ceil_def)
  ultimately show ?thesis by (smt (verit) add_mono nle_le not_less)
qed

lemma div_ceil_mult_less:
  assumes "0 < b"
  shows "div_ceil a b * b < a + b"
proof -
  have "a = a div b * b + a mod b" by simp
  moreover have "div_ceil a b * b = a div b * b + (if a mod b = 0 then 0 else b)"
    by (simp add: div_ceil_def)
  ultimately show ?thesis using assms by (smt (verit) add_less_cancel_right gr0I less_add_same_cancel1)
qed

subsection \<open>Checked and saturating operations on words\<close>

definition checked_add_w :: "'a::len word \<Rightarrow> 'a word \<Rightarrow> 'a word option" where
  "checked_add_w a b = (if unat a + unat b < 2 ^ LENGTH('a) then Some (a + b) else None)"

definition checked_mul_w :: "'a::len word \<Rightarrow> 'a word \<Rightarrow> 'a word option" where
  "checked_mul_w a b = (if unat a * unat b < 2 ^ LENGTH('a) then Some (a * b) else None)"

definition saturating_add_w :: "'a::len word \<Rightarrow> 'a word \<Rightarrow> 'a word" where
  "saturating_add_w a b = (if unat a + unat b < 2 ^ LENGTH('a) then a + b else - 1)"

definition saturating_sub_w :: "'a::len word \<Rightarrow> 'a word \<Rightarrow> 'a word" where
  "saturating_sub_w a b = (if b \<le> a then a - b else 0)"

lemma unat_plus_no_overflow:
  fixes a b :: "'a::len word"
  assumes "unat a + unat b < 2 ^ LENGTH('a)"
  shows "unat (a + b) = unat a + unat b"
  using assms by (simp add: unat_word_ariths)

lemma word_less_plus_1:
  fixes x :: "'a::len word"
  assumes "x \<noteq> - 1"
  shows "x < x + 1"
proof -
  have "x + 1 \<noteq> 0" using assms by (metis eq_neg_iff_add_eq_0)
  then have "unat (x + 1) = Suc (unat x)" by (metis add.commute unatSuc)
  then show ?thesis by (simp add: word_less_nat_alt)
qed

lemma checked_add_w_Some [rust_arith]:
  "checked_add_w a b = Some c \<longleftrightarrow>
     unat c = unat a + unat b \<and> unat a + unat b < 2 ^ LENGTH('a)"
  for a b c :: "'a::len word"
proof
  assume "checked_add_w a b = Some c"
  then show "unat c = unat a + unat b \<and> unat a + unat b < 2 ^ LENGTH('a)"
    by (auto simp: checked_add_w_def unat_plus_no_overflow split: if_splits)
next
  assume h: "unat c = unat a + unat b \<and> unat a + unat b < 2 ^ LENGTH('a)"
  then have "unat c = unat (a + b)"
    by (simp add: unat_plus_no_overflow)
  then have "c = a + b" by (simp add: word_unat_eq_iff)
  then show "checked_add_w a b = Some c"
    using h by (simp add: checked_add_w_def)
qed

lemma checked_add_w_None [rust_arith]:
  "checked_add_w a b = None \<longleftrightarrow> 2 ^ LENGTH('a) \<le> unat a + unat b"
  for a b :: "'a::len word"
  by (auto simp: checked_add_w_def)

lemma unat_saturating_add_w:
  "unat (saturating_add_w a b) = min (unat a + unat b) (2 ^ LENGTH('a) - 1)"
  for a b :: "'a::len word"
  by (auto simp: saturating_add_w_def unat_plus_no_overflow unsigned_minus_1_eq_mask mask_eq_exp_minus_1 min_def)

lemma unat_saturating_sub_w:
  "unat (saturating_sub_w a b) = unat a - unat b"
  by (auto simp: saturating_sub_w_def unat_sub word_le_nat_alt not_le)

subsection \<open>Slices and little-endian reads\<close>

text \<open>\<open>slice_of a b xs\<close> is \<^verbatim>\<open>&xs[a..b]\<close> where the indices are in range.\<close>

definition slice_of :: "nat \<Rightarrow> nat \<Rightarrow> 'a list \<Rightarrow> 'a list" where
  "slice_of a b xs = take (b - a) (drop a xs)"

lemma length_slice_of [simp]: "length (slice_of a b xs) = min (b - a) (length xs - a)"
  by (simp add: slice_of_def min.commute)

lemma nth_slice_of [simp]: "i < b - a \<Longrightarrow> a + i < length xs \<Longrightarrow> slice_of a b xs ! i = xs ! (a + i)"
  by (simp add: slice_of_def)

lemma slice_of_full [simp]: "slice_of 0 (length xs) xs = xs"
  by (simp add: slice_of_def)

text \<open>With its panic when they are not.\<close>

definition checked_slice :: "nat \<Rightarrow> nat \<Rightarrow> 'a list \<Rightarrow> 'a list option" where
  "checked_slice a b xs = (if a \<le> b \<and> b \<le> length xs then Some (slice_of a b xs) else None)"

fun le_nat :: "u8 list \<Rightarrow> nat" where
  "le_nat [] = 0"
| "le_nat (b # bs) = unat b + 256 * le_nat bs"

definition le_word :: "u8 list \<Rightarrow> 'a::len word" where
  "le_word bs = word_of_nat (le_nat bs)"

fun le_bytes :: "nat \<Rightarrow> nat \<Rightarrow> u8 list" where
  "le_bytes 0 v = []"
| "le_bytes (Suc n) v = word_of_nat v # le_bytes n (v div 256)"

lemma length_le_bytes [simp]: "length (le_bytes n v) = n"
  by (induction n arbitrary: v) auto

lemma le_nat_bound: "le_nat bs < 256 ^ length bs"
proof (induction bs)
  case (Cons b bs)
  have "unat b < 256" using unsigned_less[of b] by simp
  with Cons show ?case by simp
qed simp

lemma unat_byte_of_nat [simp]: "unat (word_of_nat v :: u8) = v mod 256"
  by (simp add: unat_of_nat)

lemma le_nat_le_bytes: "le_nat (le_bytes n v) = v mod 256 ^ n"
proof (induction n arbitrary: v)
  case (Suc n)
  have "v mod 256 + 256 * (v div 256 mod 256 ^ n) = v mod (256 * 256 ^ n)"
    by (simp add: mod_mult2_eq)
  with Suc show ?case by simp
qed simp

subsection \<open>Masks on natural numbers\<close>

lemma bit_nat_less:
  assumes "x < (2::nat) ^ n" and "bit x i"
  shows "i < n"
proof (rule ccontr)
  assume "\<not> i < n"
  then have "x < 2 ^ i"
    using assms(1) by (meson linorder_not_less one_le_numeral order_less_le_trans power_increasing)
  then show False using assms(2) by (simp add: bit_iff_odd)
qed

lemma and_high_mask:
  assumes "x < (2::nat) ^ n" and "k \<le> n"
  shows "x AND (2 ^ n - 1 - (2 ^ k - 1)) = x - x mod 2 ^ k"
proof -
  have m: "(2::nat) ^ n - 1 - (2 ^ k - 1) = push_bit k (mask (n - k))"
    using assms(2) by (simp add: push_bit_eq_mult mask_eq_exp_minus_1 diff_mult_distrib flip: power_add)
  have r: "x - x mod 2 ^ k = push_bit k (drop_bit k x)"
    by (simp add: push_bit_eq_mult drop_bit_eq_div minus_mod_eq_div_mult)
  show ?thesis unfolding m r
    by (rule bit_eqI)
      (auto simp: bit_and_iff bit_push_bit_iff bit_mask_iff bit_drop_bit_eq
        dest: bit_nat_less [OF assms(1)])
qed

subsection \<open>Results\<close>

text \<open>\<open>ok_or\<close> turns an \<open>Option\<close> into a \<open>Result\<close>, as the method of the same name does.\<close>

fun ok_or :: "'e \<Rightarrow> 'a option \<Rightarrow> 'e + 'a" where
  "ok_or e None = Inl e"
| "ok_or e (Some x) = Inr x"

fun is_ok :: "'e + 'a \<Rightarrow> bool" where
  "is_ok (Inl e) = False"
| "is_ok (Inr x) = True"

lemma is_ok_iff: "is_ok r \<longleftrightarrow> (\<exists>x. r = Inr x)"
  by (cases r) auto

end
