(* ===== verification/Rust_Strings.thy ===== *)
theory Rust_Strings
  imports Prelude
begin

text \<open>
  The strings of Rust, as far as the modelled code uses them: a string is the list of its Unicode scalar values.
  Decoding and encoding of UTF-8, trimming, splitting, joining and prefixes, as in the standard library.
\<close>

type_synonym str = "nat list"

definition lit :: "string \<Rightarrow> str" where
  "lit s = map of_char s"

definition SLASH :: nat where "SLASH = 0x2F"

definition cont :: "u8 \<Rightarrow> bool" where
  "cont b \<longleftrightarrow> 0x80 \<le> b \<and> b \<le> 0xBF"

definition low6 :: "u8 \<Rightarrow> nat" where
  "low6 b = unat b mod 64"

text \<open>
  The first scalar value of a non-empty byte sequence with its width, by the table of well-formed sequences of
  the Unicode standard; for an ill-formed sequence the number of bytes of its maximal subpart.
\<close>

definition second_ok :: "u8 \<Rightarrow> u8 \<Rightarrow> bool" where
  "second_ok a b \<longleftrightarrow>
     (if a = 0xE0 then 0xA0 \<le> b \<and> b \<le> 0xBF
      else if a = 0xED then 0x80 \<le> b \<and> b \<le> 0x9F
      else if a = 0xF0 then 0x90 \<le> b \<and> b \<le> 0xBF
      else if a = 0xF4 then 0x80 \<le> b \<and> b \<le> 0x8F
      else cont b)"

fun utf8_step :: "u8 list \<Rightarrow> nat option \<times> nat" where
  "utf8_step [] = (None, 0)"
| "utf8_step (a # bs) =
     (if a < 0x80 then (Some (unat a), 1)
      else if 0xC2 \<le> a \<and> a \<le> 0xDF then
        (case bs of
           b # _ \<Rightarrow> if cont b then (Some (unat a mod 32 * 64 + low6 b), 2) else (None, 1)
         | [] \<Rightarrow> (None, 1))
      else if 0xE0 \<le> a \<and> a \<le> 0xEF then
        (case bs of
           b # cs \<Rightarrow>
             if second_ok a b then
               (case cs of
                  c # _ \<Rightarrow> if cont c then (Some (unat a mod 16 * 4096 + low6 b * 64 + low6 c), 3) else (None, 2)
                | [] \<Rightarrow> (None, 2))
             else (None, 1)
         | [] \<Rightarrow> (None, 1))
      else if 0xF0 \<le> a \<and> a \<le> 0xF4 then
        (case bs of
           b # cs \<Rightarrow>
             if second_ok a b then
               (case cs of
                  c # ds \<Rightarrow>
                    if cont c then
                      (case ds of
                         d # _ \<Rightarrow>
                           if cont d then (Some (unat a mod 8 * 262144 + low6 b * 4096 + low6 c * 64 + low6 d), 4)
                           else (None, 3)
                       | [] \<Rightarrow> (None, 3))
                    else (None, 2)
                | [] \<Rightarrow> (None, 2))
             else (None, 1)
         | [] \<Rightarrow> (None, 1))
      else (None, 1))"

text \<open>\<^verbatim>\<open>core::str::from_utf8\<close> and \<^verbatim>\<open>String::from_utf8_lossy\<close>.\<close>

function from_utf8 :: "u8 list \<Rightarrow> str option" where
  "from_utf8 [] = Some []"
| "from_utf8 (b # bs) =
     (case utf8_step (b # bs) of
        (None, _) \<Rightarrow> None
      | (Some c, w) \<Rightarrow> map_option ((#) c) (from_utf8 (drop (w - 1) bs)))"
  by pat_completeness auto
termination by (relation "measure length") auto

function from_utf8_lossy :: "u8 list \<Rightarrow> str" where
  "from_utf8_lossy [] = []"
| "from_utf8_lossy (b # bs) =
     (case utf8_step (b # bs) of
        (None, w) \<Rightarrow> 0xFFFD # from_utf8_lossy (drop (w - 1) bs)
      | (Some c, w) \<Rightarrow> c # from_utf8_lossy (drop (w - 1) bs))"
  by pat_completeness auto
termination by (relation "measure length") auto

text \<open>\<^verbatim>\<open>str::as_bytes\<close>.\<close>

definition utf8_char :: "nat \<Rightarrow> u8 list" where
  "utf8_char c =
     (if c < 0x80 then [word_of_nat c]
      else if c < 0x800 then [word_of_nat (0xC0 + c div 64), word_of_nat (0x80 + c mod 64)]
      else if c < 0x10000 then
        [word_of_nat (0xE0 + c div 4096), word_of_nat (0x80 + c div 64 mod 64), word_of_nat (0x80 + c mod 64)]
      else
        [word_of_nat (0xF0 + c div 262144), word_of_nat (0x80 + c div 4096 mod 64),
         word_of_nat (0x80 + c div 64 mod 64), word_of_nat (0x80 + c mod 64)])"

definition as_bytes :: "str \<Rightarrow> u8 list" where
  "as_bytes s = concat (map utf8_char s)"

text \<open>The property \<open>White_Space\<close> of Unicode.\<close>

definition is_whitespace :: "nat \<Rightarrow> bool" where
  "is_whitespace c \<longleftrightarrow> 9 \<le> c \<and> c \<le> 13 \<or> 0x2000 \<le> c \<and> c \<le> 0x200A \<or>
     c \<in> {0x20, 0x85, 0xA0, 0x1680, 0x2028, 0x2029, 0x202F, 0x205F, 0x3000}"

definition trim_by :: "(nat \<Rightarrow> bool) \<Rightarrow> str \<Rightarrow> str" where
  "trim_by p s = rev (dropWhile p (rev (dropWhile p s)))"

text \<open>\<^verbatim>\<open>str::split\<close> by a character: always at least one part.\<close>

fun split_on :: "nat \<Rightarrow> str \<Rightarrow> str list" where
  "split_on c [] = [[]]"
| "split_on c (x # xs) =
     (if x = c then [] # split_on c xs
      else case split_on c xs of [] \<Rightarrow> [[x]] | p # ps \<Rightarrow> (x # p) # ps)"

fun join_with :: "nat \<Rightarrow> str list \<Rightarrow> str" where
  "join_with c [] = []"
| "join_with c [p] = p"
| "join_with c (p # q # ps) = p @ c # join_with c (q # ps)"

fun starts_with :: "str \<Rightarrow> str \<Rightarrow> bool" where
  "starts_with s [] = True"
| "starts_with [] (p # ps) = False"
| "starts_with (x # xs) (p # ps) = (x = p \<and> starts_with xs ps)"

declare utf8_step.simps [simp del]

lemma from_utf8_lossy_valid: "from_utf8 bs = Some s \<Longrightarrow> from_utf8_lossy bs = s"
proof (induction bs arbitrary: s rule: from_utf8.induct)
  case (2 b bs)
  obtain r w where st: "utf8_step (b # bs) = (r, w)" by (metis prod.exhaust)
  then show ?case using 2 by (cases r) auto
qed simp

lemma from_utf8_ascii: "list_all (\<lambda>b. 0 < b \<and> b < 0x80) bs \<Longrightarrow> from_utf8 bs = Some (map unat bs)"
  by (induction bs) (auto simp: utf8_step.simps)

end
