(* ===== verification/Transition_System.thy ===== *)
theory Transition_System
  imports Main
begin

text \<open>
  Invariants of state machines. The step relations of the lock, the scheduler and the whole kernel are instances:
  each theory shows that a step keeps its invariant, and takes the statements about runs from here.
\<close>

locale transition_system =
  fixes step :: "'s \<Rightarrow> 's \<Rightarrow> bool"
    and invar :: "'s \<Rightarrow> bool"
  assumes step_invar: "invar s \<Longrightarrow> step s s' \<Longrightarrow> invar s'"
begin

lemma steps_invar: "step\<^sup>*\<^sup>* s s' \<Longrightarrow> invar s \<Longrightarrow> invar s'"
  by (induction rule: rtranclp_induct) (auto intro: step_invar)

end

locale started_system = transition_system +
  fixes initial :: "'s \<Rightarrow> bool"
  assumes initial_invar: "initial s \<Longrightarrow> invar s"
begin

lemma reachable_invar: "initial s \<Longrightarrow> step\<^sup>*\<^sup>* s s' \<Longrightarrow> invar s'"
  using steps_invar initial_invar by blast

end

end
