(* ===== verification/Bounded_Fifo.thy ===== *)
theory Bounded_Fifo
  imports Prelude
begin

text \<open>
  The contract of a bounded first-in first-out queue, shared by the kernel's two queues: the
  ring buffer of input events (\<open>Input_Queue\<close>) and the message queue of an IPC channel
  (\<open>Ipc_Channel\<close>).

  A queue answers a push with whether it took the item. The contract is stated over the list
  of the items in the queue, oldest first; the client lemmas run any sequence of operations
  and account for every item that was offered.
\<close>

datatype 'a queue_op = Push 'a | Pop

text \<open>The two lists of a run: the items that were taken, in order, and the items that came out.\<close>

fun run_queue ::
  "('q \<Rightarrow> 'a \<Rightarrow> 'q \<times> bool) \<Rightarrow> ('q \<Rightarrow> 'q \<times> 'a option) \<Rightarrow> 'q \<Rightarrow> 'a queue_op list
     \<Rightarrow> 'q \<times> 'a list \<times> 'a list" where
  "run_queue push pop q [] = (q, [], [])"
| "run_queue push pop q (Push x # ops) =
     (let (q', ok) = push q x;
          (q'', taken, popped) = run_queue push pop q' ops
      in (q'', (if ok then x # taken else taken), popped))"
| "run_queue push pop q (Pop # ops) =
     (let (q', r) = pop q;
          (q'', taken, popped) = run_queue push pop q' ops
      in (q'', taken, (case r of None \<Rightarrow> popped | Some x \<Rightarrow> x # popped)))"

locale bounded_fifo =
  fixes push :: "'q \<Rightarrow> 'a \<Rightarrow> 'q \<times> bool"
    and pop :: "'q \<Rightarrow> 'q \<times> 'a option"
    and items :: "'q \<Rightarrow> 'a list"
    and invar :: "'q \<Rightarrow> bool"
    and capacity :: nat
    and admissible :: "'a \<Rightarrow> bool"
  assumes push_invar: "invar q \<Longrightarrow> invar (fst (push q x))"
    and pop_invar: "invar q \<Longrightarrow> invar (fst (pop q))"
    and push_taken: "invar q \<Longrightarrow> snd (push q x) \<longleftrightarrow> admissible x \<and> length (items q) < capacity"
    and push_items: "invar q \<Longrightarrow> items (fst (push q x)) = items q @ (if snd (push q x) then [x] else [])"
    and pop_empty: "invar q \<Longrightarrow> items q = [] \<Longrightarrow> snd (pop q) = None \<and> items (fst (pop q)) = []"
    and pop_item: "invar q \<Longrightarrow> items q = x # xs \<Longrightarrow> snd (pop q) = Some x \<and> items (fst (pop q)) = xs"
    and items_bound: "invar q \<Longrightarrow> length (items q) \<le> capacity"
begin

lemma run_queue_invar: "invar q \<Longrightarrow> invar (fst (run_queue push pop q ops))"
proof (induction ops arbitrary: q)
  case (Cons op ops)
  then show ?case
    using push_invar pop_invar by (cases op) (auto simp: Let_def split_beta)
qed simp

lemma run_queue_fifo:
  assumes "invar q" and "run_queue push pop q ops = (q', taken, popped)"
  shows "items q @ taken = popped @ items q'"
  using assms
proof (induction ops arbitrary: q taken popped)
  case (Cons op ops)
  show ?case
  proof (cases op)
    case (Push x)
    obtain q1 ok where p: "push q x = (q1, ok)" by fastforce
    obtain t where t: "run_queue push pop q1 ops = (q', t, popped)" "taken = (if ok then x # t else t)"
      using Cons.prems(2) Push p by (auto simp: Let_def split: prod.splits)
    have "items q1 @ t = popped @ items q'"
      using Cons.IH [OF _ t(1)] push_invar [OF Cons.prems(1), of x] p by simp
    then show ?thesis using push_items [OF Cons.prems(1), of x] p t(2) by auto
  next
    case Pop
    obtain q1 r where p: "pop q = (q1, r)" by fastforce
    obtain u where u: "run_queue push pop q1 ops = (q', taken, u)"
      "popped = (case r of None \<Rightarrow> u | Some x \<Rightarrow> x # u)"
      using Cons.prems(2) Pop p by (auto simp: Let_def split: prod.splits)
    have "items q1 @ taken = u @ items q'"
      using Cons.IH [OF _ u(1)] pop_invar [OF Cons.prems(1)] p by simp
    then show ?thesis
      using pop_empty [OF Cons.prems(1)] pop_item [OF Cons.prems(1)] p u(2) by (cases "items q") auto
  qed
qed simp

lemma run_queue_bound:
  assumes "invar q" and "run_queue push pop q ops = (q', taken, popped)"
  shows "length (items q') \<le> capacity"
  using items_bound run_queue_invar [OF assms(1), of ops] assms(2) by simp

lemma run_queue_admissible:
  assumes "invar q" and "run_queue push pop q ops = (q', taken, popped)"
  shows "list_all admissible taken"
  using assms
proof (induction ops arbitrary: q taken popped)
  case (Cons op ops)
  show ?case
  proof (cases op)
    case (Push x)
    obtain q1 ok where p: "push q x = (q1, ok)" by fastforce
    obtain t where t: "run_queue push pop q1 ops = (q', t, popped)" "taken = (if ok then x # t else t)"
      using Cons.prems(2) Push p by (auto simp: Let_def split: prod.splits)
    have "list_all admissible t"
      using Cons.IH [OF _ t(1)] push_invar [OF Cons.prems(1), of x] p by simp
    then show ?thesis using push_taken [OF Cons.prems(1), of x] p t(2) by simp
  next
    case Pop
    then show ?thesis
      using Cons.prems Cons.IH pop_invar [OF Cons.prems(1)]
      by (auto simp: Let_def split: prod.splits)
  qed
qed simp

end

end
