(* ===== verification/Heap_Alloc.thy ===== *)
theory Heap_Alloc
  imports Prelude
begin

text \<open>
  The kernel heap: \<^verbatim>\<open>kernel/src/allocator/\<close>.

  The free list of \<^verbatim>\<open>linked_list.rs\<close> is written inside the holes it describes, so the
  state keeps the nodes by their address (\<open>nodes\<close>): a node \<^verbatim>\<open>ListNode\<close> at address \<open>a\<close>
  describes the hole that starts at \<open>a\<close>. The sentinel \<open>head\<close> lives outside the heap; a
  pointer \<^verbatim>\<open>*mut ListNode\<close> is \<open>None\<close> for the sentinel and \<open>Some a\<close> for a node in the heap.
  An operation returns \<open>None\<close> where the code would panic (an overflow, an \<open>expect\<close>) or
  follow a pointer that is no node; the lemmas show that neither happens for the layouts of \<open>linked_layout\<close>. Left out there are layouts
  of more than \<open>2 ^ 63 - 8\<close> bytes: \<^verbatim>\<open>Layout\<close> allows them with an alignment below 8, and \<^verbatim>\<open>size_align\<close> panics on them.

  The second half relates the pointer structure to a list of holes (\<open>seg\<close>), proves that
  insertion and removal refine list operations, and shows the invariant of a heap with its
  live allocations: holes, live blocks and lost padding tile the heap exactly.
\<close>

subsection \<open>align_up and layouts\<close>

text \<open>\<open>!(align - 1)\<close> on 64 bits is \<open>2 ^ 64 - 1 - (align - 1)\<close>.\<close>

definition align_up :: "usize \<Rightarrow> usize \<Rightarrow> usize option" where
  "align_up address align =
     (case usize_add address align of
        None \<Rightarrow> None
      | Some s \<Rightarrow> if align = 0 then None
                  else Some ((s - 1) AND (usize_limit - 1 - (align - 1))))"

record layout =
  lay_size :: usize
  lay_align :: usize

definition layout_ok :: "layout \<Rightarrow> bool" where
  "layout_ok l \<longleftrightarrow> (\<exists>k < 63. lay_align l = 2 ^ k) \<and> lay_size l + (lay_align l - 1) < 2 ^ 63"

definition align_to :: "layout \<Rightarrow> usize \<Rightarrow> layout option" where
  "align_to l a =
     (let al = max (lay_align l) a
      in if lay_size l + (al - 1) < 2 ^ 63 then Some \<lparr>lay_size = lay_size l, lay_align = al\<rparr> else None)"

definition pad_to_align :: "layout \<Rightarrow> layout" where
  "pad_to_align l = l\<lparr>lay_size := div_ceil (lay_size l) (lay_align l) * lay_align l\<rparr>"

subsection \<open>The linked list allocator\<close>

record list_node =
  node_size :: usize
  node_next :: "usize option"

record allocator =
  head :: list_node
  nodes :: "usize \<rightharpoonup> list_node"
  heap_size :: usize
  allocated_bytes :: usize

abbreviation (input) node_bytes :: nat where
  "node_bytes \<equiv> 16"

abbreviation (input) node_align :: nat where
  "node_align \<equiv> 8"

definition new_node :: "usize \<Rightarrow> list_node" where
  "new_node sz = \<lparr>node_size = sz, node_next = None\<rparr>"

definition new_allocator :: allocator where
  "new_allocator = \<lparr>head = new_node 0, nodes = Map.empty, heap_size = 0, allocated_bytes = 0\<rparr>"

definition node_at :: "allocator \<Rightarrow> usize option \<Rightarrow> list_node option" where
  "node_at al p = (case p of None \<Rightarrow> Some (head al) | Some a \<Rightarrow> nodes al a)"

definition set_node :: "allocator \<Rightarrow> usize option \<Rightarrow> list_node \<Rightarrow> allocator" where
  "set_node al p n =
     (case p of None \<Rightarrow> al\<lparr>head := n\<rparr> | Some a \<Rightarrow> al\<lparr>nodes := (nodes al)(a \<mapsto> n)\<rparr>)"

text \<open>The walk of step 1 of \<open>add_free_region\<close>: the last node that starts at or below \<open>address\<close>.\<close>

partial_function (option) find_prev ::
  "allocator \<Rightarrow> usize \<Rightarrow> usize option \<Rightarrow> usize option option" where
  "find_prev al address prev =
     (case node_at al prev of
        None \<Rightarrow> None
      | Some n \<Rightarrow>
          (case node_next n of
             None \<Rightarrow> Some prev
           | Some x \<Rightarrow> if address < x then Some prev else find_prev al address (Some x)))"

text \<open>Step 3: the hole to the right is absorbed where the new region ends at its start.\<close>

definition merge_right ::
  "allocator \<Rightarrow> usize \<Rightarrow> usize \<Rightarrow> usize option \<Rightarrow> (allocator \<times> usize \<times> usize option) option" where
  "merge_right al address sz next_opt =
     (case next_opt of
        None \<Rightarrow> Some (al, sz, None)
      | Some x \<Rightarrow>
          (case (nodes al x, usize_add address sz) of
             (Some nn, Some e) \<Rightarrow>
               (if e = x then
                  (case usize_add sz (node_size nn) of
                     None \<Rightarrow> None
                   | Some sz' \<Rightarrow> Some (set_node al (Some x) (nn\<lparr>node_next := None\<rparr>), sz', node_next nn))
                else Some (al, sz, Some x))
           | _ \<Rightarrow> None))"

text \<open>Step 4: the hole to the left grows, or a node is written at \<open>address\<close>.\<close>

definition link_region ::
  "allocator \<Rightarrow> usize option \<Rightarrow> usize \<Rightarrow> usize \<Rightarrow> usize option \<Rightarrow> allocator option" where
  "link_region al prev address sz next_opt =
     (case node_at al prev of
        None \<Rightarrow> None
      | Some pn \<Rightarrow>
          (case (case prev of
                   None \<Rightarrow> Some False
                 | Some p \<Rightarrow> map_option (\<lambda>e. e = address) (usize_add p (node_size pn))) of
             None \<Rightarrow> None
           | Some True \<Rightarrow>
               (case usize_add (node_size pn) sz of
                  None \<Rightarrow> None
                | Some s \<Rightarrow> Some (set_node al prev \<lparr>node_size = s, node_next = next_opt\<rparr>))
           | Some False \<Rightarrow>
               Some (set_node (set_node al (Some address) \<lparr>node_size = sz, node_next = next_opt\<rparr>)
                       prev (pn\<lparr>node_next := Some address\<rparr>))))"

definition add_free_region :: "allocator \<Rightarrow> usize \<Rightarrow> usize \<Rightarrow> allocator option" where
  "add_free_region al address sz =
     (case find_prev al address None of
        None \<Rightarrow> None
      | Some prev \<Rightarrow>
          (case node_at al prev of
             None \<Rightarrow> None
           | Some pn \<Rightarrow>
               (case merge_right (set_node al prev (pn\<lparr>node_next := None\<rparr>)) address sz (node_next pn) of
                  None \<Rightarrow> None
                | Some (al', sz', next_opt) \<Rightarrow> link_region al' prev address sz' next_opt)))"

definition heap_init :: "allocator \<Rightarrow> usize \<Rightarrow> usize \<Rightarrow> allocator option" where
  "heap_init al heap_start hsize =
     add_free_region (al\<lparr>heap_size := hsize, allocated_bytes := 0\<rparr>) heap_start hsize"

text \<open>\<open>Inl ()\<close> is the \<^verbatim>\<open>Err(())\<close> of the source: the request does not fit this hole.\<close>

definition allocate_from ::
  "usize \<Rightarrow> list_node \<Rightarrow> usize \<Rightarrow> usize \<Rightarrow> (unit + usize) option" where
  "allocate_from region n sz align =
     (case align_up region align of
        None \<Rightarrow> None
      | Some start \<Rightarrow>
          (case usize_add start sz of
             None \<Rightarrow> Some (Inl ())
           | Some e \<Rightarrow>
               (case usize_add region (node_size n) of
                  None \<Rightarrow> None
                | Some region_end \<Rightarrow>
                    if region_end < e then Some (Inl ())
                    else if 0 < region_end - e \<and> region_end - e < node_bytes then Some (Inl ())
                    else Some (Inr start))))"

text \<open>The walk of \<open>find_region\<close>; the hole found is unlinked from its predecessor.\<close>

partial_function (option) find_region ::
  "allocator \<Rightarrow> usize \<Rightarrow> usize \<Rightarrow> usize option
     \<Rightarrow> (allocator \<times> (usize \<times> list_node \<times> usize) option) option" where
  "find_region al sz align current =
     (case node_at al current of
        None \<Rightarrow> None
      | Some cn \<Rightarrow>
          (case node_next cn of
             None \<Rightarrow> Some (al, None)
           | Some x \<Rightarrow>
               (case nodes al x of
                  None \<Rightarrow> None
                | Some region \<Rightarrow>
                    (case allocate_from x region sz align of
                       None \<Rightarrow> None
                     | Some (Inr start) \<Rightarrow>
                         Some (set_node (set_node al (Some x) (region\<lparr>node_next := None\<rparr>))
                                 current (cn\<lparr>node_next := node_next region\<rparr>),
                               Some (x, region\<lparr>node_next := None\<rparr>, start))
                     | Some (Inl u) \<Rightarrow> find_region al sz align (Some x)))))"

definition size_align :: "layout \<Rightarrow> (usize \<times> usize) option" where
  "size_align l =
     (case align_to l node_align of
        None \<Rightarrow> None
      | Some l' \<Rightarrow> let p = pad_to_align l' in Some (max (lay_size p) node_bytes, lay_align p))"

text \<open>The address 0 is the null pointer.\<close>

definition allocate_layout :: "allocator \<Rightarrow> layout \<Rightarrow> (allocator \<times> usize) option" where
  "allocate_layout al l =
     (case size_align l of
        None \<Rightarrow> None
      | Some (sz, align) \<Rightarrow>
          (case find_region al sz align None of
             None \<Rightarrow> None
           | Some (al', None) \<Rightarrow> Some (al', 0)
           | Some (al', Some (x, region, start)) \<Rightarrow>
               (case (usize_add start sz, usize_add x (node_size region)) of
                  (Some e, Some region_end) \<Rightarrow>
                    (case (if 0 < region_end - e then add_free_region al' e (region_end - e) else Some al') of
                       None \<Rightarrow> None
                     | Some al'' \<Rightarrow>
                         Some (al''\<lparr>allocated_bytes := saturating_add (allocated_bytes al'') sz\<rparr>, start))
                | _ \<Rightarrow> None)))"

definition deallocate_layout :: "allocator \<Rightarrow> usize \<Rightarrow> layout \<Rightarrow> allocator option" where
  "deallocate_layout al p l =
     (case size_align l of
        None \<Rightarrow> None
      | Some (sz, _) \<Rightarrow>
          add_free_region (al\<lparr>allocated_bytes := saturating_sub (allocated_bytes al) sz\<rparr>) p sz)"

definition free_bytes :: "allocator \<Rightarrow> usize" where
  "free_bytes al = saturating_sub (heap_size al) (allocated_bytes al)"

definition used_bytes :: "allocator \<Rightarrow> usize" where
  "used_bytes al = allocated_bytes al"

partial_function (option) count_nodes :: "allocator \<Rightarrow> usize option \<Rightarrow> usize \<Rightarrow> usize option" where
  "count_nodes al current acc =
     (case current of
        None \<Rightarrow> Some acc
      | Some a \<Rightarrow>
          (case nodes al a of
             None \<Rightarrow> None
           | Some n \<Rightarrow> count_nodes al (node_next n) (acc + 1)))"

definition free_node_count :: "allocator \<Rightarrow> usize option" where
  "free_node_count al = count_nodes al (node_next (head al)) 0"

partial_function (option) sum_nodes :: "allocator \<Rightarrow> usize option \<Rightarrow> usize \<Rightarrow> usize option" where
  "sum_nodes al current acc =
     (case current of
        None \<Rightarrow> Some acc
      | Some a \<Rightarrow>
          (case nodes al a of
             None \<Rightarrow> None
           | Some n \<Rightarrow>
               (case usize_add acc (node_size n) of
                  None \<Rightarrow> None
                | Some acc' \<Rightarrow> sum_nodes al (node_next n) acc')))"

definition sum_free_bytes :: "allocator \<Rightarrow> usize option" where
  "sum_free_bytes al = sum_nodes al (node_next (head al)) 0"

subsection \<open>The bump allocator\<close>

record bump_allocator =
  bump_start :: usize
  bump_end :: usize
  bump_next :: usize
  bump_allocations :: usize

definition bump_new :: bump_allocator where
  "bump_new = \<lparr>bump_start = 0, bump_end = 0, bump_next = 0, bump_allocations = 0\<rparr>"

definition bump_init :: "bump_allocator \<Rightarrow> usize \<Rightarrow> usize \<Rightarrow> bump_allocator option" where
  "bump_init b hstart hsize =
     (case usize_add hstart hsize of
        None \<Rightarrow> None
      | Some e \<Rightarrow> Some (b\<lparr>bump_start := hstart, bump_end := e, bump_next := hstart\<rparr>))"

definition bump_used :: "bump_allocator \<Rightarrow> usize" where
  "bump_used b = bump_next b - bump_start b"

definition bump_alloc :: "bump_allocator \<Rightarrow> layout \<Rightarrow> (bump_allocator \<times> usize) option" where
  "bump_alloc b l =
     (case align_up (bump_next b) (lay_align l) of
        None \<Rightarrow> None
      | Some start \<Rightarrow>
          (case usize_add start (lay_size l) of
             None \<Rightarrow> Some (b, 0)
           | Some e \<Rightarrow>
               if bump_end b < e then Some (b, 0)
               else
                 (case usize_add (bump_allocations b) 1 of
                    None \<Rightarrow> None
                  | Some n \<Rightarrow> Some (b\<lparr>bump_next := e, bump_allocations := n\<rparr>, start))))"

definition bump_dealloc :: "bump_allocator \<Rightarrow> usize \<Rightarrow> layout \<Rightarrow> bump_allocator option" where
  "bump_dealloc b p l =
     (if bump_allocations b = 0 then None
      else let b' = b\<lparr>bump_allocations := bump_allocations b - 1\<rparr>
           in Some (if bump_allocations b' = 0 then b'\<lparr>bump_next := bump_start b'\<rparr> else b'))"

subsection \<open>The free list as a list of holes\<close>

text \<open>A block is a start address and a size. \<open>seg m p bs q\<close>: the pointers from \<open>p\<close> to \<open>q\<close> pass
  exactly the holes \<open>bs\<close>. \<open>add_hole\<close> is the specification of \<open>add_free_region\<close> on that list, and
  \<open>coverage bs x\<close> counts the blocks of \<open>bs\<close> that hold the byte at \<open>x\<close>.\<close>

type_synonym block = "usize \<times> usize"

definition gap_before :: "block \<Rightarrow> block \<Rightarrow> bool" where
  "gap_before b c \<longleftrightarrow> fst b + snd b < fst c"

fun seg :: "(usize \<rightharpoonup> list_node) \<Rightarrow> usize option \<Rightarrow> block list \<Rightarrow> usize option \<Rightarrow> bool" where
  "seg m p [] q \<longleftrightarrow> p = q"
| "seg m p (b # bs) q \<longleftrightarrow>
     (p = Some (fst b) \<and> (\<exists>r. m (fst b) = Some \<lparr>node_size = snd b, node_next = r\<rparr> \<and> seg m r bs q))"

definition holes :: "allocator \<Rightarrow> block list \<Rightarrow> bool" where
  "holes al bs \<longleftrightarrow> seg (nodes al) (node_next (head al)) bs None"

definition block_ok :: "usize \<Rightarrow> usize \<Rightarrow> block \<Rightarrow> bool" where
  "block_ok lo hi b \<longleftrightarrow> lo \<le> fst b \<and> fst b + snd b \<le> hi \<and> 16 \<le> snd b \<and> 8 dvd fst b \<and> 8 dvd snd b"

definition holes_ok :: "usize \<Rightarrow> usize \<Rightarrow> block list \<Rightarrow> bool" where
  "holes_ok lo hi bs \<longleftrightarrow> sorted_wrt gap_before bs \<and> (\<forall>b\<in>set bs. block_ok lo hi b)"

definition merge_hole :: "usize \<Rightarrow> usize \<Rightarrow> block list \<Rightarrow> usize \<times> block list" where
  "merge_hole a s post =
     (case post of [] \<Rightarrow> (s, []) | b # bs \<Rightarrow> if a + s = fst b then (s + snd b, bs) else (s, post))"

definition add_hole :: "usize \<Rightarrow> usize \<Rightarrow> block list \<Rightarrow> block list" where
  "add_hole a s bs =
     (let pre = takeWhile (\<lambda>b. fst b \<le> a) bs;
          (s', post) = merge_hole a s (dropWhile (\<lambda>b. fst b \<le> a) bs)
      in if pre \<noteq> [] \<and> fst (last pre) + snd (last pre) = a
         then butlast pre @ (fst (last pre), snd (last pre) + s') # post
         else pre @ (a, s') # post)"

definition covers :: "block \<Rightarrow> usize \<Rightarrow> nat" where
  "covers b x = (if fst b \<le> x \<and> x < fst b + snd b then 1 else 0)"

definition coverage :: "block list \<Rightarrow> usize \<Rightarrow> nat" where
  "coverage bs x = (\<Sum>b\<leftarrow>bs. covers b x)"

definition disjoint_from :: "block \<Rightarrow> block list \<Rightarrow> bool" where
  "disjoint_from b bs \<longleftrightarrow> (\<forall>c\<in>set bs. fst b + snd b \<le> fst c \<or> fst c + snd c \<le> fst b)"

fun pairwise_disjoint :: "block list \<Rightarrow> bool" where
  "pairwise_disjoint [] = True"
| "pairwise_disjoint (b # bs) = (disjoint_from b bs \<and> pairwise_disjoint bs)"

definition align_start :: "usize \<Rightarrow> usize \<Rightarrow> usize" where
  "align_start a al = (a + al - 1) div al * al"

definition fits :: "usize \<Rightarrow> usize \<Rightarrow> block \<Rightarrow> bool" where
  "fits sz al b \<longleftrightarrow>
     (let e = align_start (fst b) al + sz; region_end = fst b + snd b
      in e = region_end \<or> e + 16 \<le> region_end)"

definition unlinked :: "allocator \<Rightarrow> usize option \<Rightarrow> block list \<Rightarrow> block list \<Rightarrow> allocator \<Rightarrow> bool" where
  "unlinked al cur bs bs' al' \<longleftrightarrow>
     (\<exists>cn cn'. node_at al cur = Some cn \<and> node_at al' cur = Some cn' \<and> node_size cn' = node_size cn
        \<and> seg (nodes al') (node_next cn') bs' None)
     \<and> (\<forall>u. u \<notin> fst ` set bs \<and> Some u \<noteq> cur \<longrightarrow> nodes al' u = nodes al u)
     \<and> (cur \<noteq> None \<longrightarrow> head al' = head al)
     \<and> heap_size al' = heap_size al \<and> allocated_bytes al' = allocated_bytes al"

text \<open>The invariant: every byte of the heap lies in exactly one hole, live block or lost padding,
  and \<open>allocated_bytes\<close> counts the live blocks.\<close>

definition heap_inv :: "usize \<Rightarrow> usize \<Rightarrow> allocator \<Rightarrow> block list \<Rightarrow> block list \<Rightarrow> bool" where
  "heap_inv lo hi al live lost \<longleftrightarrow>
     0 < lo \<and> lo \<le> hi \<and> hi < 2 ^ 63 \<and>
     (\<exists>bs. holes al bs \<and> holes_ok lo hi bs \<and>
        (\<forall>x. coverage bs x + coverage live x + coverage lost x = (if lo \<le> x \<and> x < hi then 1 else 0))) \<and>
     (\<forall>b\<in>set live. block_ok lo hi b) \<and>
     heap_size al = hi - lo \<and> allocated_bytes al = (\<Sum>b\<leftarrow>live. snd b)"

text \<open>A heap of 256 bytes with one live block, for concrete runs.\<close>

definition sample_heap :: allocator where
  "sample_heap = \<lparr>head = \<lparr>node_size = 0, node_next = Some 80\<rparr>,
     nodes = [80 \<mapsto> \<lparr>node_size = 240, node_next = None\<rparr>], heap_size = 256, allocated_bytes = 16\<rparr>"

subsection \<open>Clients\<close>

text \<open>A client allocates layouts and releases blocks it holds, in any order. \<open>held\<close> lists the blocks
  it holds with the layout they were asked with; the null pointer is no block.\<close>

datatype request = Allocate layout | Release nat

fun serve ::
  "('s \<Rightarrow> layout \<Rightarrow> ('s \<times> usize) option) \<Rightarrow> ('s \<Rightarrow> usize \<Rightarrow> layout \<Rightarrow> 's option)
    \<Rightarrow> 's \<times> (usize \<times> layout) list \<Rightarrow> request \<Rightarrow> ('s \<times> (usize \<times> layout) list) option" where
  "serve alloc dealloc (s, held) (Allocate l) =
     (case alloc s l of
        None \<Rightarrow> None
      | Some (s', p) \<Rightarrow> Some (s', if p = 0 then held else (p, l) # held))"
| "serve alloc dealloc (s, held) (Release i) =
     (if i < length held
      then map_option (\<lambda>s'. (s', take i held @ drop (Suc i) held)) (dealloc s (fst (held ! i)) (snd (held ! i)))
      else Some (s, held))"

fun serve_all ::
  "('s \<Rightarrow> layout \<Rightarrow> ('s \<times> usize) option) \<Rightarrow> ('s \<Rightarrow> usize \<Rightarrow> layout \<Rightarrow> 's option)
    \<Rightarrow> 's \<times> (usize \<times> layout) list \<Rightarrow> request list \<Rightarrow> ('s \<times> (usize \<times> layout) list) option" where
  "serve_all alloc dealloc st [] = Some st"
| "serve_all alloc dealloc st (r # rs) =
     (case serve alloc dealloc st r of None \<Rightarrow> None | Some st' \<Rightarrow> serve_all alloc dealloc st' rs)"

fun request_ok :: "(layout \<Rightarrow> bool) \<Rightarrow> request \<Rightarrow> bool" where
  "request_ok P (Allocate l) = P l"
| "request_ok P (Release i) = True"

text \<open>A client also writes into its blocks. The free list is nodes in the same memory, so a write changes what the words of the block
  would be as nodes, to anything.\<close>

datatype heap_use = Ask request | Scribble nat "usize \<Rightarrow> list_node option"

definition blocks_of :: "(layout \<Rightarrow> usize) \<Rightarrow> (usize \<times> layout) list \<Rightarrow> block list" where
  "blocks_of block_size held = map (\<lambda>(p, l). (p, block_size l)) held"

definition held_ok :: "(layout \<Rightarrow> bool) \<Rightarrow> usize \<times> layout \<Rightarrow> bool" where
  "held_ok layout_valid h \<longleftrightarrow> layout_valid (snd h) \<and> fst h \<noteq> 0 \<and> lay_align (snd h) dvd fst h"

definition linked_size :: "layout \<Rightarrow> usize" where
  "linked_size l = (case size_align l of None \<Rightarrow> 0 | Some (sz, _) \<Rightarrow> sz)"

definition linked_layout :: "layout \<Rightarrow> bool" where
  "linked_layout l \<longleftrightarrow> layout_ok l \<and> lay_size l + 7 < 2 ^ 63"

definition linked_ok :: "usize \<Rightarrow> usize \<Rightarrow> allocator \<Rightarrow> block list \<Rightarrow> bool" where
  "linked_ok lo hi al live \<longleftrightarrow> (\<exists>lost. heap_inv lo hi al live lost)"

definition exact_layout :: "layout \<Rightarrow> bool" where
  "exact_layout l \<longleftrightarrow> linked_layout l \<and> lay_align l \<le> 8"

definition exact_ok :: "usize \<Rightarrow> usize \<Rightarrow> allocator \<Rightarrow> block list \<Rightarrow> bool" where
  "exact_ok lo hi al live \<longleftrightarrow> (\<exists>lost. heap_inv lo hi al live lost \<and> (\<forall>b\<in>set lost. snd b = 0))"

definition bump_layout :: "layout \<Rightarrow> bool" where
  "bump_layout l \<longleftrightarrow> layout_ok l \<and> 0 < lay_size l"

definition bump_ok :: "usize \<Rightarrow> usize \<Rightarrow> bump_allocator \<Rightarrow> block list \<Rightarrow> bool" where
  "bump_ok lo hi b live \<longleftrightarrow>
     0 < lo \<and> hi < 2 ^ 63 \<and> bump_start b = lo \<and> bump_end b = hi \<and> lo \<le> bump_next b \<and> bump_next b \<le> hi \<and>
     bump_allocations b = length live \<and> lo + length live \<le> bump_next b \<and> pairwise_disjoint live \<and>
     (\<forall>c\<in>set live. lo \<le> fst c \<and> fst c + snd c \<le> bump_next b)"

subsection \<open>The pointer walks follow the list\<close>

lemma seg_append: "seg m p (bs @ cs) q \<longleftrightarrow> (\<exists>r. seg m p bs r \<and> seg m r cs q)"
  by (induction bs arbitrary: p) auto

lemma seg_upd: "u \<notin> fst ` set bs \<Longrightarrow> seg (m(u \<mapsto> n)) p bs q = seg m p bs q"
  by (induction bs arbitrary: p) auto

lemma seg_cong: "(\<And>u. u \<in> fst ` set bs \<Longrightarrow> m u = m' u) \<Longrightarrow> seg m p bs q = seg m' p bs q"
  by (induction bs arbitrary: p) auto

lemma node_at_simps [simp]:
  "node_at al None = Some (head al)" "node_at al (Some a) = nodes al a"
  by (simp_all add: node_at_def)

lemma set_node_simps [simp]:
  "nodes (set_node al None n) = nodes al" "head (set_node al None n) = n"
  "nodes (set_node al (Some a) n) = (nodes al)(a \<mapsto> n)" "head (set_node al (Some a) n) = head al"
  "heap_size (set_node al p n) = heap_size al"
  "allocated_bytes (set_node al p n) = allocated_bytes al"
  by (simp_all add: set_node_def split: option.split)

lemma find_prev_spec:
  assumes "node_at al prev = Some n" and "seg (nodes al) (node_next n) (pre @ post) None"
    and "\<forall>b\<in>set pre. fst b \<le> a" and "post = [] \<or> a < fst (hd post)"
  shows "find_prev al a prev = Some (if pre = [] then prev else Some (fst (last pre)))"
  using assms
proof (induction pre arbitrary: prev n)
  case Nil
  then show ?case
    by (cases post) (auto simp: find_prev.simps [of al a prev])
next
  case (Cons b pre)
  from Cons.prems obtain r where r: "node_next n = Some (fst b)"
    "nodes al (fst b) = Some \<lparr>node_size = snd b, node_next = r\<rparr>" "seg (nodes al) r (pre @ post) None"
    by auto
  from r have "find_prev al a (Some (fst b)) =
      Some (if pre = [] then Some (fst b) else Some (fst (last pre)))"
    using Cons.prems by (intro Cons.IH) auto
  with Cons.prems r show ?case
    by (auto simp: find_prev.simps [of al a prev])
qed

lemma merge_right_spec:
  assumes "seg (nodes al) nx post None" and "a + s < usize_limit"
    and "\<forall>b\<in>set post. s + snd b < usize_limit" and "distinct (map fst post)"
    and "merge_hole a s post = (s', post')"
  shows "\<exists>al' nx'. merge_right al a s nx = Some (al', s', nx') \<and> seg (nodes al') nx' post' None
     \<and> head al' = head al \<and> heap_size al' = heap_size al \<and> allocated_bytes al' = allocated_bytes al
     \<and> (\<forall>u. u \<notin> fst ` set post \<longrightarrow> nodes al' u = nodes al u)"
  using assms
  by (cases post) (auto simp: merge_right_def merge_hole_def usize_add_def seg_upd split: if_splits)

lemma gap_sorted_distinct:
  "sorted_wrt gap_before bs \<Longrightarrow> distinct (map fst bs)"
  by (induction bs) (auto simp: gap_before_def)

lemma takeWhile_dropWhile_split:
  obtains pre post where "bs = pre @ post" "pre = takeWhile P bs" "post = dropWhile P bs"
    "\<forall>b\<in>set pre. P b" "post = [] \<or> \<not> P (hd post)"
  using hd_dropWhile[of P bs] set_takeWhileD[of _ P bs]
  by (metis takeWhile_dropWhile_id)

lemma link_region_append:
  assumes "seg (nodes al) (node_next (head al)) pre (Some p)"
    and "nodes al p = Some \<lparr>node_size = t, node_next = r\<rparr>"
    and "seg (nodes al) nx post None" and "p \<notin> fst ` set (pre @ post)" and "a \<notin> fst ` set (pre @ post)"
    and "p \<noteq> a" and "p + t < usize_limit" "t + s < usize_limit"
  shows "\<exists>al'. link_region al (Some p) a s nx = Some al' \<and> heap_size al' = heap_size al \<and>
     allocated_bytes al' = allocated_bytes al \<and>
     holes al' (if p + t = a then pre @ (p, t + s) # post else pre @ (p, t) # (a, s) # post)"
  using assms
  by (auto simp: link_region_def usize_add_def holes_def seg_append seg_upd image_Un)

lemma link_region_head:
  assumes "seg (nodes al) nx post None" and "a \<notin> fst ` set post"
  shows "\<exists>al'. link_region al None a s nx = Some al' \<and> heap_size al' = heap_size al \<and>
     allocated_bytes al' = allocated_bytes al \<and> holes al' ((a, s) # post)"
  using assms
  by (auto simp: link_region_def holes_def seg_upd)

lemma add_free_region_refines:
  assumes h: "holes al bs" and ok: "holes_ok lo hi bs" and hi: "hi < usize_limit"
    and a: "lo \<le> a" "a + s \<le> hi" "0 < s" and dj: "disjoint_from (a, s) bs"
  shows "\<exists>al'. add_free_region al a s = Some al' \<and> holes al' (add_hole a s bs) \<and>
     heap_size al' = heap_size al \<and> allocated_bytes al' = allocated_bytes al"
proof -
  define P where "P = (\<lambda>b::block. fst b \<le> a)"
  obtain pre post where bs: "bs = pre @ post" and pre: "pre = takeWhile P bs"
    and post: "post = dropWhile P bs" and Ppre: "\<forall>b\<in>set pre. P b" and Ppost: "post = [] \<or> \<not> P (hd post)"
    by (rule takeWhile_dropWhile_split)
  obtain s' post' where m: "merge_hole a s post = (s', post')" by fastforce
  have sw: "sorted_wrt gap_before (pre @ post)" and bok: "\<forall>b\<in>set bs. block_ok lo hi b"
    using ok bs by (auto simp: holes_ok_def)
  have gt: "\<forall>b\<in>set post. a < fst b"
    using Ppost sw by (cases post) (auto simp: sorted_wrt_append P_def gap_before_def)
  have prevs: "\<forall>b\<in>set pre. fst b + snd b \<le> a"
  proof
    fix b assume "b \<in> set pre"
    then have "fst b \<le> a" "a + s \<le> fst b \<or> fst b + snd b \<le> a"
      using dj Ppre bs by (auto simp: disjoint_from_def P_def)
    then show "fst b + snd b \<le> a" using a(3) by linarith
  qed
  have posts: "\<forall>b\<in>set post. a + s \<le> fst b"
    using dj gt bs by (auto simp: disjoint_from_def dest!: bspec)
  have dist: "distinct (map fst (pre @ post))" by (rule gap_sorted_distinct [OF sw])
  have ub: "\<forall>b\<in>set post. s + snd b < usize_limit"
  proof
    fix b assume "b \<in> set post"
    then have "a + s \<le> fst b" "fst b + snd b \<le> hi" using posts bok bs by (auto simp: block_ok_def)
    then show "s + snd b < usize_limit" using hi by linarith
  qed
  have su: "a + s < usize_limit" using a hi by simp
  have s': "a + s' \<le> hi"
    using m a bok bs by (auto simp: merge_hole_def block_ok_def split: list.splits if_splits)
  have post': "fst ` set post' \<subseteq> fst ` set post" 
    using m by (auto simp: merge_hole_def split: list.splits if_splits)
  have an0: "a \<notin> fst ` set post" using gt by force
  show ?thesis
  proof (cases pre rule: rev_cases)
    case Nil
    have fp: "find_prev al a None = Some None"
      using find_prev_spec [of al None "head al" "[]" post a] h bs Nil gt by (cases post) (auto simp: holes_def)
    let ?al1 = "set_node al None ((head al)\<lparr>node_next := None\<rparr>)"
    from h bs Nil have "seg (nodes ?al1) (node_next (head al)) post None" by (simp add: holes_def)
    from merge_right_spec [OF this su ub _ m] dist Nil obtain al2 nx' where
      mr: "merge_right ?al1 a s (node_next (head al)) = Some (al2, s', nx')"
        "seg (nodes al2) nx' post' None" "heap_size al2 = heap_size al" "allocated_bytes al2 = allocated_bytes al"
      by auto
    have "a \<notin> fst ` set post'" using an0 post' by blast
    from link_region_head [OF mr(2) this] obtain al3 where
      "link_region al2 None a s' nx' = Some al3" "heap_size al3 = heap_size al"
      "allocated_bytes al3 = allocated_bytes al" "holes al3 ((a, s') # post')"
      using mr by auto
    moreover have "add_hole a s bs = (a, s') # post'"
      using m Nil pre post by (simp add: add_hole_def P_def)
    ultimately show ?thesis using fp mr by (simp add: add_free_region_def)
  next
    case (snoc pre1 b)
    obtain p t where b: "b = (p, t)" by fastforce
    from h bs snoc b obtain r where r: "seg (nodes al) (node_next (head al)) pre1 (Some p)"
      "nodes al p = Some \<lparr>node_size = t, node_next = r\<rparr>" "seg (nodes al) r post None"
      by (auto simp: holes_def seg_append)
    have fp: "find_prev al a None = Some (Some p)"
      using find_prev_spec [of al None "head al" pre post a] h bs snoc b gt Ppre
      by (cases post) (auto simp: holes_def P_def)
    have pn: "p \<notin> fst ` set (pre1 @ post)" using dist snoc b by auto
    have "\<forall>b\<in>set pre. fst b < a"
    proof
      fix b assume "b \<in> set pre"
      then have "fst b + snd b \<le> a" "16 \<le> snd b" using prevs bok bs by (auto simp: block_ok_def)
      then show "fst b < a" by linarith
    qed
    then have an: "a \<notin> fst ` set (pre1 @ post)" "p \<noteq> a"
      using an0 snoc b by auto
    let ?al1 = "set_node al (Some p) (\<lparr>node_size = t, node_next = None\<rparr>)"
    have "seg (nodes ?al1) r post None" using r pn by (simp add: seg_upd image_Un)
    from merge_right_spec [OF this su ub _ m] dist obtain al2 nx' where
      mr: "merge_right ?al1 a s r = Some (al2, s', nx')" "seg (nodes al2) nx' post' None"
        "head al2 = head al" "heap_size al2 = heap_size al" "allocated_bytes al2 = allocated_bytes al"
      and fr: "\<forall>u. u \<notin> fst ` set post \<longrightarrow> nodes al2 u = nodes ?al1 u"
      by auto
    have np: "nodes al2 p = Some \<lparr>node_size = t, node_next = None\<rparr>" using fr pn by auto
    have "nodes al u = nodes al2 u" if "u \<in> fst ` set pre1" for u
    proof -
      have "u \<notin> fst ` set post" using dist snoc that by auto
      moreover have "u \<noteq> p" using that pn by auto
      ultimately show ?thesis using fr by simp
    qed
    then have "seg (nodes al2) (node_next (head al2)) pre1 (Some p)"
      using r(1) mr(3) seg_cong [of pre1 "nodes al" "nodes al2"] by simp
    moreover have pn': "p \<notin> fst ` set (pre1 @ post')" and an': "a \<notin> fst ` set (pre1 @ post')"
      using pn an(1) post' by (auto simp: image_Un)
    moreover have "p + t < usize_limit" "t + s' < usize_limit"
      using prevs snoc b s' hi by auto
    ultimately obtain al3 where "link_region al2 (Some p) a s' nx' = Some al3" "heap_size al3 = heap_size al"
      "allocated_bytes al3 = allocated_bytes al"
      "holes al3 (if p + t = a then pre1 @ (p, t + s') # post' else pre1 @ (p, t) # (a, s') # post')"
      using link_region_append [OF _ np mr(2) pn' an' an(2)] unfolding mr(4,5) by blast
    moreover have "add_hole a s bs =
        (if p + t = a then pre1 @ (p, t + s') # post' else pre1 @ (p, t) # (a, s') # post')"
      using m snoc b pre [symmetric] post [symmetric] by (simp add: add_hole_def P_def)
    ultimately show ?thesis using fp mr r by (simp add: add_free_region_def)
  qed
qed

subsection \<open>Coverage and the order of the holes\<close>

lemma coverage_simps [simp]:
  "coverage [] x = 0" "coverage (b # bs) x = covers b x + coverage bs x"
  "coverage (bs @ cs) x = coverage bs x + coverage cs x"
  by (simp_all add: coverage_def)

lemma covers_join: "a + s = fst b \<Longrightarrow> covers (a, s + snd b) x = covers (a, s) x + covers b x"
  by (auto simp: covers_def)

lemma merge_hole_coverage:
  "merge_hole a s post = (s', post') \<Longrightarrow>
     covers (a, s') x + coverage post' x = covers (a, s) x + coverage post x"
  by (auto simp: merge_hole_def covers_def split: list.splits if_splits)

lemma add_hole_coverage: "coverage (add_hole a s bs) x = covers (a, s) x + coverage bs x"
proof -
  define pre where "pre = takeWhile (\<lambda>b. fst b \<le> a) bs"
  define post where "post = dropWhile (\<lambda>b. fst b \<le> a) bs"
  obtain s' post' where m: "merge_hole a s post = (s', post')" by fastforce
  have c: "coverage bs x = coverage pre x + coverage post x"
    by (simp add: pre_def post_def flip: coverage_simps(3))
  show ?thesis
  proof (cases "pre \<noteq> [] \<and> fst (last pre) + snd (last pre) = a")
    case True
    then obtain p t where l: "last pre = (p, t)" "p + t = a" by (cases "last pre") auto
    have "coverage pre x = coverage (butlast pre) x + covers (p, t) x"
      using True l append_butlast_last_id[of pre] coverage_simps(3)[of "butlast pre" "[last pre]" x] by simp
    moreover have "covers (p, t + s') x = covers (p, t) x + covers (a, s') x"
      using covers_join[of p t "(a, s')" x] l by simp
    moreover have "add_hole a s bs = butlast pre @ (p, t + s') # post'"
      using True l m by (simp add: add_hole_def flip: pre_def post_def)
    ultimately show ?thesis using merge_hole_coverage [OF m, of x] c by simp
  next
    case False
    then have "add_hole a s bs = pre @ (a, s') # post'"
      using m by (auto simp: add_hole_def simp flip: pre_def post_def)
    then show ?thesis using merge_hole_coverage [OF m, of x] c by simp
  qed
qed

lemma merge_hole_ok:
  assumes "merge_hole a s post = (s', post')" and "holes_ok lo hi post" and "block_ok lo hi (a, s)"
    and "\<forall>b\<in>set post. a + s \<le> fst b"
  shows "holes_ok lo hi ((a, s') # post')"
proof (cases post)
  case (Cons b bs)
  show ?thesis
  proof (cases "a + s = fst b")
    case True
    then show ?thesis using assms Cons
      by (auto simp: merge_hole_def holes_ok_def block_ok_def gap_before_def)
  next
    case False
    then have "\<forall>c\<in>set post. a + s < fst c"
      using assms(2,4) Cons by (force simp: holes_ok_def gap_before_def)
    then show ?thesis using assms Cons False
      by (auto simp: merge_hole_def holes_ok_def block_ok_def gap_before_def)
  qed
qed (use assms in \<open>auto simp: merge_hole_def holes_ok_def\<close>)

lemma holes_ok_append:
  "holes_ok lo hi (bs @ cs) \<longleftrightarrow> holes_ok lo hi bs \<and> holes_ok lo hi cs \<and> (\<forall>b\<in>set bs. \<forall>c\<in>set cs. gap_before b c)"
  by (auto simp: holes_ok_def sorted_wrt_append)

lemma add_hole_ok:
  assumes ok: "holes_ok lo hi bs" and b: "block_ok lo hi (a, s)" and dj: "disjoint_from (a, s) bs"
  shows "holes_ok lo hi (add_hole a s bs)"
proof -
  define P where "P = (\<lambda>b::block. fst b \<le> a)"
  obtain pre post where bs: "bs = pre @ post" and pre: "pre = takeWhile P bs"
    and post: "post = dropWhile P bs" and Ppre: "\<forall>b\<in>set pre. P b" and Ppost: "post = [] \<or> \<not> P (hd post)"
    by (rule takeWhile_dropWhile_split)
  obtain s' post' where m: "merge_hole a s post = (s', post')" by fastforce
  note oks = ok [unfolded bs holes_ok_append]
  have gt: "\<forall>b\<in>set post. a < fst b"
    using Ppost oks by (cases post) (auto simp: holes_ok_def P_def gap_before_def)
  have posts: "\<forall>b\<in>set post. a + s \<le> fst b"
    using dj gt bs by (auto simp: disjoint_from_def dest!: bspec)
  have prevs: "fst b + snd b \<le> a" if "b \<in> set pre" for b
  proof -
    have "fst b \<le> a" "a + s \<le> fst b \<or> fst b + snd b \<le> a"
      using dj Ppre bs that by (auto simp: disjoint_from_def P_def)
    then show ?thesis using b by (auto simp: block_ok_def)
  qed
  have tail: "holes_ok lo hi ((a, s') # post')"
    using m oks b posts by (intro merge_hole_ok) auto
  have sub: "set post' \<subseteq> set post"
    using m by (auto simp: merge_hole_def split: list.splits if_splits)
  show ?thesis
  proof (cases pre rule: rev_cases)
    case Nil
    then have "add_hole a s bs = (a, s') # post'"
      using m pre post by (simp add: add_hole_def P_def)
    then show ?thesis using tail by simp
  next
    case (snoc pre1 b)
    obtain p t where b': "b = (p, t)" by fastforce
    have lt: "fst c + snd c < p" if "c \<in> set pre1" for c
      using oks snoc b' that by (auto simp: sorted_wrt_append holes_ok_def gap_before_def)
    have pt: "p + t \<le> a" using prevs snoc b' by auto
    have ptok: "block_ok lo hi (p, t)" "holes_ok lo hi pre1"
      using oks snoc b' by (auto simp: holes_ok_def sorted_wrt_append)
    have ah: "add_hole a s bs =
        (if p + t = a then pre1 @ (p, t + s') # post' else pre1 @ (p, t) # (a, s') # post')"
      using m snoc b' pre [symmetric] post [symmetric] by (simp add: add_hole_def P_def)
    show ?thesis
    proof (cases "p + t = a")
      case True
      have "holes_ok lo hi ((p, t + s') # post')"
        using tail ptok True by (auto simp: holes_ok_def block_ok_def gap_before_def)
      moreover have "gap_before c d" if "c \<in> set pre1" "d \<in> set ((p, t + s') # post')" for c d
        using that lt pt sub gt by (fastforce simp: gap_before_def)
      ultimately show ?thesis using ah True ptok by (simp add: holes_ok_append)
    next
      case False
      have g: "gap_before (p, t) c" if "c \<in> set ((a, s') # post')" for c
        using that pt False gt sub by (fastforce simp: gap_before_def)
      then have "holes_ok lo hi ((p, t) # (a, s') # post')"
        using tail ptok by (simp add: holes_ok_def)
      moreover have "gap_before c d" if "c \<in> set pre1" "d \<in> set ((p, t) # (a, s') # post')" for c d
        using that lt pt sub gt by (fastforce simp: gap_before_def)
      ultimately show ?thesis using ah False ptok by (simp add: holes_ok_append)
    qed
  qed
qed

lemma disjoint_from_coverage:
  assumes "\<forall>x. covers b x + coverage bs x \<le> 1" and "0 < snd b" and "\<forall>c\<in>set bs. 0 < snd c"
  shows "disjoint_from b bs"
proof -
  have "fst b + snd b \<le> fst c \<or> fst c + snd c \<le> fst b" if "c \<in> set bs" for c
  proof (rule ccontr)
    assume n: "\<not> ?thesis"
    define x where "x = max (fst b) (fst c)"
    have "covers b x = 1" "covers c x = 1" using n assms(2,3) that by (auto simp: covers_def x_def)
    moreover have "covers c x \<le> coverage bs x" using that
      by (auto simp: coverage_def intro: member_le_sum_list)
    moreover have "covers b x + coverage bs x \<le> 1" using assms(1) by blast
    ultimately show False by linarith
  qed
  then show ?thesis by (simp add: disjoint_from_def)
qed

subsection \<open>Alignment, layouts and the search for a hole\<close>

lemma align_start_bounds:
  assumes "0 < al"
  shows "a \<le> align_start a al" and "align_start a al < a + al" and "al dvd align_start a al"
proof -
  define y where "y = a + al - 1"
  have "y div al * al + y mod al = y" by simp
  moreover have "y mod al < al" using assms by simp
  moreover have "align_start a al = y div al * al" by (simp add: align_start_def y_def)
  moreover have "y + 1 = a + al" using assms by (simp add: y_def)
  ultimately show "a \<le> align_start a al" "align_start a al < a + al" by linarith+
  show "al dvd align_start a al" by (simp add: align_start_def)
qed

lemma align_start_id:
  assumes "al dvd a" and "0 < al"
  shows "align_start a al = a"
proof -
  obtain c where c: "a = al * c" using assms(1) by blast
  have "(al * c + (al - 1)) div al = c" using assms(2) by (subst div_mult_self4) simp_all
  then show ?thesis using c assms(2) by (simp add: align_start_def mult.commute)
qed

lemma align_up_eq:
  assumes "a + 2 ^ k < usize_limit"
  shows "align_up a (2 ^ k) = Some (align_start a (2 ^ k))"
proof -
  have "(2::nat) ^ k < 2 ^ 64" using assms by linarith
  then have k: "k < 64" by (rule power_less_imp_less_exp [rotated]) simp
  have "(a + 2 ^ k - 1) AND (2 ^ 64 - 1 - (2 ^ k - 1)) = (a + 2 ^ k - 1) - (a + 2 ^ k - 1) mod 2 ^ k"
    using assms k by (intro and_high_mask) auto
  then show ?thesis using assms
    by (simp add: align_up_def usize_add_def align_start_def minus_mod_eq_div_mult)
qed

lemma pow2_max_8:
  "max ((2::nat) ^ j) 8 = 2 ^ max j 3"
  using power_increasing_iff [of "2::nat" j 3] power_increasing_iff [of "2::nat" 3 j]
  by (auto simp: max_def)

lemma pow2_dvd_8: "3 \<le> k \<Longrightarrow> (8::nat) dvd 2 ^ k"
  using le_imp_power_dvd [of 3 k "2::nat"] by simp

lemma size_align_ok:
  assumes "layout_ok l" and "lay_size l + 7 < 2 ^ 63"
  obtains sz k where "size_align l = Some (sz, 2 ^ k)" "3 \<le> k" "k < 63" "16 \<le> sz" "8 dvd sz"
    "lay_size l \<le> sz" "lay_align l dvd 2 ^ k"
proof -
  from assms obtain j where j: "j < 63" "lay_align l = 2 ^ j" "lay_size l + (2 ^ j - 1) < 2 ^ 63"
    by (auto simp: layout_ok_def)
  define k where "k = max j 3"
  define p where "p = div_ceil (lay_size l) (2 ^ k) * 2 ^ k"
  have k: "3 \<le> k" "k < 63" "lay_align l dvd 2 ^ k" using j by (auto simp: k_def le_imp_power_dvd)
  have "lay_size l + (2 ^ k - 1) < 2 ^ 63"
    using j(3) assms(2) by (cases "j \<le> 3") (auto simp: k_def max_def)
  then have "align_to l 8 = Some \<lparr>lay_size = lay_size l, lay_align = 2 ^ k\<rparr>"
    using j by (simp add: align_to_def pow2_max_8 k_def)
  then have "size_align l = Some (max p 16, 2 ^ k)"
    by (simp add: size_align_def pad_to_align_def p_def)
  moreover have "8 dvd p" using pow2_dvd_8 [OF k(1)] by (simp add: p_def)
  moreover have "lay_size l \<le> p" using div_ceil_mult_ge [of "2 ^ k" "lay_size l"] by (simp add: p_def)
  ultimately show thesis using that k by (auto simp: max_def)
qed

lemma allocate_from_eq:
  assumes "block_ok lo hi b" and "hi < 2 ^ 63" and "k < 63" and "node_size n = snd b"
  shows "allocate_from (fst b) n sz (2 ^ k) =
     Some (if fits sz (2 ^ k) b then Inr (align_start (fst b) (2 ^ k)) else Inl ())"
proof -
  have "(2::nat) ^ k < 2 ^ 63" using assms(3) by (rule power_strict_increasing) simp
  then have "fst b + 2 ^ k < usize_limit" using assms(1,2) by (auto simp: block_ok_def)
  moreover have "usize_add (fst b) (snd b) = Some (fst b + snd b)"
    using assms(1,2) by (auto simp: block_ok_def usize_add_def)
  ultimately show ?thesis
    using assms by (auto simp: allocate_from_def align_up_eq usize_add_def fits_def Let_def block_ok_def)
qed

lemma find_region_step:
  assumes "node_at al cur = Some cn" and "seg (nodes al) (node_next cn) (c # cs) None"
    and "block_ok lo hi c" and "hi < 2 ^ 63" and "k < 63"
  obtains r where "nodes al (fst c) = Some \<lparr>node_size = snd c, node_next = r\<rparr>" "seg (nodes al) r cs None"
    "find_region al sz (2 ^ k) cur =
       (if fits sz (2 ^ k) c
        then Some (set_node (set_node al (Some (fst c)) \<lparr>node_size = snd c, node_next = None\<rparr>)
                     cur (cn\<lparr>node_next := r\<rparr>),
                   Some (fst c, \<lparr>node_size = snd c, node_next = None\<rparr>, align_start (fst c) (2 ^ k)))
        else find_region al sz (2 ^ k) (Some (fst c)))"
proof -
  from assms obtain r where r: "node_next cn = Some (fst c)"
    "nodes al (fst c) = Some \<lparr>node_size = snd c, node_next = r\<rparr>" "seg (nodes al) r cs None"
    by auto
  have "allocate_from (fst c) \<lparr>node_size = snd c, node_next = r\<rparr> sz (2 ^ k) =
      Some (if fits sz (2 ^ k) c then Inr (align_start (fst c) (2 ^ k)) else Inl ())"
    using assms by (intro allocate_from_eq [of lo hi]) auto
  then show thesis
    using that r assms(1) by (auto simp: find_region.simps [of al sz "2 ^ k" cur])
qed

lemma find_region_none:
  assumes "node_at al cur = Some cn" and "seg (nodes al) (node_next cn) bs None"
    and "\<forall>b\<in>set bs. block_ok lo hi b" and "hi < 2 ^ 63" and "k < 63"
    and "\<forall>b\<in>set bs. \<not> fits sz (2 ^ k) b"
  shows "find_region al sz (2 ^ k) cur = Some (al, None)"
  using assms
proof (induction bs arbitrary: cur cn)
  case Nil
  then show ?case by (simp add: find_region.simps [of al sz "2 ^ k" cur])
next
  case (Cons c cs)
  obtain r where r: "nodes al (fst c) = Some \<lparr>node_size = snd c, node_next = r\<rparr>" "seg (nodes al) r cs None"
    "find_region al sz (2 ^ k) cur = find_region al sz (2 ^ k) (Some (fst c))"
    using find_region_step [OF Cons.prems(1,2) _ Cons.prems(4,5), of lo sz] Cons.prems(3,6) by (metis list.set_intros(1))
  have "find_region al sz (2 ^ k) (Some (fst c)) = Some (al, None)"
    using r Cons.prems by (intro Cons.IH [of _ "\<lparr>node_size = snd c, node_next = r\<rparr>"]) simp_all
  then show ?case using r by simp
qed

lemma find_region_some:
  assumes "node_at al cur = Some cn" and "seg (nodes al) (node_next cn) (pre @ b # post) None"
    and "distinct (map fst (pre @ b # post))" and "\<forall>u\<in>fst ` set (pre @ b # post). cur \<noteq> Some u"
    and "\<forall>b\<in>set (pre @ b # post). block_ok lo hi b" and "hi < 2 ^ 63" and "k < 63"
    and "\<forall>b\<in>set pre. \<not> fits sz (2 ^ k) b" and "fits sz (2 ^ k) b"
  shows "\<exists>al'. find_region al sz (2 ^ k) cur =
           Some (al', Some (fst b, \<lparr>node_size = snd b, node_next = None\<rparr>, align_start (fst b) (2 ^ k)))
         \<and> unlinked al cur (pre @ b # post) (pre @ post) al'"
  using assms
proof (induction pre arbitrary: cur cn)
  case Nil
  obtain r where r: "seg (nodes al) r post None" "find_region al sz (2 ^ k) cur =
      Some (set_node (set_node al (Some (fst b)) \<lparr>node_size = snd b, node_next = None\<rparr>)
              cur (cn\<lparr>node_next := r\<rparr>),
            Some (fst b, \<lparr>node_size = snd b, node_next = None\<rparr>, align_start (fst b) (2 ^ k)))"
    using find_region_step [OF Nil.prems(1) _ _ Nil.prems(6,7), of b post lo sz] Nil.prems(2,5,9)
    by (metis append_Nil list.set_intros(1))
  have "seg ((nodes al)(fst b \<mapsto> n)) r post None" for n
    using r(1) Nil.prems(3) by (simp add: seg_upd)
  moreover have "seg ((nodes al)(fst b \<mapsto> n, p \<mapsto> n')) r post None" if "cur = Some p" for n n' p
  proof -
    have "p \<notin> fst ` set post" using Nil.prems(4) that by auto
    then show ?thesis using r(1) Nil.prems(3) by (simp add: seg_upd)
  qed
  ultimately show ?case using r(2) Nil.prems(1,4)
    by (cases cur) (auto simp: unlinked_def)
next
  case (Cons c cs)
  obtain r where r: "nodes al (fst c) = Some \<lparr>node_size = snd c, node_next = r\<rparr>"
    "seg (nodes al) r (cs @ b # post) None"
    "find_region al sz (2 ^ k) cur = find_region al sz (2 ^ k) (Some (fst c))"
    using find_region_step [OF Cons.prems(1) _ _ Cons.prems(6,7), of c "cs @ b # post" lo sz] Cons.prems(2,5,8)
    by (metis append_Cons list.set_intros(1))
  have "\<exists>al'. find_region al sz (2 ^ k) (Some (fst c)) =
           Some (al', Some (fst b, \<lparr>node_size = snd b, node_next = None\<rparr>, align_start (fst b) (2 ^ k)))
         \<and> unlinked al (Some (fst c)) (cs @ b # post) (cs @ post) al'"
    using r Cons.prems by (intro Cons.IH [of _ "\<lparr>node_size = snd c, node_next = r\<rparr>"]) auto
  then obtain al' where al': "find_region al sz (2 ^ k) (Some (fst c)) =
      Some (al', Some (fst b, \<lparr>node_size = snd b, node_next = None\<rparr>, align_start (fst b) (2 ^ k)))"
    and u: "unlinked al (Some (fst c)) (cs @ b # post) (cs @ post) al'" by blast
  from u r(1) obtain cn' where "nodes al' (fst c) = Some cn'" "node_size cn' = snd c"
    "seg (nodes al') (node_next cn') (cs @ post) None"
    by (auto simp: unlinked_def)
  then obtain q where cn': "nodes al' (fst c) = Some \<lparr>node_size = snd c, node_next = q\<rparr>"
    "seg (nodes al') q (cs @ post) None"
    by (cases cn') auto
  have fr: "\<forall>u. u \<notin> fst ` set (cs @ b # post) \<and> u \<noteq> fst c \<longrightarrow> nodes al' u = nodes al u"
    and hs: "head al' = head al" "heap_size al' = heap_size al" "allocated_bytes al' = allocated_bytes al"
    using u by (auto simp: unlinked_def)
  have "node_at al' cur = Some cn" using Cons.prems(1,4) fr hs by (cases cur) auto
  moreover have "node_next cn = Some (fst c)" using Cons.prems(2) by simp
  ultimately have "unlinked al cur (c # cs @ b # post) (c # cs @ post) al'"
    unfolding unlinked_def using Cons.prems(1) cn' fr hs by auto
  then show ?case using al' r(3) by auto
qed

subsection \<open>The heap invariant is kept\<close>

lemma seg_unique: "seg m p bs None \<Longrightarrow> seg m p cs None \<Longrightarrow> bs = cs"
proof (induction bs arbitrary: p cs)
  case Nil
  then show ?case by (cases cs) auto
next
  case (Cons b bs)
  then show ?case by (cases cs) (auto simp: prod_eq_iff)
qed

lemma holes_unique: "holes al bs \<Longrightarrow> holes al cs \<Longrightarrow> bs = cs"
  unfolding holes_def by (rule seg_unique)

lemma heap_invI:
  assumes "0 < lo" "lo \<le> hi" "hi < 2 ^ 63" "holes al bs" "holes_ok lo hi bs"
    and "\<And>x. coverage bs x + coverage live x + coverage lost x = (if lo \<le> x \<and> x < hi then 1 else 0)"
    and "\<forall>b\<in>set live. block_ok lo hi b"
    and "heap_size al = hi - lo" "allocated_bytes al = (\<Sum>b\<leftarrow>live. snd b)"
  shows "heap_inv lo hi al live lost"
  unfolding heap_inv_def using assms by blast

lemma covers_sum: "(\<Sum>x<n. covers b x) = min n (fst b + snd b) - min n (fst b)"
proof (induction n)
  case (Suc n)
  then show ?case by (auto simp: covers_def min_def)
qed simp

lemma coverage_sum: "\<forall>b\<in>set bs. fst b + snd b \<le> n \<Longrightarrow> (\<Sum>x<n. coverage bs x) = (\<Sum>b\<leftarrow>bs. snd b)"
  by (induction bs) (auto simp: sum.distrib covers_sum)

lemma tiling_size:
  assumes "\<forall>x. coverage bs x = (if lo \<le> x \<and> x < hi then 1 else 0)" and "lo \<le> hi"
  shows "(\<Sum>b\<leftarrow>bs. snd b) = hi - lo"
proof -
  define N where "N = hi + (\<Sum>b\<leftarrow>bs. fst b + snd b)"
  have "fst b + snd b \<le> N" if "b \<in> set bs" for b
    using member_le_sum_list [of "fst b + snd b" "map (\<lambda>b. fst b + snd b) bs"] that by (auto simp: N_def)
  then have "(\<Sum>b\<leftarrow>bs. snd b) = (\<Sum>x<N. coverage bs x)" using coverage_sum [of bs N] by simp
  also have "\<dots> = (\<Sum>x<N. covers (lo, hi - lo) x)" using assms(1,2) by (simp add: covers_def)
  also have "\<dots> = hi - lo" using assms(2) by (simp add: covers_sum N_def)
  finally show ?thesis .
qed

lemma disjoint_from_tile:
  assumes tile: "\<And>x. covers b x + coverage bs x \<le> (if lo \<le> x \<and> x < hi then 1 else 0)"
    and "holes_ok lo hi bs" and "0 < snd b"
  shows "disjoint_from b bs"
proof (rule disjoint_from_coverage)
  show "\<forall>x. covers b x + coverage bs x \<le> 1"
    using tile by (metis (full_types) le_zero_eq zero_le_one)
qed (use assms in \<open>auto simp: holes_ok_def block_ok_def\<close>)

lemma deallocate_inv:
  assumes inv: "heap_inv lo hi al (pre @ (p, sz) # post) lost" and l: "size_align l = Some (sz, ali)"
  shows "\<exists>al'. deallocate_layout al p l = Some al' \<and> heap_inv lo hi al' (pre @ post) lost"
proof -
  let ?live = "pre @ (p, sz) # post"
  from inv obtain bs where bs: "holes al bs" "holes_ok lo hi bs"
    and tile: "\<And>x. coverage bs x + coverage ?live x + coverage lost x = (if lo \<le> x \<and> x < hi then 1 else 0)"
    and lv: "\<forall>b\<in>set ?live. block_ok lo hi b" and h: "0 < lo" "lo \<le> hi" "hi < 2 ^ 63"
    and hs: "heap_size al = hi - lo" and ab: "allocated_bytes al = (\<Sum>b\<leftarrow>?live. snd b)"
    by (auto simp: heap_inv_def)
  let ?al = "al\<lparr>allocated_bytes := saturating_sub (allocated_bytes al) sz\<rparr>"
  have pb: "block_ok lo hi (p, sz)" using lv by simp
  have "covers (p, sz) x + coverage bs x \<le> (if lo \<le> x \<and> x < hi then 1 else 0)" for x
    using tile [of x] by simp
  then have dj: "disjoint_from (p, sz) bs"
    by (rule disjoint_from_tile [OF _ bs(2)]) (use pb in \<open>auto simp: block_ok_def\<close>)
  have "holes ?al bs" using bs by (simp add: holes_def)
  then obtain al' where al': "add_free_region ?al p sz = Some al'" "holes al' (add_hole p sz bs)"
    "heap_size al' = heap_size al" "allocated_bytes al' = saturating_sub (allocated_bytes al) sz"
    using add_free_region_refines [OF _ bs(2) _ _ _ _ dj, of ?al] pb h by (auto simp: block_ok_def)
  have "allocated_bytes al' = (\<Sum>b\<leftarrow>pre @ post. snd b)"
    using al'(4) ab by (simp add: saturating_sub_def)
  moreover have "coverage (add_hole p sz bs) x + coverage (pre @ post) x + coverage lost x
      = (if lo \<le> x \<and> x < hi then 1 else 0)" for x
    using tile [of x] by (simp add: add_hole_coverage)
  ultimately have "heap_inv lo hi al' (pre @ post) lost"
    using al' h hs lv add_hole_ok [OF bs(2) pb dj] by (intro heap_invI [of _ _ _ "add_hole p sz bs"]) auto
  then show ?thesis using al' l by (simp add: deallocate_layout_def)
qed

lemma coverage_le_size:
  assumes "\<forall>x. coverage bs x \<le> (if lo \<le> x \<and> x < hi then 1 else 0)" and "lo \<le> hi"
    and "\<forall>b\<in>set bs. fst b + snd b \<le> hi"
  shows "(\<Sum>b\<leftarrow>bs. snd b) \<le> hi - lo"
proof -
  have "(\<Sum>b\<leftarrow>bs. snd b) = (\<Sum>x<hi. coverage bs x)" using coverage_sum [OF assms(3)] by simp
  also have "\<dots> \<le> (\<Sum>x<hi. covers (lo, hi - lo) x)"
  proof (rule sum_mono)
    fix x show "coverage bs x \<le> covers (lo, hi - lo) x"
      using assms(1) [rule_format, of x] assms(2) by (auto simp: covers_def split: if_splits)
  qed
  also have "\<dots> = hi - lo" using assms(2) by (simp add: covers_sum)
  finally show ?thesis .
qed

lemma give_back_excess:
  assumes "holes al bs" "holes_ok lo hi bs" "hi < 2 ^ 63"
    and tile: "\<And>x. covers (e, ex) x + coverage bs x \<le> (if lo \<le> x \<and> x < hi then 1 else 0)"
    and b: "ex = 0 \<or> block_ok lo hi (e, ex)"
  obtains al' bs' where "(if 0 < ex then add_free_region al e ex else Some al) = Some al'"
    "holes al' bs'" "holes_ok lo hi bs'" "\<And>x. coverage bs' x = covers (e, ex) x + coverage bs x"
    "heap_size al' = heap_size al" "allocated_bytes al' = allocated_bytes al"
proof (cases "ex = 0")
  case True
  then show ?thesis using that [of al bs] assms by (simp add: covers_def)
next
  case False
  have dj: "disjoint_from (e, ex) bs" using disjoint_from_tile [OF tile assms(2)] False by simp
  have bk: "block_ok lo hi (e, ex)" using b False by simp
  obtain al' where "add_free_region al e ex = Some al'" "holes al' (add_hole e ex bs)"
    "heap_size al' = heap_size al" "allocated_bytes al' = allocated_bytes al"
    using add_free_region_refines [OF assms(1,2) _ _ _ _ dj] bk assms(3) by (auto simp: block_ok_def)
  then show ?thesis using that add_hole_ok [OF assms(2) bk dj] False by (simp add: add_hole_coverage)
qed

lemma allocate_none:
  assumes "holes al bs" "holes_ok lo hi bs" "hi < 2 ^ 63" and "size_align l = Some (sz, 2 ^ k)" "k < 63"
    and "\<forall>b\<in>set bs. \<not> fits sz (2 ^ k) b"
  shows "allocate_layout al l = Some (al, 0)"
proof -
  have "find_region al sz (2 ^ k) None = Some (al, None)"
    using assms by (intro find_region_none [of _ _ "head al" bs lo hi]) (auto simp: holes_def holes_ok_def)
  then show ?thesis using assms(4) by (simp add: allocate_layout_def)
qed

lemma allocate_some:
  assumes inv: "heap_inv lo hi al live lost" and h: "holes al (pre @ (x, t) # post)"
    and l: "size_align l = Some (sz, 2 ^ k)" and k: "3 \<le> k" "k < 63" and sz: "16 \<le> sz" "8 dvd sz"
    and nf: "\<forall>b\<in>set pre. \<not> fits sz (2 ^ k) b" and f: "fits sz (2 ^ k) (x, t)"
  shows "\<exists>al'. allocate_layout al l = Some (al', align_start x (2 ^ k)) \<and>
     heap_inv lo hi al' ((align_start x (2 ^ k), sz) # live) ((x, align_start x (2 ^ k) - x) # lost)"
proof -
  let ?bs = "pre @ (x, t) # post"
  define p where "p = align_start x (2 ^ k)"
  obtain bs where lo: "0 < lo" "lo \<le> hi" "hi < 2 ^ 63" and bs: "holes al bs" "holes_ok lo hi bs"
    and tile: "\<And>x. coverage bs x + coverage live x + coverage lost x = (if lo \<le> x \<and> x < hi then 1 else 0)"
    and lv: "\<forall>b\<in>set live. block_ok lo hi b"
    and hs: "heap_size al = hi - lo" and ab: "allocated_bytes al = (\<Sum>b\<leftarrow>live. snd b)"
    using inv by (auto simp: heap_inv_def)
  have bs_eq: "bs = ?bs" using bs(1) h holes_unique by blast
  note ok = bs(2) [unfolded bs_eq]
  have okr: "holes_ok lo hi (pre @ post)" using ok by (auto simp: holes_ok_def sorted_wrt_append)
  have bk: "block_ok lo hi (x, t)" using ok by (simp add: holes_ok_def)
  have p: "x \<le> p" "2 ^ k dvd p" "p + sz = x + t \<or> p + sz + 16 \<le> x + t"
    using align_start_bounds [of "2 ^ k" x] f by (auto simp: p_def fits_def Let_def)
  have p8: "8 dvd p" using pow2_dvd_8 [OF k(1)] p(2) by (rule dvd_trans)
  define e where "e = p + sz"
  define ex where "ex = x + t - e"
  have ex: "ex = 0 \<or> block_ok lo hi (e, ex)"
    using p p8 sz bk by (auto simp: block_ok_def e_def ex_def)
  have "\<exists>al1. find_region al sz (2 ^ k) None =
      Some (al1, Some (x, \<lparr>node_size = t, node_next = None\<rparr>, p)) \<and> unlinked al None ?bs (pre @ post) al1"
    unfolding p_def using find_region_some [of al None "head al" pre "(x, t)" post lo hi k sz] h ok lo k nf f
    by (simp add: holes_def holes_ok_def gap_sorted_distinct del: map_append)
  then obtain al1 where fr: "find_region al sz (2 ^ k) None =
      Some (al1, Some (x, \<lparr>node_size = t, node_next = None\<rparr>, p))"
    and al1: "holes al1 (pre @ post)" "heap_size al1 = heap_size al" "allocated_bytes al1 = allocated_bytes al"
    by (auto simp: unlinked_def holes_def)
  have split: "covers (x, t) y = covers (x, p - x) y + covers (p, sz) y + covers (e, ex) y" for y
    using p sz by (auto simp: covers_def e_def ex_def)
  have tile': "covers (e, ex) y + coverage (pre @ post) y \<le> (if lo \<le> y \<and> y < hi then 1 else 0)" for y
    using tile [of y] split [of y] bs_eq by simp
  obtain al2 bs2 where al2: "(if 0 < ex then add_free_region al1 e ex else Some al1) = Some al2"
    "holes al2 bs2" "holes_ok lo hi bs2" "\<And>y. coverage bs2 y = covers (e, ex) y + coverage (pre @ post) y"
    "heap_size al2 = heap_size al" "allocated_bytes al2 = allocated_bytes al"
    using give_back_excess [OF al1(1) okr lo(3) tile' ex] unfolding al1(2,3) by blast
  have pk: "block_ok lo hi (p, sz)" using bk p p8 sz by (auto simp: block_ok_def)
  have cov: "coverage bs2 y + coverage ((p, sz) # live) y + coverage ((x, p - x) # lost) y
      = (if lo \<le> y \<and> y < hi then 1 else 0)" for y
    using tile [of y] split [of y] bs_eq al2(4) by simp
  have "(\<Sum>b\<leftarrow>(p, sz) # live. snd b) \<le> hi - lo"
  proof (rule coverage_le_size)
    show "\<forall>y. coverage ((p, sz) # live) y \<le> (if lo \<le> y \<and> y < hi then 1 else 0)"
    proof
      fix y show "coverage ((p, sz) # live) y \<le> (if lo \<le> y \<and> y < hi then 1 else 0)"
        using cov [of y] by linarith
    qed
  qed (use lo lv pk in \<open>auto simp: block_ok_def\<close>)
  then have "saturating_add (allocated_bytes al2) sz = (\<Sum>b\<leftarrow>(p, sz) # live. snd b)"
    using al2(6) ab lo by (simp add: saturating_add_def)
  then have "heap_inv lo hi (al2\<lparr>allocated_bytes := saturating_add (allocated_bytes al2) sz\<rparr>)
      ((p, sz) # live) ((x, p - x) # lost)"
    using lo al2 cov lv pk hs by (intro heap_invI [of _ _ _ bs2]) (auto simp: holes_def)
  moreover have "usize_add p sz = Some e" "usize_add x t = Some (x + t)"
    using pk bk lo by (auto simp: usize_add_def block_ok_def e_def)
  ultimately show ?thesis using fr l al2(1) ex_def by (simp add: allocate_layout_def p_def split: if_splits)
qed

subsection \<open>The contract of a global allocator\<close>

text \<open>The interface \<^verbatim>\<open>GlobalAlloc\<close> as its clients rely on it: an allocation returns null or an aligned
  block, a release of a held block succeeds, and \<open>heap_ok\<close> is kept with the blocks in use.\<close>

locale global_alloc =
  fixes alloc :: "'s \<Rightarrow> layout \<Rightarrow> ('s \<times> usize) option"
    and dealloc :: "'s \<Rightarrow> usize \<Rightarrow> layout \<Rightarrow> 's option"
    and block_size :: "layout \<Rightarrow> usize"
    and layout_valid :: "layout \<Rightarrow> bool"
    and heap_ok :: "'s \<Rightarrow> block list \<Rightarrow> bool"
  assumes alloc_ok: "heap_ok s live \<Longrightarrow> layout_valid l \<Longrightarrow>
      \<exists>s' p. alloc s l = Some (s', p) \<and>
        (p = 0 \<and> heap_ok s' live \<or>
         p \<noteq> 0 \<and> lay_align l dvd p \<and> heap_ok s' ((p, block_size l) # live))"
    and dealloc_ok: "heap_ok s (pre @ (p, block_size l) # post) \<Longrightarrow> layout_valid l \<Longrightarrow>
      \<exists>s'. dealloc s p l = Some s' \<and> heap_ok s' (pre @ post)"
begin

lemma serve_ok:
  assumes "heap_ok s (blocks_of block_size held)" and "\<forall>h\<in>set held. held_ok layout_valid h"
    and "request_ok layout_valid r"
  shows "\<exists>s' held'. serve alloc dealloc (s, held) r = Some (s', held') \<and>
    heap_ok s' (blocks_of block_size held') \<and> (\<forall>h\<in>set held'. held_ok layout_valid h)"
proof (cases r)
  case (Allocate l)
  with alloc_ok [OF assms(1), of l] assms show ?thesis
    by (auto simp: blocks_of_def held_ok_def)
next
  case (Release i)
  show ?thesis
  proof (cases "i < length held")
    case True
    obtain p l where pl: "held ! i = (p, l)" by fastforce
    have split: "held = take i held @ (p, l) # drop (Suc i) held"
      using True pl by (metis id_take_nth_drop)
    have "layout_valid l" using assms(2) True pl nth_mem by (fastforce simp: held_ok_def)
    moreover have "heap_ok s (blocks_of block_size (take i held) @ (p, block_size l) #
        blocks_of block_size (drop (Suc i) held))"
      using assms(1) by (subst (asm) split) (simp add: blocks_of_def)
    ultimately obtain s' where "dealloc s p l = Some s'"
      "heap_ok s' (blocks_of block_size (take i held) @ blocks_of block_size (drop (Suc i) held))"
      using dealloc_ok by blast
    then show ?thesis using Release True pl assms(2)
      by (auto simp: blocks_of_def dest: in_set_takeD in_set_dropD)
  qed (use Release assms in auto)
qed

lemma serve_all_ok:
  assumes "heap_ok s (blocks_of block_size held)" and "\<forall>h\<in>set held. held_ok layout_valid h"
    and "\<forall>r\<in>set rs. request_ok layout_valid r"
  shows "\<exists>s' held'. serve_all alloc dealloc (s, held) rs = Some (s', held') \<and>
    heap_ok s' (blocks_of block_size held') \<and> (\<forall>h\<in>set held'. held_ok layout_valid h)"
  using assms
proof (induction rs arbitrary: s held)
  case (Cons r rs)
  obtain s1 held1 where "serve alloc dealloc (s, held) r = Some (s1, held1)"
    "heap_ok s1 (blocks_of block_size held1)" "\<forall>h\<in>set held1. held_ok layout_valid h"
    using serve_ok [of s held r] Cons.prems by auto
  then show ?case using Cons.IH [of s1 held1] Cons.prems by simp
qed auto

end

lemma linked_alloc_cases [consumes 2, case_names none some]:
  assumes inv: "heap_inv lo hi al live lost" and l: "linked_layout l"
  obtains (none) bs sz k where "size_align l = Some (sz, 2 ^ k)" "holes al bs"
      "\<forall>b\<in>set bs. \<not> fits sz (2 ^ k) b" "allocate_layout al l = Some (al, 0)"
  | (some) al' x k p where "allocate_layout al l = Some (al', p)" "p \<noteq> 0" "lay_align l dvd p"
      "size_align l = Some (linked_size l, 2 ^ k)" "p = align_start x (2 ^ k)" "8 dvd x"
      "heap_inv lo hi al' ((p, linked_size l) # live) ((x, p - x) # lost)"
proof -
  obtain sz k where sk: "size_align l = Some (sz, 2 ^ k)" "3 \<le> k" "k < 63" "16 \<le> sz" "8 dvd sz"
    "lay_align l dvd 2 ^ k"
    using size_align_ok l by (metis linked_layout_def)
  obtain bs where bs: "holes al bs" "holes_ok lo hi bs" "hi < 2 ^ 63" "0 < lo"
    using inv by (auto simp: heap_inv_def)
  show thesis
  proof (cases "\<exists>b\<in>set bs. fits sz (2 ^ k) b")
    case False
    then show ?thesis using none sk bs allocate_none [OF bs(1,2,3) sk(1,3)] by blast
  next
    case True
    then obtain pre b post where "bs = pre @ b # post" "fits sz (2 ^ k) b" "\<forall>c\<in>set pre. \<not> fits sz (2 ^ k) c"
      by (metis split_list_first_prop)
    moreover obtain x t where "b = (x, t)" by fastforce
    ultimately have b: "bs = pre @ (x, t) # post" "fits sz (2 ^ k) (x, t)" "\<forall>c\<in>set pre. \<not> fits sz (2 ^ k) c"
      by auto
    define p where "p = align_start x (2 ^ k)"
    obtain al' where al': "allocate_layout al l = Some (al', p)"
      "heap_inv lo hi al' ((p, sz) # live) ((x, p - x) # lost)"
      using allocate_some [OF inv _ sk(1,2,3,4,5) b(3,2)] bs(1) b(1) by (auto simp: p_def)
    have "block_ok lo hi (x, t)" using bs(2) b(1) by (simp add: holes_ok_def)
    then have x: "8 dvd x" "lo \<le> x" by (auto simp: block_ok_def)
    have "x \<le> p" "2 ^ k dvd p" using align_start_bounds [of "2 ^ k" x] by (auto simp: p_def)
    then show ?thesis using some [of al' p k x] al' sk x bs(4)
      by (simp add: linked_size_def p_def dvd_trans [OF sk(6)])
  qed
qed

lemma linked_dealloc:
  assumes "heap_inv lo hi al (pre @ (p, linked_size l) # post) lost" and "linked_layout l"
  shows "\<exists>al'. deallocate_layout al p l = Some al' \<and> heap_inv lo hi al' (pre @ post) lost"
proof -
  obtain sz k where "size_align l = Some (sz, 2 ^ k)"
    using size_align_ok assms(2) by (metis linked_layout_def)
  then show ?thesis using deallocate_inv assms(1) by (simp add: linked_size_def)
qed

interpretation linked: global_alloc allocate_layout deallocate_layout linked_size linked_layout "linked_ok lo hi"
  for lo hi
proof unfold_locales
  fix s live l
  assume "linked_ok lo hi s live" and l: "linked_layout l"
  then obtain lost where inv: "heap_inv lo hi s live lost" by (auto simp: linked_ok_def)
  show "\<exists>s' p. allocate_layout s l = Some (s', p) \<and>
      (p = 0 \<and> linked_ok lo hi s' live \<or>
       p \<noteq> 0 \<and> lay_align l dvd p \<and> linked_ok lo hi s' ((p, linked_size l) # live))"
    using inv l inv by (cases rule: linked_alloc_cases) (auto simp: linked_ok_def)
next
  fix s pre p l post
  assume "linked_ok lo hi s (pre @ (p, linked_size l) # post)" and "linked_layout l"
  then show "\<exists>s'. deallocate_layout s p l = Some s' \<and> linked_ok lo hi s' (pre @ post)"
    using linked_dealloc by (fastforce simp: linked_ok_def)
qed

lemma exact_align: 
  assumes "exact_layout l" "size_align l = Some (sz, 2 ^ k)"
  shows "(2::nat) ^ k = 8"
  using assms by (auto simp: exact_layout_def size_align_def align_to_def pad_to_align_def Let_def max_def split: if_splits)

interpretation exact: global_alloc allocate_layout deallocate_layout linked_size exact_layout "exact_ok lo hi"
  for lo hi
proof unfold_locales
  fix s live l
  assume "exact_ok lo hi s live" and l: "exact_layout l"
  then obtain lost where inv: "heap_inv lo hi s live lost" "\<forall>b\<in>set lost. snd b = 0"
    by (auto simp: exact_ok_def)
  have ll: "linked_layout l" using l by (simp add: exact_layout_def)
  show "\<exists>s' p. allocate_layout s l = Some (s', p) \<and>
      (p = 0 \<and> exact_ok lo hi s' live \<or>
       p \<noteq> 0 \<and> lay_align l dvd p \<and> exact_ok lo hi s' ((p, linked_size l) # live))"
    using inv(1) ll
  proof (cases rule: linked_alloc_cases)
    case none
    then show ?thesis using inv by (auto simp: exact_ok_def)
  next
    case (some al' x k p)
    have "p = x" using some(5,6) exact_align [OF l some(4)] by (simp add: align_start_id)
    then show ?thesis using some inv(2) by (auto simp: exact_ok_def intro!: exI [of _ "(x, 0) # lost"])
  qed
next
  fix s pre p l post
  assume "exact_ok lo hi s (pre @ (p, linked_size l) # post)" and "exact_layout l"
  then show "\<exists>s'. deallocate_layout s p l = Some s' \<and> exact_ok lo hi s' (pre @ post)"
    using linked_dealloc by (fastforce simp: exact_ok_def exact_layout_def)
qed

lemma pairwise_disjoint_drop: "pairwise_disjoint (pre @ b # post) \<Longrightarrow> pairwise_disjoint (pre @ post)"
  by (induction pre) (auto simp: disjoint_from_def)

interpretation bump: global_alloc bump_alloc bump_dealloc lay_size bump_layout "bump_ok lo hi" for lo hi
proof unfold_locales
  fix s live l
  assume ok: "bump_ok lo hi s live" and l: "bump_layout l"
  then obtain k where k: "k < 63" "lay_align l = 2 ^ k" by (auto simp: bump_layout_def layout_ok_def)
  have "(2::nat) ^ k < 2 ^ 63" using k(1) by (rule power_strict_increasing) simp
  then have "align_up (bump_next s) (lay_align l) = Some (align_start (bump_next s) (2 ^ k))"
    using ok k by (simp add: align_up_eq bump_ok_def)
  moreover have "bump_next s \<le> align_start (bump_next s) (2 ^ k)" "2 ^ k dvd align_start (bump_next s) (2 ^ k)"
    using align_start_bounds [of "2 ^ k" "bump_next s"] by auto
  ultimately show "\<exists>s' p. bump_alloc s l = Some (s', p) \<and>
      (p = 0 \<and> bump_ok lo hi s' live \<or> p \<noteq> 0 \<and> lay_align l dvd p \<and> bump_ok lo hi s' ((p, lay_size l) # live))"
    using ok k l
    by (cases "align_start (bump_next s) (2 ^ k) + lay_size l \<le> hi")
      (fastforce simp: bump_alloc_def bump_ok_def bump_layout_def usize_add_def disjoint_from_def)+
next
  fix s pre p l post
  assume "bump_ok lo hi s (pre @ (p, lay_size l) # post)" and "bump_layout l"
  then show "\<exists>s'. bump_dealloc s p l = Some s' \<and> bump_ok lo hi s' (pre @ post)"
    by (auto simp: bump_dealloc_def bump_ok_def Let_def dest: pairwise_disjoint_drop)
qed

subsection \<open>From the invariant to the clients\<close>

lemma heap_init_inv:
  assumes "0 < lo" "lo + n < 2 ^ 63" "8 dvd lo" "8 dvd n" "16 \<le> n"
  shows "\<exists>al. heap_init new_allocator lo n = Some al \<and> heap_inv lo (lo + n) al [] []"
proof -
  let ?al = "new_allocator\<lparr>heap_size := n, allocated_bytes := 0\<rparr>"
  have "holes ?al []" by (simp add: holes_def new_allocator_def new_node_def)
  then obtain al where al: "add_free_region ?al lo n = Some al" "holes al (add_hole lo n [])"
    "heap_size al = n" "allocated_bytes al = 0"
    using add_free_region_refines [of ?al "[]" lo "lo + n" lo n] assms
    by (auto simp: holes_ok_def disjoint_from_def)
  have "add_hole lo n [] = [(lo, n)]" by (simp add: add_hole_def merge_hole_def)
  with al assms have "heap_inv lo (lo + n) al [] []"
    by (intro heap_invI [of _ _ _ "[(lo, n)]"]) (auto simp: holes_ok_def block_ok_def covers_def)
  with al show ?thesis by (auto simp: heap_init_def)
qed

lemma heap_inv_disjoint:
  assumes "heap_inv lo hi al live lost"
  shows "pairwise_disjoint live"
proof -
  obtain bs where tile: "\<And>x. coverage bs x + coverage live x + coverage lost x = (if lo \<le> x \<and> x < hi then 1 else 0)"
    and lv: "\<forall>b\<in>set live. block_ok lo hi b"
    using assms by (auto simp: heap_inv_def)
  have "coverage live x \<le> 1" for x using tile [of x] by (simp split: if_splits)
  then show ?thesis using lv
  proof (induction live)
    case (Cons b bs)
    have "\<forall>x. covers b x + coverage bs x \<le> 1" using Cons.prems(1) by simp
    then have "disjoint_from b bs"
      by (rule disjoint_from_coverage) (use Cons.prems(2) in \<open>auto simp: block_ok_def\<close>)
    moreover have "coverage bs x \<le> 1" for x using Cons.prems(1) [of x] by simp
    ultimately show ?case using Cons by simp
  qed simp
qed

lemma linked_size_ge: "linked_layout l \<Longrightarrow> lay_size l \<le> linked_size l"
  by (auto simp: linked_layout_def linked_size_def elim: size_align_ok)

lemma heap_inv_holes:
  assumes "heap_inv lo hi al live lost" and "holes al bs"
  shows "holes_ok lo hi bs"
    and "coverage bs x + coverage live x + coverage lost x = (if lo \<le> x \<and> x < hi then 1 else 0)"
proof -
  obtain bs' where "holes al bs'" "holes_ok lo hi bs'"
    "\<forall>x. coverage bs' x + coverage live x + coverage lost x = (if lo \<le> x \<and> x < hi then 1 else 0)"
    using assms(1) unfolding heap_inv_def by blast
  moreover have "bs' = bs" using calculation(1) assms(2) by (rule holes_unique)
  ultimately show "holes_ok lo hi bs"
    "coverage bs x + coverage live x + coverage lost x = (if lo \<le> x \<and> x < hi then 1 else 0)" by auto
qed

lemma count_nodes_seg: "seg (nodes al) p bs None \<Longrightarrow> count_nodes al p acc = Some (acc + length bs)"
  by (induction bs arbitrary: p acc) (auto simp: count_nodes.simps)

lemma sum_nodes_seg:
  "seg (nodes al) p bs None \<Longrightarrow> acc + (\<Sum>b\<leftarrow>bs. snd b) < usize_limit \<Longrightarrow>
     sum_nodes al p acc = Some (acc + (\<Sum>b\<leftarrow>bs. snd b))"
  by (induction bs arbitrary: p acc) (auto simp: sum_nodes.simps usize_add_def)

lemma heap_inv_sizes:
  assumes "heap_inv lo hi al live lost" and "holes al bs"
  shows "(\<Sum>b\<leftarrow>bs. snd b) + (\<Sum>b\<leftarrow>live. snd b) + (\<Sum>b\<leftarrow>lost. snd b) = hi - lo"
proof -
  have "\<forall>x. coverage (bs @ live @ lost) x = (if lo \<le> x \<and> x < hi then 1 else 0)" "lo \<le> hi"
    using heap_inv_holes(2) [OF assms] assms(1) by (simp_all add: add.assoc heap_inv_def)
  from tiling_size [OF this] show ?thesis by simp
qed

lemma heap_accounting_holds:
  assumes "heap_inv lo hi al live lost"
  shows "\<exists>f. sum_free_bytes al = Some f \<and> free_bytes al = f + (\<Sum>b\<leftarrow>lost. snd b) \<and>
     used_bytes al = (\<Sum>b\<leftarrow>live. snd b)"
proof -
  obtain bs where bs: "holes al bs" "hi < 2 ^ 63" "heap_size al = hi - lo"
    "allocated_bytes al = (\<Sum>b\<leftarrow>live. snd b)"
    using assms by (auto simp: heap_inv_def)
  note sizes = heap_inv_sizes [OF assms bs(1)]
  have "sum_free_bytes al = Some (\<Sum>b\<leftarrow>bs. snd b)"
    using sum_nodes_seg [of al _ bs 0] bs sizes by (simp add: sum_free_bytes_def holes_def)
  then show ?thesis using bs sizes by (simp add: free_bytes_def used_bytes_def saturating_sub_def)
qed

lemma single_hole:
  assumes "holes_ok lo hi bs" and "\<And>x. coverage bs x = (if lo \<le> x \<and> x < hi then 1 else 0)" and "lo < hi"
  shows "bs = [(lo, hi - lo)]"
proof (cases bs)
  case Nil
  then show ?thesis using assms(2) [of lo] assms(3) by simp
next
  case (Cons b cs)
  have b: "block_ok lo hi b" and ok: "\<forall>c\<in>set cs. fst b + snd b < fst c"
    using assms(1) Cons by (auto simp: holes_ok_def gap_before_def)
  have none: "coverage cs x = 0" if "x \<le> fst b + snd b" for x
    using ok that by (induction cs) (auto simp: covers_def)
  have "covers b lo = 1" using assms(2) [of lo] assms(3) none [of lo] b Cons by (auto simp: block_ok_def)
  then have start: "fst b = lo" using b by (auto simp: covers_def block_ok_def split: if_splits)
  have "coverage bs (fst b + snd b) = 0" using none [of "fst b + snd b"] Cons by (simp add: covers_def)
  then have fin: "fst b + snd b = hi" using assms(2) [of "fst b + snd b"] b by (auto simp: block_ok_def split: if_splits)
  have "cs = []"
  proof (rule ccontr)
    assume "cs \<noteq> []"
    then have "fst b + snd b < fst (hd cs)" "block_ok lo hi (hd cs)"
      using ok assms(1) Cons by (auto simp: holes_ok_def)
    then show False using fin by (auto simp: block_ok_def)
  qed
  then show ?thesis using Cons start fin by (cases b) auto
qed

lemma layout_ok_16_8: "layout_ok \<lparr>lay_size = 16, lay_align = 8\<rparr>"
  by (auto simp: layout_ok_def intro: exI [of _ 3])

fun use_heap :: "allocator \<times> (usize \<times> layout) list \<Rightarrow> heap_use \<Rightarrow> (allocator \<times> (usize \<times> layout) list) option" where
  "use_heap (al, held) (Ask r) = serve allocate_layout deallocate_layout (al, held) r"
| "use_heap (al, held) (Scribble i f) =
     (if i < length held
      then let (p, l) = held ! i
           in Some (al\<lparr>nodes := \<lambda>v. if p < v + 16 \<and> v < p + linked_size l then f v else nodes al v\<rparr>, held)
      else Some (al, held))"

fun use_all :: "allocator \<times> (usize \<times> layout) list \<Rightarrow> heap_use list \<Rightarrow> (allocator \<times> (usize \<times> layout) list) option" where
  "use_all s [] = Some s"
| "use_all s (u # us) = (case use_heap s u of None \<Rightarrow> None | Some s' \<Rightarrow> use_all s' us)"

lemma held_inside:
  assumes "heap_inv lo hi al (blocks_of linked_size held) lost" and "h \<in> set held" and "held_ok linked_layout h"
  shows "lo \<le> fst h \<and> fst h + lay_size (snd h) \<le> hi"
proof -
  have "block_ok lo hi (fst h, linked_size (snd h))" using assms(1,2) by (auto simp: heap_inv_def blocks_of_def case_prod_beta dest!: bspec)
  moreover have "lay_size (snd h) \<le> linked_size (snd h)" using assms(3) by (auto simp: held_ok_def linked_size_ge)
  ultimately show ?thesis by (auto simp: block_ok_def)
qed

subsection \<open>Properties\<close>

lemmas heap_run =
  heap_init_def add_free_region_def find_prev.simps node_at_def new_allocator_def new_node_def
  set_node_def merge_right_def link_region_def allocate_layout_def size_align_def align_to_def pad_to_align_def
  div_ceil_def find_region.simps allocate_from_def align_up_def usize_add_def deallocate_layout_def
  saturating_add_def saturating_sub_def used_bytes_def free_bytes_def sum_free_bytes_def sum_nodes.simps

lemma sample_heap_holes: "holes sample_heap [(80, 240)]"
  by (simp add: holes_def sample_heap_def)

lemma sample_heap_inv: "heap_inv 64 320 sample_heap [(64, 16)] []"
  by (rule heap_invI [OF _ _ _ sample_heap_holes])
    (auto simp: sample_heap_def holes_ok_def block_ok_def covers_def)

text \<open>C1: from a fresh heap, any sequence of allocations and releases of valid layouts runs to its end
  (no overflow, no dangling pointer, no endless walk), and the blocks the client then holds are pairwise
  disjoint, inside the heap, aligned and at least as large as they were asked for.\<close>

theorem linked_requests_safe:
  assumes "0 < lo" and "lo + n < 2 ^ 63" and "8 dvd lo" and "8 dvd n" and "16 \<le> n"
    and "\<forall>r\<in>set rs. request_ok linked_layout r"
  shows "\<exists>al0 al held. heap_init new_allocator lo n = Some al0 \<and>
    serve_all allocate_layout deallocate_layout (al0, []) rs = Some (al, held) \<and>
    pairwise_disjoint (blocks_of linked_size held) \<and>
    (\<forall>h\<in>set held. lo \<le> fst h \<and> fst h + lay_size (snd h) \<le> lo + n \<and> lay_align (snd h) dvd fst h)"
proof -
  obtain al0 where al0: "heap_init new_allocator lo n = Some al0" "heap_inv lo (lo + n) al0 [] []"
    using heap_init_inv assms by blast
  then have "linked_ok lo (lo + n) al0 (blocks_of linked_size [])"
    by (auto simp: linked_ok_def blocks_of_def)
  from linked.serve_all_ok [OF this _ assms(6)] obtain al held where
    sv: "serve_all allocate_layout deallocate_layout (al0, []) rs = Some (al, held)"
    and ok: "linked_ok lo (lo + n) al (blocks_of linked_size held)" and hd: "\<forall>h\<in>set held. held_ok linked_layout h"
    by auto
  from ok obtain lost where inv: "heap_inv lo (lo + n) al (blocks_of linked_size held) lost"
    by (auto simp: linked_ok_def)
  have "lo \<le> fst h \<and> fst h + lay_size (snd h) \<le> lo + n" if "h \<in> set held" for h
  proof -
    have "block_ok lo (lo + n) (fst h, linked_size (snd h))"
      using inv that by (auto simp: heap_inv_def blocks_of_def case_prod_beta dest!: bspec)
    moreover have "lay_size (snd h) \<le> linked_size (snd h)"
      using hd that by (auto simp: held_ok_def linked_size_ge)
    ultimately show ?thesis by (auto simp: block_ok_def)
  qed
  then show ?thesis using al0(1) sv hd heap_inv_disjoint [OF inv] by (auto simp: held_ok_def)
qed

lemma linked_requests_safe_witness:
  "\<exists>al0 al held. heap_init new_allocator 64 256 = Some al0 \<and>
    serve_all allocate_layout deallocate_layout (al0, [])
      [Allocate \<lparr>lay_size = 16, lay_align = 8\<rparr>, Release 0] = Some (al, held) \<and>
    pairwise_disjoint (blocks_of linked_size held) \<and>
    (\<forall>h\<in>set held. 64 \<le> fst h \<and> fst h + lay_size (snd h) \<le> 64 + 256 \<and> lay_align (snd h) dvd fst h)"
  by (rule linked_requests_safe) (simp_all add: linked_layout_def layout_ok_16_8)

text \<open>Changing the memory words that lie in a live block leaves the free list and the invariant untouched, although the nodes of the list
  live in that same memory.\<close>

lemma client_writes_keep_heap:
  assumes "heap_inv lo hi al live lost" and "b \<in> set live"
    and "\<forall>u. u + 16 \<le> fst b \<or> fst b + snd b \<le> u \<longrightarrow> m u = nodes al u"
  shows "heap_inv lo hi (al\<lparr>nodes := m\<rparr>) live lost"
proof -
  obtain bs where lo: "0 < lo" "lo \<le> hi" "hi < 2 ^ 63" and bs: "holes al bs" "holes_ok lo hi bs"
    and tile: "\<And>x. coverage bs x + coverage live x + coverage lost x = (if lo \<le> x \<and> x < hi then 1 else 0)"
    and lv: "\<forall>b\<in>set live. block_ok lo hi b"
    and hs: "heap_size al = hi - lo" and ab: "allocated_bytes al = (\<Sum>b\<leftarrow>live. snd b)"
    using assms(1) by (auto simp: heap_inv_def)
  have "covers b x \<le> coverage live x" for x
    using assms(2) by (auto simp: coverage_def intro: member_le_sum_list)
  then have "covers b x + coverage bs x \<le> coverage bs x + coverage live x + coverage lost x" for x
    by (metis add.commute add_le_mono1 le_add1 order_trans)
  then have dj: "disjoint_from b bs"
    using disjoint_from_tile [OF _ bs(2), of b] lv assms(2) unfolding tile by (auto simp: block_ok_def)
  have same: "nodes al u = m u" if u: "u \<in> fst ` set bs" for u
  proof -
    obtain c where c: "c \<in> set bs" "u = fst c" using u by blast
    then have "16 \<le> snd c" using bs(2) by (auto simp: holes_ok_def block_ok_def)
    moreover have "fst b + snd b \<le> fst c \<or> fst c + snd c \<le> fst b" using dj c by (auto simp: disjoint_from_def)
    ultimately have "u + 16 \<le> fst b \<or> fst b + snd b \<le> u" using c(2) by linarith
    then show ?thesis using assms(3) by auto
  qed
  have "holes (al\<lparr>nodes := m\<rparr>) bs"
    using bs(1) seg_cong [of bs "nodes al" m, OF same] by (simp add: holes_def)
  then show ?thesis using heap_invI [OF lo _ bs(2) tile lv, of "al\<lparr>nodes := m\<rparr>"] hs ab by simp
qed

lemma use_heap_ok:
  assumes "linked_ok lo hi al (blocks_of linked_size held)" and "\<forall>h\<in>set held. held_ok linked_layout h"
    and "\<forall>r. u = Ask r \<longrightarrow> request_ok linked_layout r"
  shows "\<exists>al' held'. use_heap (al, held) u = Some (al', held') \<and> linked_ok lo hi al' (blocks_of linked_size held') \<and>
    (\<forall>h\<in>set held'. held_ok linked_layout h)"
proof (cases u)
  case (Ask r)
  then show ?thesis using linked.serve_ok [OF assms(1,2), of r] assms(3) by simp
next
  case (Scribble i f)
  show ?thesis
  proof (cases "i < length held")
    case True
    obtain q l where ql: "held ! i = (q, l)" by fastforce
    have mem: "(q, linked_size l) \<in> set (blocks_of linked_size held)" using True ql by (force simp: blocks_of_def in_set_conv_nth)
    obtain lost where "heap_inv lo hi al (blocks_of linked_size held) lost" using assms(1) by (auto simp: linked_ok_def)
    then have "heap_inv lo hi (al\<lparr>nodes := \<lambda>v. if q < v + 16 \<and> v < q + linked_size l then f v else nodes al v\<rparr>) (blocks_of linked_size held) lost"
      by (rule client_writes_keep_heap [OF _ mem]) simp
    then show ?thesis using Scribble True ql assms(2) by (auto simp: linked_ok_def)
  qed (use Scribble assms in simp)
qed

lemma use_all_ok:
  assumes "linked_ok lo hi al (blocks_of linked_size held)" and "\<forall>h\<in>set held. held_ok linked_layout h"
    and "\<forall>r. Ask r \<in> set us \<longrightarrow> request_ok linked_layout r"
  shows "\<exists>al' held'. use_all (al, held) us = Some (al', held') \<and> linked_ok lo hi al' (blocks_of linked_size held') \<and>
    (\<forall>h\<in>set held'. held_ok linked_layout h)"
  using assms
proof (induction us arbitrary: al held)
  case (Cons u us)
  obtain al1 held1 where "use_heap (al, held) u = Some (al1, held1)" "linked_ok lo hi al1 (blocks_of linked_size held1)"
      "\<forall>h\<in>set held1. held_ok linked_layout h"
    using use_heap_ok [OF Cons.prems(1,2), of u] Cons.prems(3) by auto
  then show ?case using Cons.IH [of al1 held1] Cons.prems(3) by simp
qed simp

text \<open>C28: clients may scribble over their blocks: from a fresh heap, any sequence of allocations, releases, and writes of arbitrary contents over the
  list nodes that the words of a held block can be taken for, runs to its end, although the free list lives in the same memory, and
  the blocks held at the end are pairwise disjoint, inside the heap and aligned.\<close>

theorem scribbled_heap_safe:
  assumes "0 < lo" and "lo + n < 2 ^ 63" and "8 dvd lo" and "8 dvd n" and "16 \<le> n"
    and "\<forall>r. Ask r \<in> set us \<longrightarrow> request_ok linked_layout r" and "heap_init new_allocator lo n = Some al0"
  shows "\<exists>al held. use_all (al0, []) us = Some (al, held) \<and> pairwise_disjoint (blocks_of linked_size held) \<and>
    (\<forall>h\<in>set held. lo \<le> fst h \<and> fst h + lay_size (snd h) \<le> lo + n \<and> lay_align (snd h) dvd fst h)"
proof -
  have "linked_ok lo (lo + n) al0 (blocks_of linked_size [])"
    using heap_init_inv [OF assms(1-5)] assms(7) by (auto simp: linked_ok_def blocks_of_def)
  from use_all_ok [OF this _ assms(6)] obtain al held where u: "use_all (al0, []) us = Some (al, held)"
      "linked_ok lo (lo + n) al (blocks_of linked_size held)" "\<forall>h\<in>set held. held_ok linked_layout h"
    by auto
  then obtain lost where inv: "heap_inv lo (lo + n) al (blocks_of linked_size held) lost" by (auto simp: linked_ok_def)
  have "lo \<le> fst h \<and> fst h + lay_size (snd h) \<le> lo + n" if "h \<in> set held" for h
    using held_inside [OF inv that] u(3) that by simp
  then show ?thesis using u heap_inv_disjoint [OF inv] by (auto simp: held_ok_def)
qed

lemma scribbled_heap_safe_witness:
  "\<exists>al0 al held. heap_init new_allocator 64 256 = Some al0 \<and>
     use_all (al0, []) [Ask (Allocate \<lparr>lay_size = 16, lay_align = 8\<rparr>), Scribble 0 (\<lambda>_. Some (new_node 7)),
       Ask (Allocate \<lparr>lay_size = 16, lay_align = 8\<rparr>), Ask (Release 0)] = Some (al, held)"
proof -
  obtain al0 where "heap_init new_allocator 64 256 = Some al0" using heap_init_inv [of 64 256] by auto
  from scribbled_heap_safe [OF _ _ _ _ _ _ this, of "[Ask (Allocate \<lparr>lay_size = 16, lay_align = 8\<rparr>), Scribble 0 (\<lambda>_. Some (new_node 7)),
      Ask (Allocate \<lparr>lay_size = 16, lay_align = 8\<rparr>), Ask (Release 0)]"] this
  show ?thesis by (fastforce simp: linked_layout_def layout_ok_16_8)
qed

text \<open>C23: an allocation returns the null pointer exactly when no hole of the list fits it, where a hole fits
  when the aligned block ends at its end or leaves at least the room of a list node.\<close>

theorem allocate_null_iff:
  assumes "heap_inv lo hi al live lost" and "linked_layout l" and "size_align l = Some (sz, a)" and "holes al bs"
  shows "(\<exists>al'. allocate_layout al l = Some (al', 0)) \<longleftrightarrow> (\<forall>b\<in>set bs. \<not> fits sz a b)"
proof -
  have ok: "holes_ok lo hi bs" "hi < 2 ^ 63"
    using heap_inv_holes(1) [OF assms(1,4)] assms(1) by (simp_all add: heap_inv_def)
  obtain k where k: "a = 2 ^ k" "k < 63" using size_align_ok assms(2,3) by (metis linked_layout_def option.inject prod.inject)
  show ?thesis
  proof
    assume "\<forall>b\<in>set bs. \<not> fits sz a b"
    then show "\<exists>al'. allocate_layout al l = Some (al', 0)"
      using allocate_none [OF assms(4) ok] assms(3) k by blast
  next
    assume "\<exists>al'. allocate_layout al l = Some (al', 0)"
    with assms(1,2) show "\<forall>b\<in>set bs. \<not> fits sz a b"
      by (cases rule: linked_alloc_cases) (use assms(3,4) holes_unique in auto)
  qed
qed

lemma allocate_null_iff_witness:
  "(\<exists>al'. allocate_layout sample_heap \<lparr>lay_size = 16, lay_align = 8\<rparr> = Some (al', 0)) \<longleftrightarrow>
     (\<forall>b\<in>set [(80, 240)]. \<not> fits 16 8 b)"
  by (rule allocate_null_iff [OF sample_heap_inv])
    (simp_all add: linked_layout_def layout_ok_16_8 size_align_def align_to_def pad_to_align_def div_ceil_def
      sample_heap_holes)



text \<open>C7: with alignments of at most 8 no byte is ever lost: after any sequence of requests \<open>free\<close> equals
  the walked total, and once everything is released the holes have merged back into the one hole the heap
  started with.\<close>

theorem exact_release_restores_heap:
  assumes "0 < lo" and "lo + n < 2 ^ 63" and "8 dvd lo" and "8 dvd n" and "16 \<le> n"
    and "\<forall>r\<in>set rs. request_ok exact_layout r" and "heap_init new_allocator lo n = Some al0"
    and "serve_all allocate_layout deallocate_layout (al0, []) rs = Some (al, held)"
  shows "sum_free_bytes al = Some (free_bytes al) \<and>
     (held = [] \<longrightarrow> free_node_count al = Some 1 \<and> sum_free_bytes al = Some n \<and> used_bytes al = 0)"
proof -
  have "heap_inv lo (lo + n) al0 [] []" using heap_init_inv [OF assms(1-5)] assms(7) by auto
  then have "exact_ok lo (lo + n) al0 (blocks_of linked_size [])"
    by (auto simp: exact_ok_def blocks_of_def)
  from exact.serve_all_ok [OF this _ assms(6)] assms(8)
  obtain lost where inv: "heap_inv lo (lo + n) al (blocks_of linked_size held) lost"
    and zero: "\<forall>b\<in>set lost. snd b = 0" by (auto simp: exact_ok_def)
  have z: "(\<Sum>b\<leftarrow>lost. snd b) = 0" "\<And>x. coverage lost x = 0"
    using zero by (induction lost) (auto simp: covers_def)
  obtain f where f: "sum_free_bytes al = Some f" "free_bytes al = f"
    "used_bytes al = (\<Sum>b\<leftarrow>blocks_of linked_size held. snd b)"
    using heap_accounting_holds [OF inv] z by auto
  have "free_node_count al = Some 1 \<and> sum_free_bytes al = Some n \<and> used_bytes al = 0" if "held = []"
  proof -
    have nolive: "blocks_of linked_size held = []" using that by (simp add: blocks_of_def)
    obtain bs where bs: "holes al bs" "holes_ok lo (lo + n) bs"
      "\<And>x. coverage bs x = (if lo \<le> x \<and> x < lo + n then 1 else 0)"
      using inv z nolive by (auto simp: heap_inv_def)
    have "bs = [(lo, n)]" using single_hole [OF bs(2,3)] assms(5) by simp
    then have "free_node_count al = Some 1"
      using bs(1) count_nodes_seg [of al _ bs 0] by (simp add: free_node_count_def holes_def)
    moreover have "f = n" using f(2) inv nolive by (simp add: heap_inv_def free_bytes_def saturating_sub_def)
    ultimately show ?thesis using f nolive by simp
  qed
  then show ?thesis using f by simp
qed

lemma exact_release_restores_heap_witness:
  "\<exists>al0 al. heap_init new_allocator 64 256 = Some al0 \<and>
     serve_all allocate_layout deallocate_layout (al0, []) [Allocate \<lparr>lay_size = 16, lay_align = 8\<rparr>, Release 0]
       = Some (al, []) \<and>
     free_node_count al = Some 1 \<and> sum_free_bytes al = Some 256 \<and> used_bytes al = 0"
proof -
  let ?rs = "[Allocate \<lparr>lay_size = 16, lay_align = 8\<rparr>, Release 0]"
  obtain al0 al where run: "heap_init new_allocator 64 256 = Some al0"
    "serve_all allocate_layout deallocate_layout (al0, []) ?rs = Some (al, [])"
    by (simp add: heap_run)
  have "\<forall>r\<in>set ?rs. request_ok exact_layout r"
    by (simp add: exact_layout_def linked_layout_def layout_ok_16_8)
  from exact_release_restores_heap [OF _ _ _ _ _ this run] run show ?thesis by auto
qed

text \<open>C36: the bump allocator keeps the same promise to its clients: the blocks held are disjoint, aligned and
  inside the used part of the heap.\<close>

theorem bump_requests_safe:
  assumes "0 < lo" and "lo + n < 2 ^ 63" and "\<forall>r\<in>set rs. request_ok bump_layout r"
  shows "\<exists>b0 b held. bump_init bump_new lo n = Some b0 \<and>
    serve_all bump_alloc bump_dealloc (b0, []) rs = Some (b, held) \<and>
    pairwise_disjoint (blocks_of lay_size held) \<and>
    (\<forall>h\<in>set held. lo \<le> fst h \<and> fst h + lay_size (snd h) \<le> lo + bump_used b \<and> lay_align (snd h) dvd fst h) \<and>
    bump_used b \<le> n"
proof -
  let ?b0 = "\<lparr>bump_start = lo, bump_end = lo + n, bump_next = lo, bump_allocations = 0\<rparr>"
  have b0: "bump_init bump_new lo n = Some ?b0"
    using assms(2) by (simp add: bump_init_def bump_new_def usize_add_def)
  have "bump_ok lo (lo + n) ?b0 (blocks_of lay_size [])"
    using assms(1,2) by (simp add: bump_ok_def blocks_of_def)
  from bump.serve_all_ok [OF this _ assms(3)] obtain b held where
    sv: "serve_all bump_alloc bump_dealloc (?b0, []) rs = Some (b, held)"
    and ok: "bump_ok lo (lo + n) b (blocks_of lay_size held)" and hd: "\<forall>h\<in>set held. held_ok bump_layout h"
    by auto
  have "lo \<le> fst h \<and> fst h + lay_size (snd h) \<le> lo + bump_used b" if "h \<in> set held" for h
    using ok that by (auto simp: bump_ok_def blocks_of_def bump_used_def case_prod_beta dest!: bspec)
  moreover have "bump_used b \<le> n" "pairwise_disjoint (blocks_of lay_size held)"
    using ok by (auto simp: bump_ok_def bump_used_def)
  ultimately show ?thesis using b0 sv hd by (auto simp: held_ok_def)
qed

lemma bump_requests_safe_witness:
  "\<exists>b0 b held. bump_init bump_new 64 256 = Some b0 \<and>
    serve_all bump_alloc bump_dealloc (b0, []) [Allocate \<lparr>lay_size = 16, lay_align = 8\<rparr>, Release 0] = Some (b, held) \<and>
    pairwise_disjoint (blocks_of lay_size held) \<and>
    (\<forall>h\<in>set held. 64 \<le> fst h \<and> fst h + lay_size (snd h) \<le> 64 + bump_used b \<and> lay_align (snd h) dvd fst h) \<and>
    bump_used b \<le> 256"
  by (rule bump_requests_safe) (simp_all add: bump_layout_def layout_ok_16_8)

text \<open>An alignment above 8 loses memory for good: in a heap of 256 bytes at address 8, allocating and
  releasing 16 bytes aligned to 16 leaves \<open>used\<close> 0 and \<open>free\<close> 256, while the holes only hold 248 bytes.\<close>

theorem padding_is_lost:
  "\<exists>al0 al1 al2. heap_init new_allocator 8 256 = Some al0 \<and>
     allocate_layout al0 \<lparr>lay_size = 16, lay_align = 16\<rparr> = Some (al1, 16) \<and>
     deallocate_layout al1 16 \<lparr>lay_size = 16, lay_align = 16\<rparr> = Some al2 \<and>
     used_bytes al2 = 0 \<and> free_bytes al2 = 256 \<and> sum_free_bytes al2 = Some 248"
  by (simp add: heap_run)

end
