(* ===== verification/Spin_Lock.thy ===== *)
theory Spin_Lock
  imports Prelude Transition_System
begin

text \<open>
  The kernel's lock: \<^verbatim>\<open>kernel/src/sync.rs\<close>.

  A system has any number of processors. Each has an interrupt flag and a stack of execution
  contexts, the running one first: an interrupt, which is taken only while the flag is set,
  pushes a handler with the flag cleared, and its return pops it and sets the flag again. All
  contexts use one lock. Each atomic access of \<^verbatim>\<open>lock\<close>, \<^verbatim>\<open>try_lock\<close> and of the guard's
  \<^verbatim>\<open>drop\<close> is one step, so any interleaving of processors and handlers is a sequence of steps.
  The weak compare-exchange may fail although the lock is free: that is the argument
  \<open>spurious\<close>. Code that holds no guard may set and clear the flag as it likes; code that holds
  the guard does not touch the flag, but may call \<^verbatim>\<open>lock\<close> and \<^verbatim>\<open>try_lock\<close> again: the phase \<open>Again r p\<close> is that of a
  context that holds the guard and is in a further call, at \<open>p\<close>. Waiting in a circle over several locks has no counterpart here.
\<close>

text \<open>Where a context is. The argument is the local \<^verbatim>\<open>restore_interrupts\<close>, kept in the guard.\<close>

datatype phase =
    Outside
  | Lock_Entry | Lock_Disable bool | Lock_Cas bool | Lock_Spin bool
  | Try_Entry | Try_Disable bool | Try_Cas bool | Try_Fail bool
  | Held bool
  | Drop_Store bool | Drop_Restore bool
  | Again bool phase

text \<open>A step maps the phase, the processor's interrupt flag and the atomic \<^verbatim>\<open>locked\<close>.\<close>

type_synonym lock_view = "phase \<times> bool \<times> bool"

fun lock_step :: "bool \<Rightarrow> lock_view \<Rightarrow> lock_view option" where
  "lock_step spurious (Lock_Entry, ie, lk) = Some (Lock_Disable ie, ie, lk)"
| "lock_step spurious (Lock_Disable r, ie, lk) = Some (Lock_Cas r, False, lk)"
| "lock_step spurious (Lock_Cas r, ie, lk) =
     Some (if lk \<or> spurious then (Lock_Spin r, ie, lk) else (Held r, ie, True))"
| "lock_step spurious (Lock_Spin r, ie, lk) = Some (if lk then Lock_Spin r else Lock_Cas r, ie, lk)"
| "lock_step spurious _ = None"

fun try_lock_step :: "lock_view \<Rightarrow> lock_view option" where
  "try_lock_step (Try_Entry, ie, lk) = Some (Try_Disable ie, ie, lk)"
| "try_lock_step (Try_Disable r, ie, lk) = Some (Try_Cas r, False, lk)"
| "try_lock_step (Try_Cas r, ie, lk) = Some (if lk then (Try_Fail r, ie, lk) else (Held r, ie, True))"
| "try_lock_step (Try_Fail r, ie, lk) = Some (Outside, (if r then True else ie), lk)"
| "try_lock_step _ = None"

fun drop_step :: "lock_view \<Rightarrow> lock_view option" where
  "drop_step (Drop_Store r, ie, lk) = Some (Drop_Restore r, ie, False)"
| "drop_step (Drop_Restore r, ie, lk) = Some (Outside, (if r then True else ie), lk)"
| "drop_step _ = None"

text \<open>The same two calls by a context that holds the guard; when such a call returns without a guard, the context goes on with the one it has.\<close>

fun again_step :: "bool \<Rightarrow> lock_view \<Rightarrow> lock_view option" where
  "again_step spurious (Again r p, ie, lk) =
     map_option (\<lambda>(p', v). (if p' = Outside then Held r else Again r p', v))
       (case lock_step spurious (p, ie, lk) of Some v \<Rightarrow> Some v | None \<Rightarrow> try_lock_step (p, ie, lk))"
| "again_step spurious _ = None"

record spin_state =
  locked :: bool
  interrupt_flag :: "nat \<Rightarrow> bool"
  contexts :: "nat \<Rightarrow> phase list"

definition view :: "spin_state \<Rightarrow> nat \<Rightarrow> lock_view" where
  "view s c = (hd (contexts s c), interrupt_flag s c, locked s)"

definition put_view :: "spin_state \<Rightarrow> nat \<Rightarrow> lock_view \<Rightarrow> spin_state" where
  "put_view s c v =
     \<lparr>locked = snd (snd v), interrupt_flag = (interrupt_flag s)(c := fst (snd v)),
      contexts = (contexts s)(c := fst v # tl (contexts s c))\<rparr>"

inductive spin_step :: "spin_state \<Rightarrow> spin_state \<Rightarrow> bool" where
  call_lock: "contexts s c = Outside # ps \<Longrightarrow>
     spin_step s (put_view s c (Lock_Entry, interrupt_flag s c, locked s))"
| call_try_lock: "contexts s c = Outside # ps \<Longrightarrow>
     spin_step s (put_view s c (Try_Entry, interrupt_flag s c, locked s))"
| in_lock: "contexts s c = p # ps \<Longrightarrow> lock_step w (view s c) = Some v \<Longrightarrow> spin_step s (put_view s c v)"
| in_try_lock: "contexts s c = p # ps \<Longrightarrow> try_lock_step (view s c) = Some v \<Longrightarrow> spin_step s (put_view s c v)"
| drop_guard: "contexts s c = Held r # ps \<Longrightarrow>
     spin_step s (put_view s c (Drop_Store r, interrupt_flag s c, locked s))"
| in_drop: "contexts s c = p # ps \<Longrightarrow> drop_step (view s c) = Some v \<Longrightarrow> spin_step s (put_view s c v)"
| call_lock_again: "contexts s c = Held r # ps \<Longrightarrow>
     spin_step s (put_view s c (Again r Lock_Entry, interrupt_flag s c, locked s))"
| call_try_lock_again: "contexts s c = Held r # ps \<Longrightarrow>
     spin_step s (put_view s c (Again r Try_Entry, interrupt_flag s c, locked s))"
| in_again: "contexts s c = p # ps \<Longrightarrow> again_step w (view s c) = Some v \<Longrightarrow> spin_step s (put_view s c v)"
| set_flag: "contexts s c = Outside # ps \<Longrightarrow> spin_step s (put_view s c (Outside, b, locked s))"
| interrupt: "contexts s c \<noteq> [] \<Longrightarrow> interrupt_flag s c \<Longrightarrow>
     spin_step s (s\<lparr>interrupt_flag := (interrupt_flag s)(c := False),
                    contexts := (contexts s)(c := Outside # contexts s c)\<rparr>)"
| return_interrupt: "contexts s c = Outside # p # ps \<Longrightarrow>
     spin_step s (s\<lparr>interrupt_flag := (interrupt_flag s)(c := True),
                    contexts := (contexts s)(c := p # ps)\<rparr>)"

inductive_cases spin_stepE: "spin_step s s'"

definition spin_init :: "(nat \<Rightarrow> bool) \<Rightarrow> spin_state" where
  "spin_init flags = \<lparr>locked = False, interrupt_flag = flags, contexts = (\<lambda>_. [Outside])\<rparr>"

inductive spin_reachable :: "spin_state \<Rightarrow> bool" where
  start: "spin_reachable (spin_init flags)"
| step: "spin_reachable s \<Longrightarrow> spin_step s s' \<Longrightarrow> spin_reachable s'"

subsection \<open>The invariant\<close>

text \<open>The phases between the successful exchange and the store that frees the lock.\<close>

fun holding :: "phase \<Rightarrow> bool" where
  "holding (Held r) = True"
| "holding (Drop_Store r) = True"
| "holding (Again r p) = True"
| "holding _ = False"

text \<open>A running context with flag \<open>ie\<close>: past the \<^verbatim>\<open>disable_interrupts\<close> the flag is clear, and before it the
  value read is still the flag. A further call of the holder finds the flag clear.\<close>

fun further_lock :: "phase \<Rightarrow> bool" where
  "further_lock Lock_Entry = True"
| "further_lock (Lock_Disable r) = (\<not> r)"
| "further_lock (Lock_Cas r) = (\<not> r)"
| "further_lock (Lock_Spin r) = (\<not> r)"
| "further_lock _ = False"

fun further_try :: "phase \<Rightarrow> bool" where
  "further_try Try_Entry = True"
| "further_try (Try_Disable r) = (\<not> r)"
| "further_try (Try_Cas r) = (\<not> r)"
| "further_try (Try_Fail r) = (\<not> r)"
| "further_try _ = False"

fun top_ok :: "phase \<Rightarrow> bool \<Rightarrow> bool" where
  "top_ok Outside ie = True"
| "top_ok Lock_Entry ie = True"
| "top_ok Try_Entry ie = True"
| "top_ok (Lock_Disable r) ie = (r = ie)"
| "top_ok (Try_Disable r) ie = (r = ie)"
| "top_ok (Again r p) ie = (\<not> ie \<and> (further_lock p \<or> further_try p))"
| "top_ok _ ie = (\<not> ie)"

definition stack_ok :: "phase list \<Rightarrow> bool \<Rightarrow> bool" where
  "stack_ok ps ie \<longleftrightarrow> ps \<noteq> [] \<and> top_ok (hd ps) ie \<and> list_all (\<lambda>p. top_ok p True) (tl ps)"

definition spin_inv :: "spin_state \<Rightarrow> bool" where
  "spin_inv s \<longleftrightarrow>
     (\<forall>c. stack_ok (contexts s c) (interrupt_flag s c)) \<and>
     (\<forall>c d. holding (hd (contexts s c)) \<longrightarrow> holding (hd (contexts s d)) \<longrightarrow> c = d) \<and>
     (locked s \<longleftrightarrow> (\<exists>c. holding (hd (contexts s c))))"

lemma put_view_simps [simp]:
  "locked (put_view s c (p, ie, lk)) = lk"
  "interrupt_flag (put_view s c (p, ie, lk)) = (interrupt_flag s)(c := ie)"
  "contexts (put_view s c (p, ie, lk)) = (contexts s)(c := p # tl (contexts s c))"
  by (simp_all add: put_view_def)

text \<open>What a step of one context may do: it keeps its own part of the invariant, takes the lock only when it
  is free, and frees it only when it holds it.\<close>

definition view_ok :: "lock_view \<Rightarrow> lock_view \<Rightarrow> bool" where
  "view_ok v v' \<longleftrightarrow>
     (holding (fst v) \<longrightarrow> snd (snd v)) \<longrightarrow>
     (top_ok (fst v) (fst (snd v)) \<longrightarrow> top_ok (fst v') (fst (snd v'))) \<and>
     (if holding (fst v) = holding (fst v') then snd (snd v') = snd (snd v)
      else if holding (fst v') then \<not> snd (snd v) \<and> snd (snd v') else \<not> snd (snd v'))"

lemma holding_locked: "spin_inv s \<Longrightarrow> holding (hd (contexts s c)) \<Longrightarrow> locked s"
  by (auto simp: spin_inv_def)

lemma lock_step_view_ok: "lock_step w v = Some v' \<Longrightarrow> view_ok v v'"
  by (induction w v rule: lock_step.induct) (auto simp: view_ok_def split: if_splits)

lemma try_lock_step_view_ok: "try_lock_step v = Some v' \<Longrightarrow> view_ok v v'"
  by (induction v rule: try_lock_step.induct) (auto simp: view_ok_def split: if_splits)

lemma drop_step_view_ok: "drop_step v = Some v' \<Longrightarrow> view_ok v v'"
  by (induction v rule: drop_step.induct) (auto simp: view_ok_def split: if_splits)

lemma again_step_view_ok: "again_step w v = Some v' \<Longrightarrow> view_ok v v'"
proof (induction w v rule: again_step.induct)
  case (1 w r p ie lk)
  then show ?case by (cases p) (auto simp: view_ok_def split: if_splits)
qed simp_all

lemma put_view_inv:
  assumes inv: "spin_inv s" and "view_ok (view s c) v"
  shows "spin_inv (put_view s c v)"
proof -
  have h: "holding (fst (view s c)) \<longrightarrow> snd (snd (view s c))" using holding_locked [OF inv, of c] by (simp add: view_def)
  have v: "(top_ok (fst (view s c)) (fst (snd (view s c))) \<longrightarrow> top_ok (fst v) (fst (snd v))) \<and>
      (if holding (fst (view s c)) = holding (fst v) then snd (snd v) = snd (snd (view s c))
       else if holding (fst v) then \<not> snd (snd (view s c)) \<and> snd (snd v) else \<not> snd (snd v))"
    using assms(2) h unfolding view_ok_def by blast
  obtain p ie lk where vv: "v = (p, ie, lk)" by (metis prod_cases3)
  have st: "stack_ok (contexts s d) (interrupt_flag s d)" for d using inv by (simp add: spin_inv_def)
  have "stack_ok (p # tl (contexts s c)) ie"
    using st [of c] v by (auto simp: stack_ok_def view_def vv)
  moreover have "\<not> holding (hd (contexts s d))" if "d \<noteq> c" "holding p" for d
  proof (cases "holding (hd (contexts s c))")
    case True
    then show ?thesis using inv that(1) by (auto simp: spin_inv_def)
  next
    case False
    then have "\<not> locked s" using v that(2) by (simp add: view_def vv)
    then show ?thesis using inv by (auto simp: spin_inv_def)
  qed
  moreover have "lk \<longleftrightarrow> holding p \<or> (\<exists>d. d \<noteq> c \<and> holding (hd (contexts s d)))"
  proof (cases "holding (hd (contexts s c)) = holding p")
    case True
    then have "lk = locked s" using v by (simp add: view_def vv)
    then show ?thesis using inv True unfolding spin_inv_def by metis
  next
    case False
    then show ?thesis using v inv by (auto simp: view_def vv spin_inv_def)
  qed
  ultimately show ?thesis using inv st unfolding spin_inv_def vv put_view_simps
    by (auto split: if_splits)
qed

lemma view_ok_call:
  assumes "contexts s c = Outside # ps"
  shows "view_ok (view s c) (Lock_Entry, interrupt_flag s c, locked s)"
    and "view_ok (view s c) (Try_Entry, interrupt_flag s c, locked s)"
    and "view_ok (view s c) (Outside, b, locked s)"
  using assms by (simp_all add: view_ok_def view_def)

lemma view_ok_holder:
  assumes "contexts s c = Held r # ps"
  shows "view_ok (view s c) (Drop_Store r, interrupt_flag s c, locked s)"
    and "view_ok (view s c) (Again r Lock_Entry, interrupt_flag s c, locked s)"
    and "view_ok (view s c) (Again r Try_Entry, interrupt_flag s c, locked s)"
  using assms by (simp_all add: view_ok_def view_def)

lemma interrupt_inv:
  assumes inv: "spin_inv s" and i: "interrupt_flag s c" "contexts s c \<noteq> []"
  shows "spin_inv (s\<lparr>interrupt_flag := (interrupt_flag s)(c := False),
    contexts := (contexts s)(c := Outside # contexts s c)\<rparr>)"
proof -
  have "stack_ok (contexts s c) True" using inv i by (auto simp: spin_inv_def dest: spec [of _ c])
  then have top: "top_ok (hd (contexts s c)) True" "stack_ok (Outside # contexts s c) False"
    by (cases "contexts s c"; simp add: stack_ok_def)+
  then have "\<not> holding (hd (contexts s c))" by (cases "hd (contexts s c)") auto
  then show ?thesis using inv top by (auto simp: spin_inv_def)
qed

lemma return_interrupt_inv:
  assumes inv: "spin_inv s" and c: "contexts s c = Outside # p # ps"
  shows "spin_inv (s\<lparr>interrupt_flag := (interrupt_flag s)(c := True), contexts := (contexts s)(c := p # ps)\<rparr>)"
proof -
  have "stack_ok (contexts s c) (interrupt_flag s c)" using inv by (simp add: spin_inv_def)
  then have top: "top_ok p True" "stack_ok (p # ps) True" by (simp_all add: stack_ok_def c)
  then have "\<not> holding p" by (cases p) auto
  moreover have "\<not> holding (hd (contexts s c))" by (simp add: c)
  ultimately show ?thesis using inv top by (auto simp: spin_inv_def split: if_splits)
qed

lemma spin_step_inv: "spin_step s s' \<Longrightarrow> spin_inv s \<Longrightarrow> spin_inv s'"
  by (induction rule: spin_step.induct)
    (auto intro: put_view_inv view_ok_call view_ok_holder lock_step_view_ok try_lock_step_view_ok drop_step_view_ok again_step_view_ok
      interrupt_inv return_interrupt_inv)

lemma spin_init_inv: "spin_inv (spin_init flags)"
  by (simp add: spin_init_def spin_inv_def stack_ok_def)

interpretation spin: started_system spin_step spin_inv "\<lambda>s. \<exists>flags. s = spin_init flags"
  by unfold_locales (use spin_step_inv in \<open>auto simp: spin_init_inv\<close>)

lemma spin_reachable_run: "spin_reachable s \<Longrightarrow> \<exists>flags. spin_step\<^sup>*\<^sup>* (spin_init flags) s"
  by (induction rule: spin_reachable.induct) (auto intro: rtranclp.rtrancl_into_rtrancl)

lemma spin_reachable_inv: "spin_reachable s \<Longrightarrow> spin_inv s"
  using spin_reachable_run spin.reachable_invar by blast

lemma holder_on_top:
  assumes "spin_inv s" and "k < length (contexts s c)" and "holding (contexts s c ! k)"
  shows "k = 0" and "contexts s c = contexts s c ! 0 # tl (contexts s c)" and "\<not> interrupt_flag s c"
proof -
  have st: "stack_ok (contexts s c) (interrupt_flag s c)" using assms(1) by (simp add: spin_inv_def)
  then obtain p ps where ps: "contexts s c = p # ps" "top_ok p (interrupt_flag s c)" "list_all (\<lambda>p. top_ok p True) ps"
    by (cases "contexts s c") (auto simp: stack_ok_def)
  show k: "k = 0"
  proof (rule ccontr)
    assume "k \<noteq> 0"
    then have "contexts s c ! k \<in> set ps" using assms(2) ps(1) by (cases k) auto
    then have "top_ok (contexts s c ! k) True" using ps(3) by (simp add: list_all_iff)
    then show False using assms(3) by (cases "contexts s c ! k") auto
  qed
  show "contexts s c = contexts s c ! 0 # tl (contexts s c)" using ps by simp
  show "\<not> interrupt_flag s c" using ps assms(3) k by (cases p) auto
qed

text \<open>Short runs: a release by the holder, and an entry of the running context of a processor.\<close>

definition spin_steps :: "spin_state \<Rightarrow> spin_state \<Rightarrow> bool" where
  "spin_steps = spin_step\<^sup>*\<^sup>*"

lemma put_view_twice [simp]: "put_view (put_view s c v) c v' = put_view s c v'"
  by (simp add: put_view_def)

lemma view_put_view [simp]: "view (put_view s c v) c = v"
  by (simp add: view_def put_view_def)

lemma contexts_put_view: "contexts (put_view s c (p, ie, lk)) c = p # tl (contexts s c)"
  by simp

lemma in_lock_at:
  assumes "lock_step w (p, ie, lk) = Some v"
  shows "spin_step (put_view s c (p, ie, lk)) (put_view s c v)"
  using in_lock [OF contexts_put_view, of w s c p ie lk v] assms by simp

lemma enter_from_cas:
  assumes "contexts s c = Lock_Cas r # ps" and "\<not> locked s"
  shows "spin_step s (put_view s c (Held r, interrupt_flag s c, True))"
  using assms in_lock [OF assms(1), of False] by (simp add: view_def)

lemma enter_from_spin:
  assumes "contexts s c = Lock_Spin r # ps" and "\<not> locked s"
  shows "spin_steps s (put_view s c (Held r, interrupt_flag s c, True))"
proof -
  let ?s = "put_view s c (Lock_Cas r, interrupt_flag s c, False)"
  have "spin_step s ?s" using assms in_lock [OF assms(1), of False] by (simp add: view_def)
  moreover have "spin_step ?s (put_view s c (Held r, interrupt_flag s c, True))"
    using enter_from_cas [of ?s c r ps] assms(1) by simp
  ultimately show ?thesis unfolding spin_steps_def by (meson converse_rtranclp_into_rtranclp r_into_rtranclp)
qed

lemma lock_uncontended:
  assumes "contexts s c = Outside # ps" and "\<not> locked s"
  shows "spin_steps s (put_view s c (Held (interrupt_flag s c), False, True))"
proof -
  let ?r = "interrupt_flag s c"
  let ?s1 = "put_view s c (Lock_Entry, ?r, False)" and ?s2 = "put_view s c (Lock_Disable ?r, ?r, False)"
  let ?s3 = "put_view s c (Lock_Cas ?r, False, False)"
  have 1: "spin_step s ?s1" using call_lock [OF assms(1)] assms(2) by simp
  have 2: "spin_step ?s1 ?s2" by (rule in_lock_at [of False]) simp
  have 3: "spin_step ?s2 ?s3" by (rule in_lock_at [of False]) simp
  have 4: "spin_step ?s3 (put_view s c (Held ?r, False, True))"
    using enter_from_cas [of ?s3 c ?r "tl (contexts s c)"] by simp
  from 1 2 3 4 show ?thesis unfolding spin_steps_def by (meson converse_rtranclp_into_rtranclp r_into_rtranclp)
qed

lemma release_from_store:
  assumes "contexts s d = Drop_Store r # ps"
  shows "spin_step s (put_view s d (Drop_Restore r, interrupt_flag s d, False))"
  using in_drop [OF assms] assms by (simp add: view_def)

lemma try_again_returns:
  assumes "contexts s d = Again r p # ps" and "further_try p" and "locked s" and "\<not> interrupt_flag s d"
  shows "spin_steps s (put_view s d (Held r, False, True))"
proof -
  have fail: "spin_steps u (put_view s d (Held r, False, True))" if "u = put_view s d (Again r (Try_Fail False), False, True)" for u
    using in_again [OF contexts_put_view, of False s d "Again r (Try_Fail False)" False True "(Held r, False, True)"] that
    by (simp add: spin_steps_def)
  have step: "spin_step u (put_view s d (Again r q', False, True))"
    if "u = put_view s d (Again r q, False, True)" "again_step False (Again r q, False, True) = Some (Again r q', False, True)" for u q q'
    using in_again [OF contexts_put_view, of False s d "Again r q" False True "(Again r q', False, True)"] that by simp
  have cas: "spin_steps u (put_view s d (Held r, False, True))" if "u = put_view s d (Again r (Try_Cas False), False, True)" for u
    using step [OF that, of "Try_Fail False"] fail [OF refl] unfolding spin_steps_def by (auto intro: converse_rtranclp_into_rtranclp)
  have dis: "spin_steps u (put_view s d (Held r, False, True))" if "u = put_view s d (Again r (Try_Disable False), False, True)" for u
    using step [OF that, of "Try_Cas False"] cas [OF refl] unfolding spin_steps_def by (auto intro: converse_rtranclp_into_rtranclp)
  have entry: "spin_steps u (put_view s d (Held r, False, True))" if "u = put_view s d (Again r Try_Entry, False, True)" for u
    using step [OF that, of "Try_Disable False"] dis [OF refl] unfolding spin_steps_def by (auto intro: converse_rtranclp_into_rtranclp)
  have "put_view s d (Again r p, False, True) = s" using assms by (cases s) (auto simp: put_view_def fun_upd_idem)
  then show ?thesis using assms(2) fail [of s] cas [of s] dis [of s] entry [of s] by (cases p) auto
qed

lemma guard_released:
  assumes "contexts s d = p # ps" and "p = Held r \<or> p = Drop_Store r"
  shows "spin_steps s (put_view s d (Drop_Restore r, interrupt_flag s d, False))"
proof -
  let ?s1 = "put_view s d (Drop_Store r, interrupt_flag s d, locked s)"
  have s1: "spin_step ?s1 (put_view s d (Drop_Restore r, interrupt_flag s d, False))" using release_from_store [of ?s1 d r ps] assms(1) by simp
  from assms(2) show ?thesis
  proof
    assume "p = Held r"
    then have "spin_step s ?s1" using drop_guard assms(1) by blast
    then show ?thesis using s1 unfolding spin_steps_def by (meson converse_rtranclp_into_rtranclp r_into_rtranclp)
  qed (use release_from_store assms(1) in \<open>auto simp: spin_steps_def\<close>)
qed

text \<open>The holder is waiting for itself.\<close>

definition locks_again :: "spin_state \<Rightarrow> nat \<Rightarrow> bool" where
  "locks_again s d \<longleftrightarrow> (\<exists>r p ps. contexts s d = Again r p # ps \<and> further_lock p)"

lemma holder_can_release:
  assumes inv: "spin_inv s" and "locked s" and "\<not> holding (hd (contexts s c))" and "\<And>d. \<not> locks_again s d"
  shows "\<exists>s'. spin_steps s s' \<and> \<not> locked s' \<and> contexts s' c = contexts s c \<and>
    interrupt_flag s' c = interrupt_flag s c"
proof -
  obtain d where d: "holding (hd (contexts s d))" using assms(1,2) by (auto simp: spin_inv_def)
  then have dc: "d \<noteq> c" using assms(3) by auto
  have st: "stack_ok (contexts s d) (interrupt_flag s d)" using inv by (simp add: spin_inv_def)
  then obtain p ps where ps: "contexts s d = p # ps" by (cases "contexts s d") (auto simp: stack_ok_def)
  from d ps consider r where "p = Held r \<or> p = Drop_Store r" | r q where "p = Again r q" by (cases p) auto
  then show ?thesis
  proof cases
    case 1
    then show ?thesis using guard_released [OF ps] dc by (intro exI [of _ "put_view s d (Drop_Restore r, interrupt_flag s d, False)"]) simp
  next
    case 2
    let ?s1 = "put_view s d (Held r, False, True)"
    have "further_try q" "\<not> interrupt_flag s d" using st assms(4) [of d] ps 2 by (auto simp: stack_ok_def locks_again_def)
    then have "spin_steps s ?s1" using try_again_returns ps 2 assms(2) by blast
    moreover have "spin_steps ?s1 (put_view s d (Drop_Restore r, False, False))" using guard_released [of ?s1 d "Held r" ps r] ps by simp
    ultimately have "spin_steps s (put_view s d (Drop_Restore r, False, False))" unfolding spin_steps_def by (rule rtranclp_trans)
    then show ?thesis using dc by (intro exI [of _ "put_view s d (Drop_Restore r, False, False)"]) simp
  qed
qed

lemma spin_reachable_steps: "spin_reachable s \<Longrightarrow> spin_steps s s' \<Longrightarrow> spin_reachable s'"
  unfolding spin_steps_def by (rotate_tac, induction rule: rtranclp_induct) (auto intro: spin_reachable.step)

subsection \<open>A second call\<close>

lemma again_step_further:
  assumes "again_step w (Again r p, ie, True) = Some (q, ie', lk)" and "further_lock p" and "\<not> ie"
  shows "\<exists>p'. q = Again r p' \<and> further_lock p'"
  using assms by (cases p) (auto split: if_splits)

lemma stuck_step:
  assumes step: "spin_step s s'" and inv: "spin_inv s" and c: "contexts s c = Again r p # ps" "further_lock p"
  shows "\<exists>p'. contexts s' c = Again r p' # ps \<and> further_lock p'"
proof -
  have l: "locked s" using holding_locked [OF inv, of c] c(1) by simp
  have "stack_ok (contexts s c) (interrupt_flag s c)" using inv by (simp add: spin_inv_def)
  then have ie: "\<not> interrupt_flag s c" using c(1) by (simp add: stack_ok_def)
  have own: "\<exists>p'. contexts (put_view s c v) c = Again r p' # ps \<and> further_lock p'" if "again_step w (view s c) = Some v" for w v
  proof -
    obtain q ie' lk where v: "v = (q, ie', lk)" by (metis prod_cases3)
    have "again_step w (Again r p, interrupt_flag s c, True) = Some (q, ie', lk)" using that v c(1) l by (simp add: view_def)
    then show ?thesis using again_step_further c ie v by fastforce
  qed
  have other: "contexts (put_view s d v) c = contexts s c" if "d \<noteq> c" for d v using that by (simp add: put_view_def)
  from step show ?thesis
  proof (cases rule: spin_step.cases)
    case (in_again d p' ps' w v)
    then show ?thesis using own other c by (cases "d = c") auto
  next
    case (in_lock d p' ps' w v)
    then show ?thesis using other c by (cases "d = c") (auto simp: view_def)
  next
    case (in_try_lock d p' ps' v)
    then show ?thesis using other c by (cases "d = c") (auto simp: view_def)
  next
    case (in_drop d p' ps' v)
    then show ?thesis using other c by (cases "d = c") (auto simp: view_def)
  qed (use c ie in \<open>auto split: if_splits\<close>)
qed

subsection \<open>Properties\<close>

text \<open>C6: mutual exclusion, handlers included. In every reachable state at most one context of all
  processors is between taking and freeing the lock; \<^verbatim>\<open>locked\<close> is then set, that context is the running
  one of its processor and interrupts are off there, so no handler can be waiting on top of it.\<close>

theorem spin_mutual_exclusion:
  assumes "spin_reachable s"
    and "i < length (contexts s c)" and "j < length (contexts s d)"
    and "holding (contexts s c ! i)" and "holding (contexts s d ! j)"
  shows "c = d \<and> i = 0 \<and> j = 0 \<and> locked s \<and> \<not> interrupt_flag s c"
proof -
  have inv: "spin_inv s" using assms(1) by (rule spin_reachable_inv)
  note i = holder_on_top [OF inv assms(2,4)] and j = holder_on_top [OF inv assms(3,5)]
  have "holding (hd (contexts s c))" "holding (hd (contexts s d))"
    using assms i(1) j(1) by (simp_all add: hd_conv_nth)
  then show ?thesis using inv i(1,3) j(1) by (auto simp: spin_inv_def)
qed

lemma spin_mutual_exclusion_witness:
  "let s = put_view (spin_init (\<lambda>_. True)) 3 (Held True, False, True)
   in (3::nat) = 3 \<and> (0::nat) = 0 \<and> (0::nat) = 0 \<and> locked s \<and> \<not> interrupt_flag s 3"
proof -
  let ?s = "put_view (spin_init (\<lambda>_. True)) 3 (Held True, False, True)"
  have "spin_steps (spin_init (\<lambda>_. True)) ?s"
    using lock_uncontended [of "spin_init (\<lambda>_. True)" 3 "[]"] by (simp add: spin_init_def)
  then have "spin_reachable ?s" by (rule spin_reachable_steps [OF spin_reachable.start])
  from spin_mutual_exclusion [OF this, of 0 3 0 3] show ?thesis by simp
qed

text \<open>C26: no deadlock by a single call. From every reachable state in which some processor's running context spins for the
  lock, and no holder has called \<^verbatim>\<open>lock\<close> a second time, a run of the system exists in which that same context enters: the holder, if any, is
  never stuck under a handler and can always free the lock.\<close>

theorem spinner_can_enter:
  assumes "spin_reachable s" and "contexts s c = Lock_Spin r # ps" and "\<And>d. \<not> locks_again s d"
  shows "\<exists>s'. spin_steps s s' \<and> spin_reachable s' \<and> contexts s' c = Held r # ps \<and> \<not> interrupt_flag s' c"
proof -
  have inv: "spin_inv s" using assms(1) by (rule spin_reachable_inv)
  then have off: "\<not> interrupt_flag s c"
    using assms(2) by (auto simp: spin_inv_def stack_ok_def dest: spec [of _ c])
  obtain s1 where s1: "spin_steps s s1" "\<not> locked s1" "contexts s1 c = contexts s c"
    "interrupt_flag s1 c = interrupt_flag s c"
  proof (cases "locked s")
    case True
    then show ?thesis using that holder_can_release [OF inv True, of c] assms(2,3) by auto
  qed (use that in \<open>auto simp: spin_steps_def\<close>)
  then have "spin_steps s1 (put_view s1 c (Held r, interrupt_flag s1 c, True))"
    using enter_from_spin [of s1 c r ps] assms(2) by simp
  then have "spin_steps s (put_view s1 c (Held r, interrupt_flag s1 c, True))"
    using s1(1) unfolding spin_steps_def by (rule rtranclp_trans [rotated])
  then show ?thesis using spin_reachable_steps [OF assms(1)] s1 off assms(2) by (intro exI) auto
qed

lemma spinner_can_enter_witness:
  "let s = put_view (put_view (spin_init (\<lambda>_. True)) 3 (Held True, False, True)) 4 (Lock_Spin True, False, True)
   in \<exists>s'. spin_steps s s' \<and> spin_reachable s' \<and> contexts s' 4 = [Held True] \<and> \<not> interrupt_flag s' 4"
proof -
  let ?s0 = "put_view (spin_init (\<lambda>_. True)) 3 (Held True, False, True)"
  let ?s1 = "put_view ?s0 4 (Lock_Entry, True, True)" and ?s2 = "put_view ?s0 4 (Lock_Disable True, True, True)"
  let ?s3 = "put_view ?s0 4 (Lock_Cas True, False, True)" and ?s4 = "put_view ?s0 4 (Lock_Spin True, False, True)"
  have "spin_steps (spin_init (\<lambda>_. True)) ?s0"
    using lock_uncontended [of "spin_init (\<lambda>_. True)" 3 "[]"] by (simp add: spin_init_def)
  then have 0: "spin_reachable ?s0" by (rule spin_reachable_steps [OF spin_reachable.start])
  have 1: "spin_step ?s0 ?s1" using call_lock [of ?s0 4 "[]"] by (simp add: spin_init_def)
  have 2: "spin_step ?s1 ?s2" by (rule in_lock_at [of False]) simp
  have 3: "spin_step ?s2 ?s3" by (rule in_lock_at [of False]) simp
  have 4: "spin_step ?s3 ?s4" by (rule in_lock_at [of False]) simp
  have "spin_reachable ?s4" using 0 1 2 3 4 by (blast intro: spin_reachable.step)
  moreover have "\<not> locks_again ?s4 d" for d by (simp add: locks_again_def spin_init_def)
  ultimately show ?thesis using spinner_can_enter [of ?s4 4 True "[]"] by (simp add: spin_init_def)
qed

text \<open>C27: a context that calls \<^verbatim>\<open>lock\<close> while it holds the guard never gets out of the call, whatever the others do, and the lock is never
  free again: masking interrupts protects from handlers, not from the holder itself.\<close>

theorem locking_again_hangs:
  assumes "spin_reachable s" and "contexts s c = Again r p # ps" and "further_lock p" and "spin_steps s s'"
  shows "\<exists>p'. contexts s' c = Again r p' # ps \<and> further_lock p' \<and> locked s'"
proof -
  have "spin_inv s' \<and> (\<exists>p'. contexts s' c = Again r p' # ps \<and> further_lock p')"
    using assms(4) unfolding spin_steps_def
  proof (induction rule: rtranclp_induct)
    case base
    then show ?case using assms(1-3) spin_reachable_inv by blast
  next
    case (step s1 s2)
    then show ?case using spin_step_inv stuck_step by blast
  qed
  then show ?thesis using holding_locked [of s' c] by auto
qed

lemma locking_again_hangs_witness:
  "\<exists>p'. contexts (put_view (spin_init (\<lambda>_. True)) 3 (Again True (Lock_Cas False), False, True)) 3 = [Again True p'] \<and> further_lock p'"
proof -
  let ?s0 = "put_view (spin_init (\<lambda>_. True)) 3 (Held True, False, True)"
  let ?s1 = "put_view ?s0 3 (Again True Lock_Entry, False, True)" and ?s2 = "put_view ?s0 3 (Again True (Lock_Disable False), False, True)"
  let ?s3 = "put_view ?s0 3 (Again True (Lock_Cas False), False, True)"
  have "spin_steps (spin_init (\<lambda>_. True)) ?s0"
    using lock_uncontended [of "spin_init (\<lambda>_. True)" 3 "[]"] by (simp add: spin_init_def)
  then have "spin_reachable ?s0" by (rule spin_reachable_steps [OF spin_reachable.start])
  moreover have "spin_step ?s0 ?s1" using call_lock_again [of ?s0 3 True "[]"] by (simp add: spin_init_def)
  ultimately have 1: "spin_reachable ?s1" by (rule spin_reachable.step)
  have "spin_step ?s1 ?s2"
    using in_again [OF contexts_put_view, of False ?s0 3 "Again True Lock_Entry" False True "(Again True (Lock_Disable False), False, True)"] by simp
  moreover have "spin_step ?s2 ?s3"
    using in_again [OF contexts_put_view, of False ?s0 3 "Again True (Lock_Disable False)" False True "(Again True (Lock_Cas False), False, True)"] by simp
  ultimately have 2: "spin_steps ?s1 ?s3" unfolding spin_steps_def by (meson converse_rtranclp_into_rtranclp r_into_rtranclp)
  have "contexts ?s1 3 = [Again True Lock_Entry]" by (simp add: spin_init_def)
  from locking_again_hangs [OF 1 this _ 2] show ?thesis by simp
qed

end
