(* ===== verification/Input_Queue.thy ===== *)
theory Input_Queue
  imports Bounded_Fifo
begin

text \<open>
  The queue of input events: \<^verbatim>\<open>kernel/src/input/queue.rs\<close>.

  The circular buffer has 256 slots of type \<^verbatim>\<open>Option<InputEvent>\<close>; an event is any value of
  the type \<open>'e\<close>. A step is \<open>None\<close> where an index is out of range or a counter would overflow, that
  is where the code panics. \<open>input_state\<close> adds the global counter \<^verbatim>\<open>TOTAL_EVENTS\<close>, an
  \<^verbatim>\<open>AtomicU64\<close> whose \<open>fetch_add\<close> wraps.
\<close>

abbreviation queue_capacity :: nat where
  "queue_capacity \<equiv> 256"

record 'e event_queue =
  buffer :: "'e option list"
  eq_head :: usize
  eq_tail :: usize
  eq_count :: usize
  eq_dropped :: u64

definition new_queue :: "'e event_queue" where
  "new_queue = \<lparr>buffer = replicate queue_capacity None, eq_head = 0, eq_tail = 0, eq_count = 0, eq_dropped = 0\<rparr>"

definition queue_push :: "'e event_queue \<Rightarrow> 'e \<Rightarrow> ('e event_queue \<times> bool) option" where
  "queue_push q event =
     (if queue_capacity \<le> eq_count q
      then Some (q\<lparr>eq_dropped := eq_dropped q + 1\<rparr>, False)
      else if eq_tail q < length (buffer q)
      then
        (case (usize_add (eq_tail q) 1, usize_add (eq_count q) 1) of
           (Some t, Some c) \<Rightarrow>
             Some (q\<lparr>buffer := (buffer q)[eq_tail q := Some event],
                     eq_tail := t mod queue_capacity, eq_count := c\<rparr>, True)
         | _ \<Rightarrow> None)
      else None)"

definition queue_pop :: "'e event_queue \<Rightarrow> ('e event_queue \<times> 'e option) option" where
  "queue_pop q =
     (if eq_count q = 0 then Some (q, None)
      else if eq_head q < length (buffer q)
      then
        (case usize_add (eq_head q) 1 of
           None \<Rightarrow> None
         | Some h \<Rightarrow>
             Some (q\<lparr>buffer := (buffer q)[eq_head q := None], eq_head := h mod queue_capacity,
                     eq_count := eq_count q - 1\<rparr>, buffer q ! eq_head q))
      else None)"

definition queue_len :: "'e event_queue \<Rightarrow> usize" where
  "queue_len q = eq_count q"

definition queue_is_empty :: "'e event_queue \<Rightarrow> bool" where
  "queue_is_empty q \<longleftrightarrow> eq_count q = 0"

definition dropped_count :: "'e event_queue \<Rightarrow> u64" where
  "dropped_count q = eq_dropped q"

record 'e input_state =
  global_queue :: "'e event_queue"
  total_events :: u64

definition push_event :: "'e input_state \<Rightarrow> 'e \<Rightarrow> ('e input_state \<times> bool) option" where
  "push_event s event =
     (case queue_push (global_queue s) event of
        None \<Rightarrow> None
      | Some (q, ok) \<Rightarrow> Some (\<lparr>global_queue = q, total_events = total_events s + 1\<rparr>, ok))"

definition pop_event :: "'e input_state \<Rightarrow> ('e input_state \<times> 'e option) option" where
  "pop_event s =
     (case queue_pop (global_queue s) of
        None \<Rightarrow> None
      | Some (q, e) \<Rightarrow> Some (s\<lparr>global_queue := q\<rparr>, e))"

definition has_events :: "'e input_state \<Rightarrow> bool" where
  "has_events s \<longleftrightarrow> \<not> queue_is_empty (global_queue s)"

subsection \<open>Invariant and abstraction\<close>

definition slot :: "'e event_queue \<Rightarrow> nat \<Rightarrow> 'e option" where
  "slot q i = buffer q ! ((eq_head q + i) mod queue_capacity)"

definition ring_inv :: "'e event_queue \<Rightarrow> bool" where
  "ring_inv q \<longleftrightarrow>
     length (buffer q) = queue_capacity \<and> eq_head q < queue_capacity \<and> eq_count q \<le> queue_capacity \<and>
     eq_tail q = (eq_head q + eq_count q) mod queue_capacity \<and>
     (\<forall>i < queue_capacity. slot q i \<noteq> None \<longleftrightarrow> i < eq_count q)"

definition ring_items :: "'e event_queue \<Rightarrow> 'e list" where
  "ring_items q = map (\<lambda>i. the (slot q i)) [0..<eq_count q]"

text \<open>The operations as total functions; the lemmas below show that no state of a run panics.\<close>

definition ring_push :: "'e event_queue \<Rightarrow> 'e \<Rightarrow> 'e event_queue \<times> bool" where
  "ring_push q e = (case queue_push q e of None \<Rightarrow> (q, False) | Some r \<Rightarrow> r)"

definition ring_pop :: "'e event_queue \<Rightarrow> 'e event_queue \<times> 'e option" where
  "ring_pop q = (case queue_pop q of None \<Rightarrow> (q, None) | Some r \<Rightarrow> r)"

fun run_events :: "'e input_state \<Rightarrow> 'e queue_op list \<Rightarrow> ('e input_state \<times> 'e list \<times> 'e list) option" where
  "run_events s [] = Some (s, [], [])"
| "run_events s (Push e # ops) =
     (case push_event s e of
        None \<Rightarrow> None
      | Some (s', ok) \<Rightarrow>
          map_option (\<lambda>(s'', taken, popped). (s'', (if ok then e # taken else taken), popped)) (run_events s' ops))"
| "run_events s (Pop # ops) =
     (case pop_event s of
        None \<Rightarrow> None
      | Some (s', r) \<Rightarrow>
          map_option (\<lambda>(s'', taken, popped). (s'', taken, (case r of None \<Rightarrow> popped | Some e \<Rightarrow> e # popped)))
            (run_events s' ops))"

subsection \<open>The ring buffer is a bounded queue\<close>

lemma mod_ring_wrap:
  assumes "h < (256::nat)" and "i \<le> 256"
  shows "(h + i) mod 256 = (if h + i < 256 then h + i else h + i - 256)"
  using assms by (simp add: mod_if)

lemma mod_ring_eq:
  assumes "h < (256::nat)" and "i < 256" and "j < 256"
  shows "(h + i) mod 256 = (h + j) mod 256 \<longleftrightarrow> i = j"
  using assms by (simp add: mod_ring_wrap) linarith

lemma length_ring_items [simp]: "length (ring_items q) = eq_count q"
  by (simp add: ring_items_def)

lemma new_queue_inv: "ring_inv new_queue" and new_queue_items: "ring_items new_queue = []"
  by (simp_all add: ring_inv_def new_queue_def slot_def ring_items_def)

lemma queue_push_full:
  assumes "ring_inv q" and "eq_count q = queue_capacity"
  shows "queue_push q e = Some (q\<lparr>eq_dropped := eq_dropped q + 1\<rparr>, False)"
    and "ring_inv (q\<lparr>eq_dropped := eq_dropped q + 1\<rparr>)"
    and "ring_items (q\<lparr>eq_dropped := eq_dropped q + 1\<rparr>) = ring_items q"
  using assms by (simp_all add: queue_push_def ring_inv_def slot_def ring_items_def)

lemma queue_push_room:
  assumes inv: "ring_inv q" and room: "eq_count q < queue_capacity"
  shows "\<exists>q'. queue_push q e = Some (q', True) \<and> ring_inv q' \<and> ring_items q' = ring_items q @ [e]"
proof -
  let ?q = "q\<lparr>buffer := (buffer q)[eq_tail q := Some e], eq_tail := (eq_tail q + 1) mod queue_capacity,
      eq_count := eq_count q + 1\<rparr>"
  have t: "eq_tail q < queue_capacity" "length (buffer q) = queue_capacity" "eq_head q < queue_capacity"
    and tail: "eq_tail q = (eq_head q + eq_count q) mod queue_capacity"
    and occ: "\<forall>i < queue_capacity. slot q i \<noteq> None \<longleftrightarrow> i < eq_count q"
    using inv by (simp_all add: ring_inv_def)
  have push: "queue_push q e = Some (?q, True)"
    using room t by (simp add: queue_push_def usize_add_def)
  have slots: "slot ?q i = (if i = eq_count q then Some e else slot q i)" if "i < queue_capacity" for i
    using that t room mod_ring_eq [OF t(3) that room] by (auto simp: slot_def tail)
  have "ring_inv ?q"
    using t room occ slots by (auto simp: ring_inv_def tail mod_Suc_eq)
  moreover have "ring_items ?q = ring_items q @ [e]"
    using slots room by (simp add: ring_items_def)
  ultimately show ?thesis using push by blast
qed

lemma queue_pop_empty: "eq_count q = 0 \<Longrightarrow> queue_pop q = Some (q, None)"
  by (simp add: queue_pop_def)

lemma queue_pop_item:
  assumes inv: "ring_inv q" and some: "0 < eq_count q"
  shows "\<exists>q' x. queue_pop q = Some (q', Some x) \<and> ring_inv q' \<and> ring_items q = x # ring_items q'"
proof -
  let ?q = "q\<lparr>buffer := (buffer q)[eq_head q := None], eq_head := (eq_head q + 1) mod queue_capacity,
      eq_count := eq_count q - 1\<rparr>"
  have t: "length (buffer q) = queue_capacity" "eq_head q < queue_capacity" "eq_count q \<le> queue_capacity"
    and tail: "eq_tail q = (eq_head q + eq_count q) mod queue_capacity"
    and occ: "\<forall>i < queue_capacity. slot q i \<noteq> None \<longleftrightarrow> i < eq_count q"
    using inv by (simp_all add: ring_inv_def)
  have "slot q 0 \<noteq> None" using occ some by simp
  then obtain x where x: "buffer q ! eq_head q = Some x" using t(2) by (auto simp: slot_def)
  have pop: "queue_pop q = Some (?q, Some x)"
    using some t x by (simp add: queue_pop_def usize_add_def)
  have idx: "(Suc (eq_head q) mod queue_capacity + i) mod queue_capacity = Suc (eq_head q + i) mod queue_capacity"
    for i by (simp add: mod_simps)
  have slots: "slot ?q i = (if i = 255 then None else slot q (Suc i))" if "i < queue_capacity" for i
  proof -
    have "(eq_head q + Suc i) mod queue_capacity = eq_head q \<longleftrightarrow> i = 255"
      using that t(2) mod_ring_wrap [of "eq_head q" "Suc i"] by auto
    moreover have "(eq_head q + Suc i) mod queue_capacity < queue_capacity" by simp
    ultimately show ?thesis using t(1,2) by (cases "i = 255") (auto simp: slot_def idx)
  qed
  have "ring_inv ?q"
  proof -
    obtain c where "eq_count q = Suc c" using some by (cases "eq_count q") auto
    then show ?thesis using t occ slots tail by (auto simp: ring_inv_def idx)
  qed
  moreover have "ring_items q = x # ring_items ?q"
  proof -
    obtain c where c: "eq_count q = Suc c" using some by (cases "eq_count q") auto
    have "[0..<Suc c] = 0 # map Suc [0..<c]" by (simp add: map_Suc_upt upt_conv_Cons del: upt_Suc)
    then have "ring_items q = the (slot q 0) # map (\<lambda>i. the (slot q (Suc i))) [0..<eq_count q - 1]"
      by (simp add: ring_items_def c comp_def del: upt_Suc)
    moreover have "map (\<lambda>i. the (slot q (Suc i))) [0..<eq_count q - 1] = ring_items ?q"
      using slots t(3) by (auto simp: ring_items_def)
    ultimately show ?thesis using x t(2) by (simp add: slot_def)
  qed
  ultimately show ?thesis using pop by blast
qed

lemma ring_push_cases:
  assumes "ring_inv q"
  shows "\<exists>q' ok. queue_push q e = Some (q', ok) \<and> ring_push q e = (q', ok) \<and> ring_inv q' \<and>
    ok = (eq_count q < queue_capacity) \<and> ring_items q' = ring_items q @ (if ok then [e] else [])"
proof (cases "eq_count q < queue_capacity")
  case True
  with queue_push_room [OF assms] show ?thesis by (fastforce simp: ring_push_def)
next
  case False
  then have "eq_count q = queue_capacity" using assms by (simp add: ring_inv_def)
  with queue_push_full [OF assms] show ?thesis by (auto simp: ring_push_def)
qed

lemma ring_pop_cases:
  assumes "ring_inv q"
  shows "\<exists>q' r. queue_pop q = Some (q', r) \<and> ring_pop q = (q', r) \<and> ring_inv q' \<and>
    (case r of None \<Rightarrow> ring_items q = [] \<and> q' = q | Some x \<Rightarrow> ring_items q = x # ring_items q')"
proof (cases "eq_count q = 0")
  case True
  then show ?thesis using assms by (simp add: ring_pop_def queue_pop_empty ring_items_def)
next
  case False
  with queue_pop_item [OF assms] show ?thesis by (fastforce simp: ring_pop_def)
qed

interpretation ring: bounded_fifo ring_push ring_pop ring_items ring_inv queue_capacity "\<lambda>_. True"
proof unfold_locales
  fix q :: "'a event_queue" and x
  assume q: "ring_inv q"
  from ring_push_cases [OF q, of x] show "ring_inv (fst (ring_push q x))"
    and "snd (ring_push q x) \<longleftrightarrow> True \<and> length (ring_items q) < queue_capacity"
    and "ring_items (fst (ring_push q x)) = ring_items q @ (if snd (ring_push q x) then [x] else [])"
    by auto
  from ring_pop_cases [OF q] show "ring_inv (fst (ring_pop q))" by auto
  show "length (ring_items q) \<le> queue_capacity" using q by (simp add: ring_inv_def)
next
  fix q :: "'a event_queue"
  assume "ring_inv q" and "ring_items q = []"
  moreover from ring_pop_cases [OF this(1)] obtain q' r where
    "ring_pop q = (q', r)" "case r of None \<Rightarrow> q' = q | Some y \<Rightarrow> ring_items q = y # ring_items q'"
    by (fastforce split: option.splits)
  ultimately show "snd (ring_pop q) = None \<and> ring_items (fst (ring_pop q)) = []"
    by (cases r) auto
next
  fix q :: "'a event_queue" and x xs
  assume "ring_inv q" and "ring_items q = x # xs"
  moreover from ring_pop_cases [OF this(1)] obtain q' r where
    "ring_pop q = (q', r)" "case r of None \<Rightarrow> ring_items q = [] | Some y \<Rightarrow> ring_items q = y # ring_items q'"
    by (fastforce split: option.splits)
  ultimately show "snd (ring_pop q) = Some x \<and> ring_items (fst (ring_pop q)) = xs"
    by (cases r) auto
qed

lemma run_events_run_queue:
  assumes "ring_inv (global_queue s)"
  shows "\<exists>s'. run_events s ops = Some (s', snd (run_queue ring_push ring_pop (global_queue s) ops)) \<and>
    global_queue s' = fst (run_queue ring_push ring_pop (global_queue s) ops)"
  using assms
proof (induction ops arbitrary: s)
  case (Cons op ops)
  show ?case
  proof (cases op)
    case (Push e)
    from ring_push_cases [OF Cons.prems, of e] obtain q' ok where
      "queue_push (global_queue s) e = Some (q', ok)" "ring_push (global_queue s) e = (q', ok)" "ring_inv q'"
      by blast
    moreover obtain q2 t u where "run_queue ring_push ring_pop q' ops = (q2, t, u)"
      by (metis prod_cases3)
    ultimately show ?thesis
      using Cons.IH [of "\<lparr>global_queue = q', total_events = total_events s + 1\<rparr>"] Push
      by (auto simp: push_event_def)
  next
    case Pop
    from ring_pop_cases [OF Cons.prems] obtain q' r where
      "queue_pop (global_queue s) = Some (q', r)" "ring_pop (global_queue s) = (q', r)" "ring_inv q'"
      by blast
    moreover obtain q2 t u where "run_queue ring_push ring_pop q' ops = (q2, t, u)"
      by (metis prod_cases3)
    ultimately show ?thesis using Cons.IH [of "s\<lparr>global_queue := q'\<rparr>"] Pop
      by (auto simp: pop_event_def)
  qed
qed simp

subsection \<open>Properties\<close>

text \<open>C20: any sequence of pushes and pops on the global input queue runs without a panic, the events come
  out in the order in which they were taken with none lost, repeated or overwritten, and at most 256 wait.\<close>

theorem input_events_fifo:
  "\<exists>s taken popped. run_events \<lparr>global_queue = new_queue, total_events = 0\<rparr> ops = Some (s, taken, popped) \<and>
     taken = popped @ ring_items (global_queue s) \<and> queue_len (global_queue s) = length taken - length popped \<and>
     queue_len (global_queue s) \<le> queue_capacity \<and> (has_events s \<longleftrightarrow> length popped < length taken)"
proof -
  obtain q' taken popped where r: "run_queue ring_push ring_pop new_queue ops = (q', taken, popped)"
    by (metis prod_cases3)
  obtain s where s: "run_events \<lparr>global_queue = new_queue, total_events = 0\<rparr> ops = Some (s, taken, popped)"
    "global_queue s = q'"
    using run_events_run_queue [of "\<lparr>global_queue = new_queue, total_events = 0\<rparr>" ops] new_queue_inv r by auto
  have f: "taken = popped @ ring_items q'" and b: "length (ring_items q') \<le> queue_capacity"
    using ring.run_queue_fifo [OF new_queue_inv r] ring.run_queue_bound [OF new_queue_inv r]
    by (simp_all add: new_queue_items)
  have "length taken = length popped + eq_count q'" using f by simp
  then show ?thesis using s f b by (auto simp: queue_len_def has_events_def queue_is_empty_def)
qed

end
