(* ===== verification/Syscall_Abi.thy ===== *)
theory Syscall_Abi
  imports Prelude
begin

text \<open>
  The system call contract: \<^verbatim>\<open>kernel/src/syscall/mod.rs\<close>. Numbers, error codes
  (negative \<open>i64\<close> values read as \<open>u64\<close>), limits, and the check of user pointers.
\<close>

definition SYS_EXIT :: u64 where "SYS_EXIT = 1"
definition SYS_WRITE :: u64 where "SYS_WRITE = 2"
definition SYS_READ :: u64 where "SYS_READ = 3"
definition SYS_YIELD :: u64 where "SYS_YIELD = 4"
definition SYS_GETPID :: u64 where "SYS_GETPID = 5"
definition SYS_MMAP :: u64 where "SYS_MMAP = 6"
definition SYS_MUNMAP :: u64 where "SYS_MUNMAP = 7"
definition SYS_SPAWN :: u64 where "SYS_SPAWN = 8"
definition SYS_WAITPID :: u64 where "SYS_WAITPID = 9"
definition SYS_CHANNEL_CREATE :: u64 where "SYS_CHANNEL_CREATE = 10"
definition SYS_CHANNEL_SEND :: u64 where "SYS_CHANNEL_SEND = 11"
definition SYS_CHANNEL_RECV :: u64 where "SYS_CHANNEL_RECV = 12"
definition SYS_FS_LIST :: u64 where "SYS_FS_LIST = 13"
definition SYS_FS_READFILE :: u64 where "SYS_FS_READFILE = 14"
definition SYS_SYSINFO :: u64 where "SYS_SYSINFO = 15"
definition SYS_LAUNCH_DESKTOP :: u64 where "SYS_LAUNCH_DESKTOP = 16"
definition SYSCALL_COUNT :: u64 where "SYSCALL_COUNT = 17"

definition EPERM :: u64 where "EPERM = - 1"
definition ENOENT :: u64 where "ENOENT = - 2"
definition ESRCH :: u64 where "ESRCH = - 3"
definition EIO :: u64 where "EIO = - 5"
definition EAGAIN :: u64 where "EAGAIN = - 11"
definition ENOMEM :: u64 where "ENOMEM = - 12"
definition EFAULT :: u64 where "EFAULT = - 14"
definition EINVAL :: u64 where "EINVAL = - 22"
definition ENOSYS :: u64 where "ENOSYS = - 38"

lemmas errno_defs =
  EPERM_def ENOENT_def ESRCH_def EIO_def EAGAIN_def ENOMEM_def EFAULT_def EINVAL_def ENOSYS_def

lemmas syscall_numbers =
  SYS_EXIT_def SYS_WRITE_def SYS_READ_def SYS_YIELD_def SYS_GETPID_def SYS_MMAP_def SYS_MUNMAP_def
  SYS_SPAWN_def SYS_WAITPID_def SYS_CHANNEL_CREATE_def SYS_CHANNEL_SEND_def SYS_CHANNEL_RECV_def
  SYS_FS_LIST_def SYS_FS_READFILE_def SYS_SYSINFO_def SYS_LAUNCH_DESKTOP_def

definition MAX_BUFFER_SIZE :: u64 where "MAX_BUFFER_SIZE = 4096"

text \<open>The x86-64 split: the kernel image and the physical map start at 1 TiB.\<close>

definition USER_ADDRESS_LIMIT :: u64 where "USER_ADDRESS_LIMIT = 0x10000000000"

definition validate_user_ptr :: "u64 \<Rightarrow> u64 \<Rightarrow> u64 + unit" where
  "validate_user_ptr ptr len =
     (if ptr = 0 then Inl EFAULT
      else
        (case checked_add_w ptr len of
           None \<Rightarrow> Inl EFAULT
         | Some e \<Rightarrow> if USER_ADDRESS_LIMIT < e then Inl EFAULT else Inr ()))"

definition validate_user_buffer :: "u64 \<Rightarrow> u64 \<Rightarrow> bool" where
  "validate_user_buffer ptr len = is_ok (validate_user_ptr ptr len)"

lemma validate_user_buffer_iff:
  "validate_user_buffer ptr len \<longleftrightarrow> ptr \<noteq> 0 \<and> unat ptr + unat len \<le> unat USER_ADDRESS_LIMIT"
proof -
  have l: "unat USER_ADDRESS_LIMIT = 2 ^ 40" by (simp add: USER_ADDRESS_LIMIT_def)
  show ?thesis
  proof (cases "checked_add_w ptr len")
    case None
    moreover from None have "2 ^ 64 \<le> unat ptr + unat len" by (simp add: checked_add_w_None)
    ultimately show ?thesis
      using l by (simp add: validate_user_buffer_def validate_user_ptr_def)
  next
    case (Some e)
    then have "unat e = unat ptr + unat len" by (simp add: rust_arith)
    then show ?thesis
      using Some by (auto simp: validate_user_buffer_def validate_user_ptr_def word_less_nat_alt)
  qed
qed

end
