(* ===== verification/Ipc_Channel.thy ===== *)
theory Ipc_Channel
  imports Bounded_Fifo Syscall_Abi
begin

text \<open>
  IPC channels: \<^verbatim>\<open>kernel/src/ipc/channel.rs\<close>.

  A channel is a bounded queue of messages; the registry maps channel ids to channels and
  \<open>next_channel_id\<close> is the atomic counter that wraps. A receive writes into the caller's buffer,
  which is an argument and a result of the model. A process is named by the \<open>u64\<close> the
  caller passes.
\<close>

abbreviation max_message_size :: nat where
  "max_message_size \<equiv> 1024"

abbreviation max_channel_messages :: nat where
  "max_channel_messages \<equiv> 32"

record ipc_message =
  sender_pid :: u64
  msg_data :: "u8 list"

record ipc_channel =
  chan_id :: u64
  messages :: "ipc_message list"
  max_messages :: usize
  waiting_receiver :: "u64 option"

definition new_channel :: "u64 \<Rightarrow> ipc_channel" where
  "new_channel i = \<lparr>chan_id = i, messages = [], max_messages = max_channel_messages, waiting_receiver = None\<rparr>"

definition chan_send :: "ipc_channel \<Rightarrow> u64 \<Rightarrow> u8 list \<Rightarrow> ipc_channel \<times> (u64 + usize)" where
  "chan_send c pid data =
     (if max_message_size < length data then (c, Inl EINVAL)
      else if max_messages c \<le> length (messages c) then (c, Inl EAGAIN)
      else (c\<lparr>messages := messages c @ [\<lparr>sender_pid = pid, msg_data = data\<rparr>]\<rparr>, Inr (length data)))"

definition chan_recv :: "ipc_channel \<Rightarrow> u64 \<Rightarrow> u8 list \<Rightarrow> ipc_channel \<times> u8 list \<times> (u64 + usize)" where
  "chan_recv c pid out =
     (case messages c of
        msg # rest \<Rightarrow>
          let copy_len = min (length (msg_data msg)) (length out)
          in (c\<lparr>messages := rest\<rparr>, take copy_len (msg_data msg) @ drop copy_len out, Inr copy_len)
      | [] \<Rightarrow> (c, out, Inl EAGAIN))"

record channel_registry =
  channels :: "u64 \<rightharpoonup> ipc_channel"
  next_channel_id :: u64

definition new_registry :: channel_registry where
  "new_registry = \<lparr>channels = Map.empty, next_channel_id = 1\<rparr>"

definition create_channel :: "channel_registry \<Rightarrow> channel_registry \<times> (u64 + u64)" where
  "create_channel reg =
     (let i = next_channel_id reg;
          reg' = reg\<lparr>next_channel_id := i + 1\<rparr>
      in if i \<in> dom (channels reg) then (reg', Inl ENOMEM)
         else (reg'\<lparr>channels := (channels reg)(i \<mapsto> new_channel i)\<rparr>, Inr i))"

definition send_message ::
  "channel_registry \<Rightarrow> u64 \<Rightarrow> u64 \<Rightarrow> u8 list \<Rightarrow> channel_registry \<times> (u64 + usize)" where
  "send_message reg i pid data =
     (case channels reg i of
        None \<Rightarrow> (reg, Inl ENOENT)
      | Some chan \<Rightarrow>
          let (chan', r) = chan_send chan pid data
          in (reg\<lparr>channels := (channels reg)(i \<mapsto> chan')\<rparr>, r))"

definition recv_message ::
  "channel_registry \<Rightarrow> u64 \<Rightarrow> u64 \<Rightarrow> u8 list \<Rightarrow> channel_registry \<times> u8 list \<times> (u64 + usize)" where
  "recv_message reg i pid out =
     (case channels reg i of
        None \<Rightarrow> (reg, out, Inl ENOENT)
      | Some chan \<Rightarrow>
          let (chan', out', r) = chan_recv chan pid out
          in (reg\<lparr>channels := (channels reg)(i \<mapsto> chan')\<rparr>, out', r))"

definition active_channel_count :: "channel_registry \<Rightarrow> nat" where
  "active_channel_count reg = card (dom (channels reg))"

subsection \<open>Sequences of operations\<close>

datatype ipc_op = Create | Send u64 u64 "u8 list" | Recv u64 u64 "u8 list"

datatype ipc_event =
    Created u64
  | Sent u64 u64 "u8 list"
  | Received u64 "u8 list" usize
  | Failed ipc_op u64

definition ipc_step :: "channel_registry \<Rightarrow> ipc_op \<Rightarrow> channel_registry \<times> ipc_event" where
  "ipc_step reg op =
     (case op of
        Create \<Rightarrow>
          (case create_channel reg of
             (reg', Inl e) \<Rightarrow> (reg', Failed op e)
           | (reg', Inr i) \<Rightarrow> (reg', Created i))
      | Send i pid data \<Rightarrow>
          (case send_message reg i pid data of
             (reg', Inl e) \<Rightarrow> (reg', Failed op e)
           | (reg', Inr n) \<Rightarrow> (reg', Sent i pid data))
      | Recv i pid out \<Rightarrow>
          (case recv_message reg i pid out of
             (reg', out', Inl e) \<Rightarrow> (reg', Failed op e)
           | (reg', out', Inr n) \<Rightarrow> (reg', Received i out' n)))"

fun ipc_run :: "channel_registry \<Rightarrow> ipc_op list \<Rightarrow> channel_registry \<times> ipc_event list" where
  "ipc_run reg [] = (reg, [])"
| "ipc_run reg (op # ops) =
     (let (reg', ev) = ipc_step reg op; (reg'', evs) = ipc_run reg' ops in (reg'', ev # evs))"

text \<open>What was sent on a channel, and what the buffers of its receivers were given.\<close>

fun sent_on :: "u64 \<Rightarrow> ipc_event list \<Rightarrow> ipc_message list" where
  "sent_on i [] = []"
| "sent_on i (Sent j pid data # evs) =
     (if i = j then \<lparr>sender_pid = pid, msg_data = data\<rparr> # sent_on i evs else sent_on i evs)"
| "sent_on i (ev # evs) = sent_on i evs"

fun received_on :: "u64 \<Rightarrow> ipc_event list \<Rightarrow> (u8 list \<times> usize) list" where
  "received_on i [] = []"
| "received_on i (Received j out n # evs) = (if i = j then (out, n) # received_on i evs else received_on i evs)"
| "received_on i (ev # evs) = received_on i evs"

text \<open>A receiver with a buffer of \<open>length out\<close> bytes gets the message, cut to the buffer.\<close>

definition delivers :: "ipc_message \<Rightarrow> u8 list \<times> usize \<Rightarrow> bool" where
  "delivers msg r \<longleftrightarrow>
     snd r = min (length (msg_data msg)) (length (fst r)) \<and> take (snd r) (fst r) = take (snd r) (msg_data msg)"

definition queued :: "channel_registry \<Rightarrow> u64 \<Rightarrow> ipc_message list" where
  "queued reg i = (case channels reg i of None \<Rightarrow> [] | Some c \<Rightarrow> messages c)"

definition chan_ok :: "ipc_channel \<Rightarrow> bool" where
  "chan_ok c \<longleftrightarrow> max_messages c = max_channel_messages \<and> length (messages c) \<le> max_channel_messages \<and>
     (\<forall>m\<in>set (messages c). length (msg_data m) \<le> max_message_size)"

definition registry_ok :: "channel_registry \<Rightarrow> bool" where
  "registry_ok reg \<longleftrightarrow> (\<forall>i c. channels reg i = Some c \<longrightarrow> chan_id c = i \<and> chan_ok c)"

text \<open>A channel as a queue of the contract: an item is a message, a pop is a receive with a full buffer.\<close>

definition chan_push :: "ipc_channel \<Rightarrow> ipc_message \<Rightarrow> ipc_channel \<times> bool" where
  "chan_push c m = (case chan_send c (sender_pid m) (msg_data m) of (c', r) \<Rightarrow> (c', is_ok r))"

definition chan_pop :: "ipc_channel \<Rightarrow> ipc_channel \<times> ipc_message option" where
  "chan_pop c = (fst (chan_recv c 0 []), case messages c of [] \<Rightarrow> None | m # _ \<Rightarrow> Some m)"

interpretation chan: bounded_fifo chan_push chan_pop messages chan_ok max_channel_messages
  "\<lambda>m. length (msg_data m) \<le> max_message_size"
  by unfold_locales
    (auto simp: chan_push_def chan_pop_def chan_send_def chan_recv_def chan_ok_def Let_def split: list.splits)

lemma chan_send_push:
  "chan_send c pid data = (c', r) \<Longrightarrow>
     chan_push c \<lparr>sender_pid = pid, msg_data = data\<rparr> = (c', is_ok r)"
  by (simp add: chan_push_def)

lemma chan_recv_pop:
  "chan_recv c pid out = (c', out', r) \<Longrightarrow>
     fst (chan_pop c) = c' \<and> (is_ok r \<longleftrightarrow> snd (chan_pop c) \<noteq> None) \<and>
     (\<forall>m n. snd (chan_pop c) = Some m \<longrightarrow> r = Inr n \<longrightarrow> delivers m (out', n))"
  by (auto simp: chan_pop_def chan_recv_def Let_def delivers_def split: list.splits)

lemma chan_recv_cases:
  assumes "chan_recv c pid out = (c', out', r)"
  shows "(\<exists>m rest. messages c = m # rest \<and> messages c' = rest \<and> (\<exists>n. r = Inr n \<and> delivers m (out', n))) \<or>
    (messages c = [] \<and> c' = c \<and> out' = out \<and> r = Inl EAGAIN)"
  using assms by (auto simp: chan_recv_def Let_def delivers_def split: list.splits)

lemma chan_send_cases:
  assumes "chan_send c pid data = (c', r)"
  shows "(r = Inr (length data) \<and> messages c' = messages c @ [\<lparr>sender_pid = pid, msg_data = data\<rparr>]) \<or>
    ((\<exists>e. r = Inl e) \<and> c' = c)"
  using assms by (auto simp: chan_send_def split: if_splits)

lemma registry_ok_upd:
  "registry_ok reg \<Longrightarrow> chan_id c = i \<Longrightarrow> chan_ok c \<Longrightarrow> registry_ok (reg\<lparr>channels := (channels reg)(i \<mapsto> c)\<rparr>)"
  by (simp add: registry_ok_def)

lemma chan_send_id: "chan_send c pid data = (c', r) \<Longrightarrow> chan_id c' = chan_id c"
  by (auto simp: chan_send_def split: if_splits)

lemma chan_recv_id: "chan_recv c pid out = (c', out', r) \<Longrightarrow> chan_id c' = chan_id c"
  by (auto simp: chan_recv_def Let_def split: list.splits)

lemma chan_send_ok: "chan_ok c \<Longrightarrow> chan_send c pid data = (c', r) \<Longrightarrow> chan_ok c'"
  using chan.push_invar [of c "\<lparr>sender_pid = pid, msg_data = data\<rparr>"] by (simp add: chan_send_push)

lemma chan_recv_ok: "chan_ok c \<Longrightarrow> chan_recv c pid out = (c', out', r) \<Longrightarrow> chan_ok c'"
  using chan.pop_invar [of c] chan_recv_pop [of c pid out c' out' r] by simp

lemma ipc_step_ok: "registry_ok reg \<Longrightarrow> registry_ok (fst (ipc_step reg op))"
proof (cases op)
  case Create
  assume "registry_ok reg"
  then show ?thesis
    by (auto simp: Create ipc_step_def create_channel_def Let_def registry_ok_def new_channel_def chan_ok_def)
next
  case (Send i pid data)
  assume r: "registry_ok reg"
  show ?thesis
  proof (cases "channels reg i")
    case (Some c)
    obtain c' x where s: "chan_send c pid data = (c', x)" by fastforce
    then have "registry_ok (reg\<lparr>channels := (channels reg)(i \<mapsto> c')\<rparr>)"
      using r Some chan_send_ok [OF _ s] chan_send_id [OF s] by (intro registry_ok_upd) (auto simp: registry_ok_def)
    then show ?thesis using Send Some s by (cases x) (simp_all add: ipc_step_def send_message_def)
  qed (use Send r in \<open>simp add: ipc_step_def send_message_def\<close>)
next
  case (Recv i pid out)
  assume r: "registry_ok reg"
  show ?thesis
  proof (cases "channels reg i")
    case (Some c)
    obtain c' out' x where s: "chan_recv c pid out = (c', out', x)" by (metis prod_cases3)
    then have "registry_ok (reg\<lparr>channels := (channels reg)(i \<mapsto> c')\<rparr>)"
      using r Some chan_recv_ok [OF _ s] chan_recv_id [OF s] by (intro registry_ok_upd) (auto simp: registry_ok_def)
    then show ?thesis using Recv Some s by (cases x) (simp_all add: ipc_step_def recv_message_def)
  qed (use Recv r in \<open>simp add: ipc_step_def recv_message_def\<close>)
qed

lemma ipc_run_ok: "registry_ok reg \<Longrightarrow> registry_ok (fst (ipc_run reg ops))"
  by (induction ops arbitrary: reg) (auto simp: Let_def split_beta ipc_step_ok)

lemma ipc_step_queued:
  assumes "ipc_step reg op = (reg', ev)"
  shows "\<exists>gone. queued reg i @ sent_on i [ev] = gone @ queued reg' i \<and> list_all2 delivers gone (received_on i [ev])"
proof (cases op)
  case Create
  then show ?thesis
    using assms
    by (auto simp: ipc_step_def create_channel_def Let_def queued_def new_channel_def
        intro!: exI [of _ "[]"] split: if_splits)
next
  case (Send j pid data)
  show ?thesis
  proof (cases "channels reg j")
    case (Some c)
    obtain c' r where s: "chan_send c pid data = (c', r)" by fastforce
    from chan_send_cases [OF s] show ?thesis
      using assms Send Some s
      by (auto simp: ipc_step_def send_message_def queued_def intro!: exI [of _ "[]"])
  qed (use assms Send in \<open>auto simp: ipc_step_def send_message_def\<close>)
next
  case (Recv j pid out)
  show ?thesis
  proof (cases "channels reg j")
    case (Some c)
    obtain c' out' r where s: "chan_recv c pid out = (c', out', r)" by (metis prod_cases3)
    from chan_recv_cases [OF s] show ?thesis
      using assms Recv Some s
      by (auto simp: ipc_step_def recv_message_def queued_def
          intro!: exI [of _ "if i = j then take 1 (messages c) else []"])
  qed (use assms Recv in \<open>auto simp: ipc_step_def recv_message_def\<close>)
qed

lemma log_Cons:
  "sent_on i (ev # evs) = sent_on i [ev] @ sent_on i evs"
  "received_on i (ev # evs) = received_on i [ev] @ received_on i evs"
  by (cases ev; simp)+

lemma ipc_run_queued:
  assumes "ipc_run reg ops = (reg', evs)"
  shows "\<exists>gone. queued reg i @ sent_on i evs = gone @ queued reg' i \<and> list_all2 delivers gone (received_on i evs)"
  using assms
proof (induction ops arbitrary: reg evs)
  case (Cons op ops)
  obtain reg1 ev evs1 where s: "ipc_step reg op = (reg1, ev)" "ipc_run reg1 ops = (reg', evs1)" "evs = ev # evs1"
    using Cons.prems by (auto simp: Let_def split: prod.splits)
  obtain g where g: "queued reg i @ sent_on i [ev] = g @ queued reg1 i" "list_all2 delivers g (received_on i [ev])"
    using ipc_step_queued [OF s(1)] by blast
  obtain h where h: "queued reg1 i @ sent_on i evs1 = h @ queued reg' i" "list_all2 delivers h (received_on i evs1)"
    using Cons.IH [OF s(2)] by blast
  have "queued reg i @ sent_on i evs = (g @ h) @ queued reg' i"
  proof -
    have "queued reg i @ sent_on i evs = (queued reg i @ sent_on i [ev]) @ sent_on i evs1"
      by (subst s(3), subst log_Cons(1)) simp
    also have "\<dots> = g @ queued reg1 i @ sent_on i evs1" by (simp only: g(1) append_assoc)
    finally show ?thesis by (simp only: h(1) append_assoc)
  qed
  moreover have "list_all2 delivers (g @ h) (received_on i evs)"
    using g(2) h(2) unfolding s(3) log_Cons(2) [of i ev evs1] by (rule list_all2_appendI)
  ultimately show ?case by blast
qed simp

subsection \<open>Properties\<close>

text \<open>C12: in every history of creations, sends and receives over all channels and processes, each channel
  delivers the messages sent on it in order: what its receivers got are the oldest messages, each cut to the
  receiver's buffer, and what is still queued are the remaining ones, at most 32 of at most 1024 bytes.\<close>

theorem ipc_channels_deliver_in_order:
  "let (reg, evs) = ipc_run new_registry ops; n = length (received_on i evs)
   in list_all2 delivers (take n (sent_on i evs)) (received_on i evs) \<and>
      queued reg i = drop n (sent_on i evs) \<and>
      length (queued reg i) \<le> max_channel_messages \<and>
      list_all (\<lambda>m. length (msg_data m) \<le> max_message_size) (queued reg i)"
proof -
  obtain reg evs where r: "ipc_run new_registry ops = (reg, evs)" by fastforce
  have "queued new_registry i = []" by (simp add: queued_def new_registry_def)
  then obtain gone where gone: "sent_on i evs = gone @ queued reg i" "list_all2 delivers gone (received_on i evs)"
    using ipc_run_queued [OF r, of i] by auto
  have n: "length (received_on i evs) = length gone" using gone(2) by (simp add: list_all2_lengthD)
  have "registry_ok reg"
    using ipc_run_ok [of new_registry ops] r by (simp add: registry_ok_def new_registry_def)
  then have "length (queued reg i) \<le> max_channel_messages \<and>
      list_all (\<lambda>m. length (msg_data m) \<le> max_message_size) (queued reg i)"
    by (auto simp: registry_ok_def queued_def chan_ok_def list_all_iff split: option.splits)
  then show ?thesis using r gone n by simp
qed

text \<open>As long as the counter has not wrapped, a creation succeeds with an id that no channel had, and the
  new channel is empty while all others are as they were.\<close>

theorem create_channel_fresh:
  assumes "\<forall>i \<in> dom (channels reg). i < next_channel_id reg" and "next_channel_id reg \<noteq> - 1"
  shows "\<exists>reg'. create_channel reg = (reg', Inr (next_channel_id reg)) \<and> channels reg (next_channel_id reg) = None \<and>
    queued reg' (next_channel_id reg) = [] \<and> (\<forall>j. j \<noteq> next_channel_id reg \<longrightarrow> channels reg' j = channels reg j) \<and>
    (\<forall>i \<in> dom (channels reg'). i < next_channel_id reg')"
proof -
  have fresh: "next_channel_id reg \<notin> dom (channels reg)" using assms(1) by fastforce
  have "i < next_channel_id reg + 1" if "i \<le> next_channel_id reg" for i
  proof -
    have "next_channel_id reg < next_channel_id reg + 1" using assms(2) by (rule word_less_plus_1)
    then show ?thesis using that by order
  qed
  then have "\<forall>i \<in> insert (next_channel_id reg) (dom (channels reg)). i < next_channel_id reg + 1"
    using assms(1) by (auto dest: order.strict_implies_order)
  then show ?thesis using fresh
    by (auto simp: create_channel_def Let_def queued_def new_channel_def)
qed

lemma create_channel_fresh_witness:
  "\<exists>reg'. create_channel new_registry = (reg', Inr (next_channel_id new_registry)) \<and>
    channels new_registry (next_channel_id new_registry) = None \<and> queued reg' (next_channel_id new_registry) = [] \<and>
    (\<forall>j. j \<noteq> next_channel_id new_registry \<longrightarrow> channels reg' j = channels new_registry j) \<and>
    (\<forall>i \<in> dom (channels reg'). i < next_channel_id reg')"
  by (rule create_channel_fresh) (simp_all add: new_registry_def)

end
