(* ===== verification/Scheduler.thy ===== *)
theory Scheduler
  imports Rust_Strings Transition_System
begin

text \<open>
  Processes, threads and the round-robin scheduler: \<^verbatim>\<open>kernel/src/task/pcb.rs\<close> and
  \<^verbatim>\<open>kernel/src/task/scheduler.rs\<close>, for x86-64.

  The state \<open>sched\<close> is the structure \<^verbatim>\<open>Scheduler\<close> together with the two atomic counters
  and the two machine registers that the scheduler sets: the page table root \<open>cr3\<close> and the
  interrupt stack \<open>rsp0\<close> of the TSS. An operation takes the registers \<open>ctx\<close> that the
  interrupt saved and returns those that will be restored. The address of a newly allocated kernel
  stack is an argument: it comes from the heap.

  A result \<open>None\<close> means that the call does not return: an addition overflowed, or a spin lock was
  taken a second time by its holder. \<^verbatim>\<open>pick_and_switch_next\<close> holds the lock of the thread it looks
  at while it takes the lock of the current thread, so it hangs where the two are the same.
\<close>

subsection \<open>Control blocks\<close>

datatype process_state = PReady | PRunning | PBlocked | PTerminated

datatype thread_state = Ready | Running | Blocked | Terminated

record cpu_context =
  ctx_r15 :: u64
  ctx_r14 :: u64
  ctx_r13 :: u64
  ctx_r12 :: u64
  ctx_r11 :: u64
  ctx_r10 :: u64
  ctx_r9 :: u64
  ctx_r8 :: u64
  ctx_rdi :: u64
  ctx_rsi :: u64
  ctx_rbp :: u64
  ctx_rbx :: u64
  ctx_rdx :: u64
  ctx_rcx :: u64
  ctx_rax :: u64
  ctx_rip :: u64
  ctx_cs :: u64
  ctx_rflags :: u64
  ctx_rsp :: u64
  ctx_ss :: u64

definition default_context :: cpu_context where
  "default_context =
     \<lparr>ctx_r15 = 0, ctx_r14 = 0, ctx_r13 = 0, ctx_r12 = 0, ctx_r11 = 0, ctx_r10 = 0, ctx_r9 = 0, ctx_r8 = 0,
      ctx_rdi = 0, ctx_rsi = 0, ctx_rbp = 0, ctx_rbx = 0, ctx_rdx = 0, ctx_rcx = 0, ctx_rax = 0,
      ctx_rip = 0, ctx_cs = 0, ctx_rflags = 0, ctx_rsp = 0, ctx_ss = 0\<rparr>"

definition USER_CODE_SELECTOR :: u64 where "USER_CODE_SELECTOR = 0x30 OR 3"
definition USER_DATA_SELECTOR :: u64 where "USER_DATA_SELECTOR = 0x28 OR 3"
definition CODE_SELECTOR :: u64 where "CODE_SELECTOR = 8"

definition new_user :: "u64 \<Rightarrow> u64 \<Rightarrow> u64 \<Rightarrow> cpu_context" where
  "new_user entry user_sp arg =
     default_context\<lparr>ctx_rdi := arg, ctx_rip := entry, ctx_cs := USER_CODE_SELECTOR, ctx_rflags := 0x202,
       ctx_rsp := user_sp, ctx_ss := USER_DATA_SELECTOR\<rparr>"

definition new_kernel :: "u64 \<Rightarrow> u64 \<Rightarrow> u64 \<Rightarrow> cpu_context" where
  "new_kernel entry kernel_sp arg =
     default_context\<lparr>ctx_rdi := arg, ctx_rip := entry, ctx_cs := CODE_SELECTOR, ctx_rflags := 0x202,
       ctx_rsp := kernel_sp, ctx_ss := 0\<rparr>"

definition stack_pointer :: "cpu_context \<Rightarrow> u64" where
  "stack_pointer ctx = ctx_rsp ctx"

record tcb =
  tcb_tid :: u64
  tcb_pid :: u64
  user_sp :: u64
  kernel_sp :: u64
  thread_st :: thread_state
  priority :: u8
  tcb_context :: cpu_context
  time_slice :: u32
  total_ticks :: u64

definition new_tcb :: "u64 \<Rightarrow> u64 \<Rightarrow> u64 \<Rightarrow> u64 \<Rightarrow> u8 \<Rightarrow> cpu_context \<Rightarrow> u32 \<Rightarrow> tcb" where
  "new_tcb tid pid usp ksp prio ctx quantum =
     \<lparr>tcb_tid = tid, tcb_pid = pid, user_sp = usp, kernel_sp = ksp, thread_st = Ready, priority = prio,
      tcb_context = ctx, time_slice = quantum, total_ticks = 0\<rparr>"

definition is_ready :: "tcb \<Rightarrow> bool" where
  "is_ready t \<longleftrightarrow> thread_st t = Ready"

definition mark_running :: "tcb \<Rightarrow> tcb" where
  "mark_running t = t\<lparr>thread_st := Running\<rparr>"

definition mark_ready :: "tcb \<Rightarrow> tcb" where
  "mark_ready t = (if thread_st t \<noteq> Terminated then t\<lparr>thread_st := Ready\<rparr> else t)"

definition mark_blocked :: "tcb \<Rightarrow> tcb" where
  "mark_blocked t = (if thread_st t \<noteq> Terminated then t\<lparr>thread_st := Blocked\<rparr> else t)"

definition mark_terminated :: "tcb \<Rightarrow> tcb" where
  "mark_terminated t = t\<lparr>thread_st := Terminated\<rparr>"

record pcb =
  pcb_pid :: u64
  pcb_name :: str
  page_table_root :: u64
  process_st :: process_state
  pcb_threads :: "u64 list"
  exit_code :: "u64 option"
  is_user :: bool

definition new_pcb :: "u64 \<Rightarrow> str \<Rightarrow> u64 \<Rightarrow> bool \<Rightarrow> pcb" where
  "new_pcb pid name root user =
     \<lparr>pcb_pid = pid, pcb_name = name, page_table_root = root, process_st = PReady, pcb_threads = [],
      exit_code = None, is_user = user\<rparr>"

definition add_thread :: "pcb \<Rightarrow> u64 \<Rightarrow> pcb" where
  "add_thread p tid = (if tid \<in> set (pcb_threads p) then p else p\<lparr>pcb_threads := pcb_threads p @ [tid]\<rparr>)"

definition remove_thread :: "pcb \<Rightarrow> u64 \<Rightarrow> pcb" where
  "remove_thread p tid = p\<lparr>pcb_threads := filter (\<lambda>i. i \<noteq> tid) (pcb_threads p)\<rparr>"

definition terminate :: "pcb \<Rightarrow> u64 \<Rightarrow> pcb" where
  "terminate p code = p\<lparr>process_st := PTerminated, exit_code := Some code\<rparr>"

subsection \<open>The scheduler\<close>

record sched =
  processes :: "u64 \<rightharpoonup> pcb"
  threads :: "u64 \<rightharpoonup> tcb"
  ready_queue :: "u64 list"
  current_tid :: "u64 option"
  active :: bool
  default_quantum :: u32
  context_switches :: u64
  stack_pool :: "u64 list"
  owned_stacks :: "u64 set"
  pending_free_stack :: "u64 option"
  next_pid :: u64
  next_tid :: u64
  cr3 :: u64
  rsp0 :: u64

definition new_sched :: sched where
  "new_sched =
     \<lparr>processes = Map.empty, threads = Map.empty, ready_queue = [], current_tid = None, active = False,
      default_quantum = 2, context_switches = 0, stack_pool = [], owned_stacks = {}, pending_free_stack = None,
      next_pid = 1, next_tid = 1, cr3 = 0, rsp0 = 0\<rparr>"

text \<open>The pool is a \<^verbatim>\<open>Vec\<close> used as a stack: its last element is popped. \<open>fresh\<close> is the heap buffer that is
  leaked when the pool is empty.\<close>

definition alloc_kernel_stack :: "sched \<Rightarrow> u64 \<Rightarrow> (sched \<times> u64) option" where
  "alloc_kernel_stack s fresh =
     (if stack_pool s \<noteq> [] then Some (s\<lparr>stack_pool := butlast (stack_pool s)\<rparr>, last (stack_pool s))
      else
        (case checked_add_w fresh 16384 of
           None \<Rightarrow> None
         | Some stack_top \<Rightarrow> Some (s\<lparr>owned_stacks := insert stack_top (owned_stacks s)\<rparr>, stack_top)))"

definition defer_recycle_stack :: "sched \<Rightarrow> u64 \<Rightarrow> sched" where
  "defer_recycle_stack s stack_top = (if stack_top \<in> owned_stacks s then s\<lparr>pending_free_stack := Some stack_top\<rparr> else s)"

definition drain_pending_stack :: "sched \<Rightarrow> sched" where
  "drain_pending_stack s =
     (case pending_free_stack s of
        None \<Rightarrow> s
      | Some stack_top \<Rightarrow> s\<lparr>pending_free_stack := None, stack_pool := stack_pool s @ [stack_top]\<rparr>)"

definition choose_stack :: "sched \<Rightarrow> u64 \<Rightarrow> u64 \<Rightarrow> (sched \<times> u64) option" where
  "choose_stack s ksp fresh = (if ksp \<noteq> 0 then Some (s, ksp) else alloc_kernel_stack s fresh)"

definition initial_context :: "bool \<Rightarrow> u64 \<Rightarrow> u64 \<Rightarrow> u64 \<Rightarrow> u64 \<Rightarrow> cpu_context" where
  "initial_context user entry usp ksp arg = (if user then new_user entry usp arg else new_kernel entry ksp arg)"

definition spawn_process ::
  "sched \<Rightarrow> str \<Rightarrow> u64 \<Rightarrow> u64 \<Rightarrow> u64 \<Rightarrow> u64 \<Rightarrow> bool \<Rightarrow> u64 \<Rightarrow> u64 \<Rightarrow> (sched \<times> u64 \<times> u64) option" where
  "spawn_process s name root entry usp ksp user arg fresh =
     (let pid = next_pid s; tid = next_tid s;
          s1 = s\<lparr>next_pid := pid + 1, next_tid := tid + 1\<rparr>;
          p = add_thread (new_pcb pid name root user) tid
      in case choose_stack s1 ksp fresh of
           None \<Rightarrow> None
         | Some (s2, actual_ksp) \<Rightarrow>
             let t = new_tcb tid pid usp actual_ksp 10 (initial_context user entry usp actual_ksp arg)
                       (default_quantum s2)
             in Some (s2\<lparr>processes := (processes s2)(pid \<mapsto> p), threads := (threads s2)(tid \<mapsto> t),
                         ready_queue := ready_queue s2 @ [tid]\<rparr>, pid, tid))"

definition spawn_thread ::
  "sched \<Rightarrow> u64 \<Rightarrow> u64 \<Rightarrow> u64 \<Rightarrow> u64 \<Rightarrow> bool \<Rightarrow> u64 \<Rightarrow> u64 \<Rightarrow> (sched \<times> u64 option) option" where
  "spawn_thread s pid entry usp ksp user arg fresh =
     (case processes s pid of
        None \<Rightarrow> Some (s, None)
      | Some p \<Rightarrow>
          let tid = next_tid s;
              s1 = s\<lparr>next_tid := tid + 1\<rparr>
          in case choose_stack s1 ksp fresh of
               None \<Rightarrow> None
             | Some (s2, actual_ksp) \<Rightarrow>
                 let t = new_tcb tid pid usp actual_ksp 10 (initial_context user entry usp actual_ksp arg)
                           (default_quantum s2)
                 in Some (s2\<lparr>processes := (processes s2)(pid \<mapsto> add_thread p tid),
                             threads := (threads s2)(tid \<mapsto> t), ready_queue := ready_queue s2 @ [tid]\<rparr>, Some tid))"

definition switch_page_table :: "sched \<Rightarrow> u64 \<Rightarrow> sched" where
  "switch_page_table s root = (if root \<noteq> 0 \<and> cr3 s \<noteq> root then s\<lparr>cr3 := root\<rparr> else s)"

definition current_pid :: "sched \<Rightarrow> u64 option" where
  "current_pid s =
     (case current_tid s of None \<Rightarrow> None | Some tid \<Rightarrow> map_option tcb_pid (threads s tid))"

definition enter_process :: "sched \<Rightarrow> u64 \<Rightarrow> sched" where
  "enter_process s pid =
     (case processes s pid of
        None \<Rightarrow> s
      | Some p \<Rightarrow> if page_table_root p \<noteq> 0 then switch_page_table s (page_table_root p) else s)"

text \<open>The end of both picking loops: the chosen thread runs from here on.\<close>

definition run_thread :: "sched \<Rightarrow> u64 \<Rightarrow> tcb \<Rightarrow> sched" where
  "run_thread s tid next =
     drain_pending_stack
       (s\<lparr>rsp0 := kernel_sp next,
          threads := (threads s)(tid \<mapsto> (mark_running next)\<lparr>time_slice := default_quantum s\<rparr>),
          current_tid := Some tid, context_switches := saturating_add_w (context_switches s) 1\<rparr>)"

fun pick_loop :: "sched \<Rightarrow> u64 list \<Rightarrow> cpu_context \<Rightarrow> (sched \<times> cpu_context \<times> bool) option" where
  "pick_loop s [] ctx = Some (s\<lparr>ready_queue := []\<rparr>, ctx, False)"
| "pick_loop s (tid # queue) ctx =
     (case threads s tid of
        None \<Rightarrow> pick_loop s queue ctx
      | Some next \<Rightarrow>
          if thread_st next \<noteq> Ready then pick_loop s queue ctx
          else if current_tid s = Some tid then None
          else
            let s1 = s\<lparr>ready_queue := queue\<rparr>;
                s2 = (if Some (tcb_pid next) \<noteq> current_pid s1 then enter_process s1 (tcb_pid next) else s1)
            in Some (run_thread s2 tid next, tcb_context next, True))"

definition pick_and_switch_next :: "sched \<Rightarrow> cpu_context \<Rightarrow> (sched \<times> cpu_context \<times> bool) option" where
  "pick_and_switch_next s ctx = pick_loop s (ready_queue s) ctx"

definition capture_kernel :: "sched \<Rightarrow> cpu_context \<Rightarrow> sched" where
  "capture_kernel s ctx =
     s\<lparr>processes := (processes s)(0 \<mapsto> add_thread (new_pcb 0 (lit ''kernel-main'') 0 False) 0),
       threads := (threads s)(0 \<mapsto> mark_ready (new_tcb 0 0 0 (stack_pointer ctx) 10 ctx (default_quantum s))),
       ready_queue := ready_queue s @ [0]\<rparr>"

definition set_thread :: "sched \<Rightarrow> u64 \<Rightarrow> tcb \<Rightarrow> sched" where
  "set_thread s tid t = s\<lparr>threads := (threads s)(tid \<mapsto> t)\<rparr>"

definition on_tick :: "sched \<Rightarrow> cpu_context \<Rightarrow> (sched \<times> cpu_context \<times> bool) option" where
  "on_tick s ctx =
     (if \<not> active s then Some (s, ctx, False)
      else
        (case current_tid s of
           None \<Rightarrow> pick_and_switch_next (capture_kernel s ctx) ctx
         | Some tid \<Rightarrow>
             (case threads s tid of
                None \<Rightarrow> pick_and_switch_next s ctx
              | Some t \<Rightarrow>
                  let curr = t\<lparr>total_ticks := saturating_add_w (total_ticks t) 1\<rparr>
                  in if thread_st curr = Running then
                       (if 1 < time_slice curr \<and> ready_queue s \<noteq> []
                        then Some (set_thread s tid (curr\<lparr>time_slice := time_slice curr - 1\<rparr>), ctx, False)
                        else if ready_queue s = []
                        then Some (set_thread s tid (curr\<lparr>time_slice := default_quantum s\<rparr>), ctx, False)
                        else
                          pick_and_switch_next
                            ((set_thread s tid ((mark_ready curr)\<lparr>time_slice := default_quantum s, tcb_context := ctx\<rparr>))
                               \<lparr>ready_queue := ready_queue s @ [tid]\<rparr>) ctx)
                     else pick_and_switch_next (set_thread s tid curr) ctx)))"

definition expire_current_quantum :: "sched \<Rightarrow> sched" where
  "expire_current_quantum s =
     (case current_tid s of
        None \<Rightarrow> s
      | Some tid \<Rightarrow>
          (case threads s tid of None \<Rightarrow> s | Some t \<Rightarrow> set_thread s tid (t\<lparr>time_slice := 1\<rparr>)))"

definition yield_current :: "sched \<Rightarrow> cpu_context \<Rightarrow> (sched \<times> cpu_context \<times> bool) option" where
  "yield_current s ctx =
     on_tick
       (case current_tid s of
          None \<Rightarrow> s
        | Some tid \<Rightarrow>
            (case threads s tid of
               None \<Rightarrow> s
             | Some t \<Rightarrow> if thread_st t = Running then set_thread s tid (t\<lparr>time_slice := 0\<rparr>) else s)) ctx"

definition all_terminated :: "sched \<Rightarrow> u64 list \<Rightarrow> bool" where
  "all_terminated s tids \<longleftrightarrow>
     list_all (\<lambda>tid. case threads s tid of None \<Rightarrow> True | Some t \<Rightarrow> thread_st t = Terminated) tids"

text \<open>The common first half of \<open>exit_current\<close> and \<open>exit_current_syscall\<close>.\<close>

definition end_current :: "sched \<Rightarrow> u64 \<Rightarrow> sched" where
  "end_current s code =
     (case current_tid s of
        None \<Rightarrow> s
      | Some tid \<Rightarrow>
          (case threads s tid of
             None \<Rightarrow> s
           | Some t \<Rightarrow>
               let s1 = defer_recycle_stack (set_thread s tid (mark_terminated t)) (kernel_sp t)
               in case processes s1 (tcb_pid t) of
                    None \<Rightarrow> s1
                  | Some p \<Rightarrow>
                      if all_terminated s1 (pcb_threads p)
                      then s1\<lparr>processes := (processes s1)(tcb_pid t \<mapsto> terminate p code)\<rparr>
                      else s1))"

definition exit_current :: "sched \<Rightarrow> u64 \<Rightarrow> cpu_context \<Rightarrow> (sched \<times> cpu_context \<times> bool) option" where
  "exit_current s code ctx = pick_and_switch_next (end_current s code) ctx"

definition block_thread :: "sched \<Rightarrow> u64 \<Rightarrow> sched \<times> bool" where
  "block_thread s tid =
     (case threads s tid of
        None \<Rightarrow> (s, False)
      | Some t \<Rightarrow>
          if thread_st t \<noteq> Terminated \<and> thread_st t \<noteq> Blocked
          then ((set_thread s tid (mark_blocked t))\<lparr>ready_queue := filter (\<lambda>i. i \<noteq> tid) (ready_queue s)\<rparr>, True)
          else (s, False))"

definition block_current :: "sched \<Rightarrow> cpu_context \<Rightarrow> (sched \<times> cpu_context \<times> bool) option" where
  "block_current s ctx =
     pick_and_switch_next
       (case current_tid s of
          None \<Rightarrow> s
        | Some tid \<Rightarrow>
            (case threads s tid of
               None \<Rightarrow> s
             | Some t \<Rightarrow>
                 if thread_st t = Running then set_thread s tid ((mark_blocked t)\<lparr>tcb_context := ctx\<rparr>) else s)) ctx"

definition unblock_thread :: "sched \<Rightarrow> u64 \<Rightarrow> sched \<times> bool" where
  "unblock_thread s tid =
     (case threads s tid of
        None \<Rightarrow> (s, False)
      | Some t \<Rightarrow>
          if thread_st t = Blocked
          then ((set_thread s tid ((mark_ready t)\<lparr>time_slice := default_quantum s\<rparr>))
                  \<lparr>ready_queue := ready_queue s @ [tid]\<rparr>, True)
          else (s, False))"

definition is_thread_blocked :: "sched \<Rightarrow> u64 \<Rightarrow> bool" where
  "is_thread_blocked s tid = (case threads s tid of None \<Rightarrow> False | Some t \<Rightarrow> thread_st t = Blocked)"

record scheduler_metrics =
  total_processes :: nat
  total_threads :: nat
  ready_threads :: nat
  metric_switches :: u64
  recycled_stacks :: nat

definition get_metrics :: "sched \<Rightarrow> scheduler_metrics" where
  "get_metrics s =
     \<lparr>total_processes = card (dom (processes s)), total_threads = card (dom (threads s)),
      ready_threads = length (ready_queue s), metric_switches = context_switches s,
      recycled_stacks = length (stack_pool s)\<rparr>"

definition sched_init :: "sched \<Rightarrow> sched" where
  "sched_init s = s\<lparr>active := True\<rparr>"

text \<open>The loop of \<open>exit_current_syscall\<close> does not look at the current thread and always enters the process;
  the registers to resume are returned, or none when the queue is used up.\<close>

fun exit_loop :: "sched \<Rightarrow> u64 list \<Rightarrow> sched \<times> cpu_context option" where
  "exit_loop s [] = (s\<lparr>ready_queue := []\<rparr>, None)"
| "exit_loop s (tid # queue) =
     (case threads s tid of
        None \<Rightarrow> exit_loop s queue
      | Some next \<Rightarrow>
          if thread_st next \<noteq> Ready then exit_loop s queue
          else (run_thread (enter_process (s\<lparr>ready_queue := queue\<rparr>) (tcb_pid next)) tid next, Some (tcb_context next)))"

definition exit_current_syscall :: "sched \<Rightarrow> u64 \<Rightarrow> sched \<times> cpu_context option" where
  "exit_current_syscall s code = (let s1 = end_current s code in exit_loop s1 (ready_queue s1))"

subsection \<open>Operations, reachable states and invariants\<close>

datatype sched_op =
    Spawn_Process str u64 u64 u64 u64 bool u64 u64
  | Spawn_Thread u64 u64 u64 u64 bool u64 u64
  | Tick cpu_context
  | Expire
  | Yield cpu_context
  | Exit u64 cpu_context
  | Exit_Syscall u64
  | Block u64
  | Block_Current cpu_context
  | Unblock u64
  | Init

definition switched :: "(sched \<times> cpu_context \<times> bool) option \<Rightarrow> (sched \<times> cpu_context option) option" where
  "switched r = map_option (\<lambda>(s, ctx, b). (s, if b then Some ctx else None)) r"

definition sched_exec :: "sched \<Rightarrow> sched_op \<Rightarrow> (sched \<times> cpu_context option) option" where
  "sched_exec s op =
     (case op of
        Spawn_Process name root entry usp ksp user arg fresh \<Rightarrow>
          map_option (\<lambda>(s', _). (s', None)) (spawn_process s name root entry usp ksp user arg fresh)
      | Spawn_Thread pid entry usp ksp user arg fresh \<Rightarrow>
          map_option (\<lambda>(s', _). (s', None)) (spawn_thread s pid entry usp ksp user arg fresh)
      | Tick ctx \<Rightarrow> switched (on_tick s ctx)
      | Expire \<Rightarrow> Some (expire_current_quantum s, None)
      | Yield ctx \<Rightarrow> switched (yield_current s ctx)
      | Exit code ctx \<Rightarrow> switched (exit_current s code ctx)
      | Exit_Syscall code \<Rightarrow> Some (exit_current_syscall s code)
      | Block tid \<Rightarrow> Some (fst (block_thread s tid), None)
      | Block_Current ctx \<Rightarrow> switched (block_current s ctx)
      | Unblock tid \<Rightarrow> Some (fst (unblock_thread s tid), None)
      | Init \<Rightarrow> Some (sched_init s, None))"

definition sched_core :: "sched \<Rightarrow> bool" where
  "sched_core s \<longleftrightarrow>
     distinct (ready_queue s) \<and>
     (\<forall>t\<in>set (ready_queue s). \<exists>th. threads s t = Some th \<and> thread_st th \<in> {Ready, Terminated}) \<and>
     (\<forall>t th. threads s t = Some th \<longrightarrow>
        (thread_st th = Ready \<longrightarrow> t \<in> set (ready_queue s)) \<and>
        (thread_st th = Running \<longrightarrow> current_tid s = Some t) \<and>
        tcb_tid th = t \<and> t < next_tid s \<and>
        (\<exists>p. processes s (tcb_pid th) = Some p \<and> t \<in> set (pcb_threads p))) \<and>
     (\<forall>i\<in>dom (processes s). i < next_pid s) \<and> 0 < next_pid s \<and> 0 < next_tid s"

definition sched_inv :: "sched \<Rightarrow> bool" where
  "sched_inv s \<longleftrightarrow> sched_core s \<and>
     (case current_tid s of
        None \<Rightarrow> threads s 0 = None \<and> processes s 0 = None
      | Some c \<Rightarrow>
          (\<exists>th. threads s c = Some th \<and> rsp0 s = kernel_sp th \<and>
             (\<forall>p. processes s (tcb_pid th) = Some p \<longrightarrow> page_table_root p \<noteq> 0 \<longrightarrow> cr3 s = page_table_root p)))"

definition queue_clean :: "sched \<Rightarrow> bool" where
  "queue_clean s \<longleftrightarrow>
     (\<forall>t\<in>set (ready_queue s). (\<exists>th. threads s t = Some th \<and> thread_st th = Ready) \<and> current_tid s \<noteq> Some t)"

definition is_ready_tid :: "sched \<Rightarrow> u64 \<Rightarrow> bool" where
  "is_ready_tid s t \<longleftrightarrow> (\<exists>th. threads s t = Some th \<and> thread_st th = Ready)"

definition switch_to :: "sched \<Rightarrow> u64 \<Rightarrow> tcb \<Rightarrow> u64 list \<Rightarrow> sched" where
  "switch_to s t next rest =
     run_thread (if Some (tcb_pid next) \<noteq> current_pid s then enter_process (s\<lparr>ready_queue := rest\<rparr>) (tcb_pid next)
                 else s\<lparr>ready_queue := rest\<rparr>) t next"

definition idle :: "sched \<Rightarrow> bool" where
  "idle s \<longleftrightarrow> (\<forall>t th. threads s t = Some th \<longrightarrow> thread_st th \<noteq> Running)"

text \<open>A change of one thread that keeps its identity, with a new queue.\<close>

definition same_thread :: "tcb \<Rightarrow> tcb \<Rightarrow> bool" where
  "same_thread t u \<longleftrightarrow> tcb_tid u = tcb_tid t \<and> tcb_pid u = tcb_pid t \<and> kernel_sp u = kernel_sp t"

text \<open>The two counters have not wrapped.\<close>

fun ids_left :: "sched \<Rightarrow> sched_op \<Rightarrow> bool" where
  "ids_left s (Spawn_Process name root entry usp ksp user arg fresh) = (next_tid s \<noteq> - 1 \<and> next_pid s \<noteq> - 1)"
| "ids_left s (Spawn_Thread pid entry usp ksp user arg fresh) = (next_tid s \<noteq> - 1)"
| "ids_left s op = True"

inductive sched_reachable :: "(sched \<Rightarrow> sched_op \<Rightarrow> bool) \<Rightarrow> sched \<Rightarrow> bool" for ok where
  boot: "sched_reachable ok new_sched"
| exec: "sched_reachable ok s \<Longrightarrow> ids_left s op \<Longrightarrow> ok s op \<Longrightarrow> sched_exec s op = Some (s', r) \<Longrightarrow>
     sched_reachable ok s'"

text \<open>\<open>keeps_context s s' t\<close>: thread \<open>t\<close> is still there, with the registers it had.\<close>

definition keeps_context :: "sched \<Rightarrow> sched \<Rightarrow> u64 \<Rightarrow> bool" where
  "keeps_context s s' t \<longleftrightarrow>
     (\<forall>th. threads s t = Some th \<longrightarrow> (\<exists>th'. threads s' t = Some th' \<and> tcb_context th' = tcb_context th))"

text \<open>\<open>resumes s s' r t\<close>: if \<open>t\<close> gets the processor in the step, its saved registers are what is restored.\<close>

definition resumes :: "sched \<Rightarrow> sched \<Rightarrow> cpu_context option \<Rightarrow> u64 \<Rightarrow> bool" where
  "resumes s s' r t \<longleftrightarrow>
     (\<forall>th. threads s t = Some th \<longrightarrow> current_tid s' = Some t \<longrightarrow> r = Some (tcb_context th))"

text \<open>The states of a run, the first one included.\<close>

fun sched_run :: "sched \<Rightarrow> sched_op list \<Rightarrow> sched list option" where
  "sched_run s [] = Some [s]"
| "sched_run s (op # ops) =
     (if ids_left s op
      then (case sched_exec s op of None \<Rightarrow> None | Some (s', r) \<Rightarrow> map_option ((#) s) (sched_run s' ops))
      else None)"

fun stack_fits :: "sched_op \<Rightarrow> bool" where
  "stack_fits (Spawn_Process name root entry usp ksp user arg fresh) = (unat fresh + 16384 < 2 ^ 64)"
| "stack_fits (Spawn_Thread pid entry usp ksp user arg fresh) = (unat fresh + 16384 < 2 ^ 64)"
| "stack_fits op = True"

definition careful :: "sched \<Rightarrow> sched_op \<Rightarrow> bool" where
  "careful s op \<longleftrightarrow> stack_fits op \<and> (\<forall>c. op = Unblock c \<longrightarrow> current_tid s \<noteq> Some c)"

definition queue_ready :: "sched \<Rightarrow> bool" where
  "queue_ready s \<longleftrightarrow> distinct (ready_queue s) \<and> (\<forall>t\<in>set (ready_queue s). is_ready_tid s t)"

definition quantum_ok :: "sched \<Rightarrow> bool" where
  "quantum_ok s \<longleftrightarrow> default_quantum s = 2 \<and> (\<forall>t th. threads s t = Some th \<longrightarrow> time_slice th \<le> 2)"

fun ticks :: "sched \<Rightarrow> cpu_context list \<Rightarrow> sched option" where
  "ticks s [] = Some s"
| "ticks s (ctx # ctxs) = (case on_tick s ctx of None \<Rightarrow> None | Some (s', _, _) \<Rightarrow> ticks s' ctxs)"

definition running_at :: "sched \<Rightarrow> u64 \<Rightarrow> u64 list \<Rightarrow> u32 \<Rightarrow> bool" where
  "running_at s c q n \<longleftrightarrow>
     sched_inv s \<and> queue_clean s \<and> active s \<and> default_quantum s = 2 \<and> current_tid s = Some c \<and> ready_queue s = q \<and>
     (\<exists>th. threads s c = Some th \<and> thread_st th = Running \<and> time_slice th = n)"

text \<open>What the scheduler relies on for its stacks: a fresh buffer of the heap is no stack in use, and a stack
  that a caller or the boot code brings along is none of the scheduler's own.\<close>

fun stacks_fresh :: "sched \<Rightarrow> sched_op \<Rightarrow> bool" where
  "stacks_fresh s (Spawn_Process name root entry usp ksp user arg fresh) =
     (ksp \<notin> owned_stacks s \<and> fresh + 16384 \<notin> owned_stacks s \<and>
      (\<forall>t th. threads s t = Some th \<longrightarrow> kernel_sp th \<noteq> fresh + 16384))"
| "stacks_fresh s (Spawn_Thread pid entry usp ksp user arg fresh) =
     (ksp \<notin> owned_stacks s \<and> fresh + 16384 \<notin> owned_stacks s \<and>
      (\<forall>t th. threads s t = Some th \<longrightarrow> kernel_sp th \<noteq> fresh + 16384))"
| "stacks_fresh s (Tick ctx) = (current_tid s = None \<longrightarrow> ctx_rsp ctx \<notin> owned_stacks s)"
| "stacks_fresh s (Yield ctx) = (current_tid s = None \<longrightarrow> ctx_rsp ctx \<notin> owned_stacks s)"
| "stacks_fresh s op = True"

definition uses_stack :: "sched \<Rightarrow> u64 \<Rightarrow> tcb \<Rightarrow> bool" where
  "uses_stack s t th \<longleftrightarrow>
     threads s t = Some th \<and> (thread_st th \<noteq> Terminated \<or> current_tid s = Some t) \<and> kernel_sp th \<in> owned_stacks s"

definition stack_inv :: "sched \<Rightarrow> bool" where
  "stack_inv s \<longleftrightarrow>
     distinct (stack_pool s) \<and> set (stack_pool s) \<subseteq> owned_stacks s \<and>
     (\<forall>k. pending_free_stack s = Some k \<longrightarrow> k \<in> owned_stacks s \<and> k \<notin> set (stack_pool s) \<and>
        (\<exists>c th. current_tid s = Some c \<and> threads s c = Some th \<and> thread_st th = Terminated \<and> kernel_sp th = k)) \<and>
     (\<forall>t th. uses_stack s t th \<longrightarrow> kernel_sp th \<notin> set (stack_pool s)) \<and>
     (\<forall>t th u uh. uses_stack s t th \<longrightarrow> uses_stack s u uh \<longrightarrow> kernel_sp th = kernel_sp uh \<longrightarrow> t = u)"

definition demo_spawn :: sched_op where
  "demo_spawn = Spawn_Process (lit ''shell'') 0x5000 0x400000 0x7000 0 True 1 0x100000"

definition demo_booted :: sched where
  "demo_booted = sched_init new_sched"

definition demo_spawned :: sched where
  "demo_spawned = fst (the (sched_exec demo_booted demo_spawn))"

definition demo_running :: sched where
  "demo_running = fst (the (sched_exec demo_spawned (Tick default_context)))"

definition demo_regs :: cpu_context where
  "demo_regs = default_context\<lparr>ctx_rax := 7, ctx_rip := 0x400010\<rparr>"

definition demo_yielded :: sched where
  "demo_yielded = fst (the (sched_exec demo_running (Yield demo_regs)))"

definition demo_resumed :: sched where
  "demo_resumed = fst (the (sched_exec demo_yielded (Yield default_context)))"

subsection \<open>What each helper leaves alone\<close>

lemma drain_simps [simp]:
  "processes (drain_pending_stack s) = processes s" "threads (drain_pending_stack s) = threads s"
  "ready_queue (drain_pending_stack s) = ready_queue s" "current_tid (drain_pending_stack s) = current_tid s"
  "active (drain_pending_stack s) = active s" "default_quantum (drain_pending_stack s) = default_quantum s"
  "next_pid (drain_pending_stack s) = next_pid s" "next_tid (drain_pending_stack s) = next_tid s"
  "cr3 (drain_pending_stack s) = cr3 s" "rsp0 (drain_pending_stack s) = rsp0 s"
  "owned_stacks (drain_pending_stack s) = owned_stacks s" "pending_free_stack (drain_pending_stack s) = None"
  "set (stack_pool (drain_pending_stack s)) = set (stack_pool s) \<union> set_option (pending_free_stack s)"
  by (simp_all add: drain_pending_stack_def split: option.split)

lemma defer_simps [simp]:
  "processes (defer_recycle_stack s k) = processes s" "threads (defer_recycle_stack s k) = threads s"
  "ready_queue (defer_recycle_stack s k) = ready_queue s" "current_tid (defer_recycle_stack s k) = current_tid s"
  "active (defer_recycle_stack s k) = active s" "default_quantum (defer_recycle_stack s k) = default_quantum s"
  "next_pid (defer_recycle_stack s k) = next_pid s" "next_tid (defer_recycle_stack s k) = next_tid s"
  "cr3 (defer_recycle_stack s k) = cr3 s" "rsp0 (defer_recycle_stack s k) = rsp0 s"
  "owned_stacks (defer_recycle_stack s k) = owned_stacks s" "stack_pool (defer_recycle_stack s k) = stack_pool s"
  by (simp_all add: defer_recycle_stack_def)

lemma enter_process_simps [simp]:
  "processes (enter_process s k) = processes s" "threads (enter_process s k) = threads s"
  "ready_queue (enter_process s k) = ready_queue s" "current_tid (enter_process s k) = current_tid s"
  "active (enter_process s k) = active s" "default_quantum (enter_process s k) = default_quantum s"
  "next_pid (enter_process s k) = next_pid s" "next_tid (enter_process s k) = next_tid s"
  "rsp0 (enter_process s k) = rsp0 s" "owned_stacks (enter_process s k) = owned_stacks s"
  "stack_pool (enter_process s k) = stack_pool s" "pending_free_stack (enter_process s k) = pending_free_stack s"
  by (simp_all add: enter_process_def switch_page_table_def split: option.split)

lemma enter_process_cr3:
  "processes s pid = Some p \<Longrightarrow> page_table_root p \<noteq> 0 \<Longrightarrow> cr3 (enter_process s pid) = page_table_root p"
  by (simp add: enter_process_def switch_page_table_def)

lemma set_thread_simps [simp]:
  "processes (set_thread s c t) = processes s" "threads (set_thread s c t) = (threads s)(c \<mapsto> t)"
  "ready_queue (set_thread s c t) = ready_queue s" "current_tid (set_thread s c t) = current_tid s"
  "active (set_thread s c t) = active s" "default_quantum (set_thread s c t) = default_quantum s"
  "next_pid (set_thread s c t) = next_pid s" "next_tid (set_thread s c t) = next_tid s"
  "cr3 (set_thread s c t) = cr3 s" "rsp0 (set_thread s c t) = rsp0 s"
  "owned_stacks (set_thread s c t) = owned_stacks s" "stack_pool (set_thread s c t) = stack_pool s"
  "pending_free_stack (set_thread s c t) = pending_free_stack s"
  by (simp_all add: set_thread_def)

lemma mark_simps [simp]:
  "tcb_tid (mark_running t) = tcb_tid t" "tcb_pid (mark_running t) = tcb_pid t" "kernel_sp (mark_running t) = kernel_sp t"
  "tcb_context (mark_running t) = tcb_context t" "thread_st (mark_running t) = Running"
  "tcb_tid (mark_ready t) = tcb_tid t" "tcb_pid (mark_ready t) = tcb_pid t" "kernel_sp (mark_ready t) = kernel_sp t"
  "tcb_context (mark_ready t) = tcb_context t"
  "thread_st (mark_ready t) = (if thread_st t = Terminated then Terminated else Ready)"
  "tcb_tid (mark_blocked t) = tcb_tid t" "tcb_pid (mark_blocked t) = tcb_pid t" "kernel_sp (mark_blocked t) = kernel_sp t"
  "tcb_context (mark_blocked t) = tcb_context t"
  "thread_st (mark_blocked t) = (if thread_st t = Terminated then Terminated else Blocked)"
  "tcb_tid (mark_terminated t) = tcb_tid t" "tcb_pid (mark_terminated t) = tcb_pid t"
  "kernel_sp (mark_terminated t) = kernel_sp t" "tcb_context (mark_terminated t) = tcb_context t"
  "thread_st (mark_terminated t) = Terminated"
  by (simp_all add: mark_running_def mark_ready_def mark_blocked_def mark_terminated_def)

lemma run_thread_simps [simp]:
  "processes (run_thread s t n) = processes s"
  "threads (run_thread s t n) = (threads s)(t \<mapsto> (mark_running n)\<lparr>time_slice := default_quantum s\<rparr>)"
  "ready_queue (run_thread s t n) = ready_queue s" "current_tid (run_thread s t n) = Some t"
  "active (run_thread s t n) = active s" "default_quantum (run_thread s t n) = default_quantum s"
  "next_pid (run_thread s t n) = next_pid s" "next_tid (run_thread s t n) = next_tid s"
  "cr3 (run_thread s t n) = cr3 s" "rsp0 (run_thread s t n) = kernel_sp n"
  "owned_stacks (run_thread s t n) = owned_stacks s" "pending_free_stack (run_thread s t n) = None"
  "set (stack_pool (run_thread s t n)) = set (stack_pool s) \<union> set_option (pending_free_stack s)"
  by (simp_all add: run_thread_def)

subsection \<open>Picking the next thread\<close>

lemma pick_loop_none:
  "\<forall>t\<in>set q. \<not> is_ready_tid s t \<Longrightarrow> pick_loop s q ctx = Some (s\<lparr>ready_queue := []\<rparr>, ctx, False)"
  by (induction q) (auto simp: is_ready_tid_def split: option.split)

lemma pick_loop_some:
  "\<forall>t\<in>set pre. \<not> is_ready_tid s t \<Longrightarrow> threads s t = Some next \<Longrightarrow> thread_st next = Ready \<Longrightarrow>
     pick_loop s (pre @ t # rest) ctx =
       (if current_tid s = Some t then None else Some (switch_to s t next rest, tcb_context next, True))"
  by (induction pre)
    (auto simp: is_ready_tid_def switch_to_def Let_def current_pid_def split: option.split)

lemma exit_loop_none:
  "\<forall>t\<in>set q. \<not> is_ready_tid s t \<Longrightarrow> exit_loop s q = (s\<lparr>ready_queue := []\<rparr>, None)"
  by (induction q) (auto simp: is_ready_tid_def split: option.split)

lemma exit_loop_some:
  "\<forall>t\<in>set pre. \<not> is_ready_tid s t \<Longrightarrow> threads s t = Some next \<Longrightarrow> thread_st next = Ready \<Longrightarrow>
     exit_loop s (pre @ t # rest) =
       (run_thread (enter_process (s\<lparr>ready_queue := rest\<rparr>) (tcb_pid next)) t next, Some (tcb_context next))"
  by (induction pre) (auto simp: is_ready_tid_def split: option.split)

lemma queue_cases:
  obtains (none) "\<forall>t\<in>set q. \<not> is_ready_tid s t"
  | (some) pre t rest nx where "q = pre @ t # rest" "\<forall>t\<in>set pre. \<not> is_ready_tid s t"
      "threads s t = Some nx" "thread_st nx = Ready"
proof (cases "\<exists>t\<in>set q. is_ready_tid s t")
  case True
  then obtain pre t rest where "q = pre @ t # rest" "is_ready_tid s t" "\<forall>t\<in>set pre. \<not> is_ready_tid s t"
    by (metis split_list_first_prop)
  then show ?thesis using some by (auto simp: is_ready_tid_def)
qed (use none in blast)

lemma switch_to_simps [simp]:
  "processes (switch_to s t n q) = processes s"
  "threads (switch_to s t n q) = (threads s)(t \<mapsto> (mark_running n)\<lparr>time_slice := default_quantum s\<rparr>)"
  "ready_queue (switch_to s t n q) = q" "current_tid (switch_to s t n q) = Some t"
  "active (switch_to s t n q) = active s" "default_quantum (switch_to s t n q) = default_quantum s"
  "next_pid (switch_to s t n q) = next_pid s" "next_tid (switch_to s t n q) = next_tid s"
  "rsp0 (switch_to s t n q) = kernel_sp n"
  "owned_stacks (switch_to s t n q) = owned_stacks s" "pending_free_stack (switch_to s t n q) = None"
  "set (stack_pool (switch_to s t n q)) = set (stack_pool s) \<union> set_option (pending_free_stack s)"
  by (simp_all add: switch_to_def)

subsection \<open>Every operation keeps the invariant\<close>

lemma sched_invI:
  assumes "distinct (ready_queue s)"
    and "\<And>t. t \<in> set (ready_queue s) \<Longrightarrow> \<exists>th. threads s t = Some th \<and> (thread_st th = Ready \<or> thread_st th = Terminated)"
    and "\<And>t th. threads s t = Some th \<Longrightarrow> thread_st th = Ready \<Longrightarrow> t \<in> set (ready_queue s)"
    and "\<And>t th. threads s t = Some th \<Longrightarrow> thread_st th = Running \<Longrightarrow> current_tid s = Some t"
    and "\<And>t th. threads s t = Some th \<Longrightarrow> tcb_tid th = t \<and> t < next_tid s \<and>
        (\<exists>p. processes s (tcb_pid th) = Some p \<and> t \<in> set (pcb_threads p))"
    and "\<And>i p. processes s i = Some p \<Longrightarrow> i < next_pid s" and "0 < next_pid s" and "0 < next_tid s"
    and "current_tid s = None \<Longrightarrow> threads s 0 = None \<and> processes s 0 = None"
    and "\<And>c. current_tid s = Some c \<Longrightarrow> \<exists>th. threads s c = Some th \<and> rsp0 s = kernel_sp th \<and>
         (\<forall>p. processes s (tcb_pid th) = Some p \<longrightarrow> page_table_root p \<noteq> 0 \<longrightarrow> cr3 s = page_table_root p)"
  shows "sched_inv s"
  unfolding sched_inv_def sched_core_def using assms by (auto split: option.split)

lemma sched_invD:
  assumes "sched_inv s"
  shows "distinct (ready_queue s)"
    and "t \<in> set (ready_queue s) \<Longrightarrow> \<exists>th. threads s t = Some th \<and> (thread_st th = Ready \<or> thread_st th = Terminated)"
    and "threads s t = Some th \<Longrightarrow> thread_st th = Ready \<Longrightarrow> t \<in> set (ready_queue s)"
    and "threads s t = Some th \<Longrightarrow> thread_st th = Running \<Longrightarrow> current_tid s = Some t"
    and "threads s t = Some th \<Longrightarrow> tcb_tid th = t \<and> t < next_tid s \<and>
        (\<exists>p. processes s (tcb_pid th) = Some p \<and> t \<in> set (pcb_threads p))"
    and "processes s i = Some p \<Longrightarrow> i < next_pid s" and "0 < next_pid s" and "0 < next_tid s"
    and "current_tid s = None \<Longrightarrow> threads s 0 = None \<and> processes s 0 = None"
    and "current_tid s = Some c \<Longrightarrow> \<exists>th. threads s c = Some th \<and> rsp0 s = kernel_sp th \<and>
         (\<forall>p. processes s (tcb_pid th) = Some p \<longrightarrow> page_table_root p \<noteq> 0 \<longrightarrow> cr3 s = page_table_root p)"
  using assms unfolding sched_inv_def sched_core_def by (auto split: option.splits)

lemma set_thread_inv:
  assumes inv: "sched_inv s" and t: "threads s c = Some t" and same: "same_thread t u"
    and q: "distinct q" "\<And>x. x \<noteq> c \<Longrightarrow> x \<in> set q \<longleftrightarrow> x \<in> set (ready_queue s)"
    and r: "thread_st u = Ready \<Longrightarrow> c \<in> set q" "c \<in> set q \<Longrightarrow> thread_st u = Ready \<or> thread_st u = Terminated"
      "thread_st u = Running \<Longrightarrow> current_tid s = Some c"
  shows "sched_inv ((set_thread s c u)\<lparr>ready_queue := q\<rparr>)"
proof (rule sched_invI)
  fix x assume "x \<in> set (ready_queue ((set_thread s c u)\<lparr>ready_queue := q\<rparr>))"
  then show "\<exists>th. threads ((set_thread s c u)\<lparr>ready_queue := q\<rparr>) x = Some th \<and>
      (thread_st th = Ready \<or> thread_st th = Terminated)"
    using r(2) q(2) [of x] sched_invD(2) [OF inv, of x] by (cases "x = c") auto
next
  fix x th assume h: "threads ((set_thread s c u)\<lparr>ready_queue := q\<rparr>) x = Some th" "thread_st th = Ready"
  then show "x \<in> set (ready_queue ((set_thread s c u)\<lparr>ready_queue := q\<rparr>))"
    using r(1) q(2) [of x] sched_invD(3) [OF inv, of x th] by (auto split: if_splits)
next
  fix x assume "current_tid ((set_thread s c u)\<lparr>ready_queue := q\<rparr>) = Some x"
  then show "\<exists>th. threads ((set_thread s c u)\<lparr>ready_queue := q\<rparr>) x = Some th \<and>
      rsp0 ((set_thread s c u)\<lparr>ready_queue := q\<rparr>) = kernel_sp th \<and>
      (\<forall>p. processes ((set_thread s c u)\<lparr>ready_queue := q\<rparr>) (tcb_pid th) = Some p \<longrightarrow> page_table_root p \<noteq> 0 \<longrightarrow>
        cr3 ((set_thread s c u)\<lparr>ready_queue := q\<rparr>) = page_table_root p)"
    using sched_invD(10) [OF inv, of x] t same by (auto simp: same_thread_def)
qed (use q(1) r(3) t same sched_invD(4-9) [OF inv] in \<open>auto simp: same_thread_def split: if_splits\<close>)

lemma set_thread_inv_same:
  assumes "sched_inv s" and "threads s c = Some t" and "same_thread t u" and "thread_st u = thread_st t"
  shows "sched_inv (set_thread s c u)"
proof -
  have "sched_inv ((set_thread s c u)\<lparr>ready_queue := ready_queue s\<rparr>)"
    using assms sched_invD [OF assms(1)]
    by (intro set_thread_inv [OF assms(1-3)]) (auto dest: sched_invD(2) [OF assms(1)] simp: assms(4))
  then show ?thesis by (simp add: set_thread_def)
qed

lemma sched_coreD:
  assumes "sched_core s"
  shows "distinct (ready_queue s)"
    and "t \<in> set (ready_queue s) \<Longrightarrow> \<exists>th. threads s t = Some th \<and> (thread_st th = Ready \<or> thread_st th = Terminated)"
    and "threads s t = Some th \<Longrightarrow> thread_st th = Ready \<Longrightarrow> t \<in> set (ready_queue s)"
    and "threads s t = Some th \<Longrightarrow> thread_st th = Running \<Longrightarrow> current_tid s = Some t"
    and "threads s t = Some th \<Longrightarrow> tcb_tid th = t \<and> t < next_tid s \<and>
        (\<exists>p. processes s (tcb_pid th) = Some p \<and> t \<in> set (pcb_threads p))"
    and "processes s i = Some p \<Longrightarrow> i < next_pid s" and "0 < next_pid s" and "0 < next_tid s"
  using assms unfolding sched_core_def by auto

lemma sched_inv_core: "sched_inv s \<Longrightarrow> sched_core s"
  by (simp add: sched_inv_def)

lemma run_thread_inv:
  assumes inv: "sched_core s" and idle: "idle s" and q: "ready_queue s = pre @ t # rest"
    and pre: "\<forall>t\<in>set pre. \<not> is_ready_tid s t"
    and t: "threads s t = Some n" "thread_st n = Ready"
    and s': "processes s' = processes s" "threads s' = threads s" "ready_queue s' = rest"
      "default_quantum s' = default_quantum s" "next_pid s' = next_pid s" "next_tid s' = next_tid s"
    and cr3: "\<And>p. processes s (tcb_pid n) = Some p \<Longrightarrow> page_table_root p \<noteq> 0 \<Longrightarrow> cr3 s' = page_table_root p"
  shows "sched_inv (run_thread s' t n)"
proof (rule sched_invI)
  show "distinct (ready_queue (run_thread s' t n))" using sched_coreD(1) [OF inv] s' q by simp
next
  fix x assume "x \<in> set (ready_queue (run_thread s' t n))"
  then have "x \<in> set rest" "x \<noteq> t" using sched_coreD(1) [OF inv] s' q by auto
  then show "\<exists>th. threads (run_thread s' t n) x = Some th \<and> (thread_st th = Ready \<or> thread_st th = Terminated)"
    using sched_coreD(2) [OF inv, of x] q s' by simp
next
  fix x th assume h: "threads (run_thread s' t n) x = Some th" "thread_st th = Ready"
  then have "x \<noteq> t" "threads s x = Some th" using s' by (auto split: if_splits)
  then have "x \<in> set (ready_queue s)" "x \<notin> set pre"
    using sched_coreD(3) [OF inv] h(2) pre by (auto simp: is_ready_tid_def)
  then show "x \<in> set (ready_queue (run_thread s' t n))" using \<open>x \<noteq> t\<close> q s' by simp
next
  fix x th assume "threads (run_thread s' t n) x = Some th" "thread_st th = Running"
  then show "current_tid (run_thread s' t n) = Some x" using idle s' by (auto simp: idle_def split: if_splits)
next
  fix c assume "current_tid (run_thread s' t n) = Some c"
  then show "\<exists>th. threads (run_thread s' t n) c = Some th \<and> rsp0 (run_thread s' t n) = kernel_sp th \<and>
      (\<forall>p. processes (run_thread s' t n) (tcb_pid th) = Some p \<longrightarrow> page_table_root p \<noteq> 0 \<longrightarrow>
        cr3 (run_thread s' t n) = page_table_root p)"
    using s' cr3 by simp
qed (use t s' sched_coreD(5-8) [OF inv] in \<open>auto split: if_splits\<close>)

lemma switch_to_inv:
  assumes inv: "sched_inv s" and idle: "idle s" and q: "ready_queue s = pre @ t # rest"
    and pre: "\<forall>t\<in>set pre. \<not> is_ready_tid s t"
    and t: "threads s t = Some n" "thread_st n = Ready"
  shows "sched_inv (switch_to s t n rest)"
  unfolding switch_to_def
proof (rule run_thread_inv [OF sched_inv_core [OF inv] idle q pre t])
  fix p assume p: "processes s (tcb_pid n) = Some p" "page_table_root p \<noteq> 0"
  show "cr3 (if Some (tcb_pid n) \<noteq> current_pid s then enter_process (s\<lparr>ready_queue := rest\<rparr>) (tcb_pid n)
      else s\<lparr>ready_queue := rest\<rparr>) = page_table_root p"
  proof (cases "Some (tcb_pid n) = current_pid s")
    case True
    then obtain c th where "current_tid s = Some c" "threads s c = Some th" "tcb_pid th = tcb_pid n"
      by (cases "current_tid s"; cases "threads s (the (current_tid s))") (auto simp: current_pid_def)
    then show ?thesis using sched_invD(10) [OF inv, of c] p True by auto
  qed (use p in \<open>auto simp: enter_process_cr3\<close>)
qed auto

lemma queue_used_up_inv:
  assumes "sched_inv s" and "\<forall>t\<in>set (ready_queue s). \<not> is_ready_tid s t"
  shows "sched_inv (s\<lparr>ready_queue := []\<rparr>)"
  by (rule sched_invI)
    (use assms(2) sched_invD [OF assms(1)] in \<open>auto simp: is_ready_tid_def\<close>)

lemma pick_inv:
  assumes "sched_inv s" and "idle s" and "pick_and_switch_next s ctx = Some (s', ctx', b)"
  shows "sched_inv s'"
proof (cases rule: queue_cases [of "ready_queue s" s])
  case none
  then show ?thesis using assms(1,3) queue_used_up_inv by (auto simp: pick_and_switch_next_def pick_loop_none)
next
  case (some pre t rest nx)
  then show ?thesis using assms switch_to_inv [OF assms(1,2) some]
    by (auto simp: pick_and_switch_next_def pick_loop_some split: if_splits)
qed

lemma exit_loop_inv:
  assumes "sched_inv s" and "idle s"
  shows "sched_inv (fst (exit_loop s (ready_queue s)))"
proof (cases rule: queue_cases [of "ready_queue s" s])
  case none
  then show ?thesis using assms(1) queue_used_up_inv by (auto simp: exit_loop_none)
next
  case (some pre t rest nx)
  have "sched_inv (run_thread (enter_process (s\<lparr>ready_queue := rest\<rparr>) (tcb_pid nx)) t nx)"
    by (rule run_thread_inv [OF sched_inv_core [OF assms(1)] assms(2) some]) (auto simp: enter_process_cr3)
  then show ?thesis using some by (simp add: exit_loop_some)
qed

lemma idle_none: "sched_inv s \<Longrightarrow> current_tid s = None \<Longrightarrow> idle s"
  using sched_invD(4) by (fastforce simp: idle_def)

lemma idle_current:
  "sched_inv s \<Longrightarrow> current_tid s = Some c \<Longrightarrow> threads s c = Some t \<Longrightarrow> thread_st t \<noteq> Running \<Longrightarrow> idle s"
  using sched_invD(4) by (fastforce simp: idle_def)

lemma add_new_thread_inv:
  assumes inv: "sched_inv s" and fresh: "next_tid s \<noteq> - 1"
    and p: "\<And>x th. threads s x = Some th \<Longrightarrow> \<exists>p'. ps (tcb_pid th) = Some p' \<and> x \<in> set (pcb_threads p')"
      "\<And>i p. processes s i = Some p \<Longrightarrow> \<exists>p'. ps i = Some p' \<and> page_table_root p' = page_table_root p"
      "\<And>i p. ps i = Some p \<Longrightarrow> i < np" "0 < np" "current_tid s = None \<Longrightarrow> ps 0 = None"
    and t: "tcb_tid t = next_tid s" "ps (tcb_pid t) = Some pc" "next_tid s \<in> set (pcb_threads pc)" "thread_st t = Ready"
    and s': "processes s' = ps" "threads s' = (threads s)(next_tid s \<mapsto> t)"
      "ready_queue s' = ready_queue s @ [next_tid s]" "current_tid s' = current_tid s"
      "next_pid s' = np" "next_tid s' = next_tid s + 1" "cr3 s' = cr3 s" "rsp0 s' = rsp0 s"
  shows "sched_inv s'"
proof (rule sched_invI)
  have lt: "next_tid s < next_tid s + 1" using fresh by (rule word_less_plus_1)
  have new: "threads s (next_tid s) = None" using sched_invD(5) [OF inv, of "next_tid s"] by (cases "threads s (next_tid s)") auto
  then have notin: "next_tid s \<notin> set (ready_queue s)" using sched_invD(2) [OF inv, of "next_tid s"] by auto
  show "distinct (ready_queue s')" using sched_invD(1) [OF inv] notin s' by simp
  show "\<exists>th. threads s' x = Some th \<and> (thread_st th = Ready \<or> thread_st th = Terminated)"
    if "x \<in> set (ready_queue s')" for x
    using that sched_invD(2) [OF inv, of x] t s' notin by auto
  show "x \<in> set (ready_queue s')" if "threads s' x = Some th" "thread_st th = Ready" for x th
    using that sched_invD(3) [OF inv, of x] s' by (auto split: if_splits)
  show "current_tid s' = Some x" if "threads s' x = Some th" "thread_st th = Running" for x th
    using that sched_invD(4) [OF inv, of x] s' t by (auto split: if_splits)
  show "tcb_tid th = x \<and> x < next_tid s' \<and> (\<exists>p. processes s' (tcb_pid th) = Some p \<and> x \<in> set (pcb_threads p))"
    if "threads s' x = Some th" for x th
    using that sched_invD(5) [OF inv, of x] s' t lt p(1) by (auto split: if_splits intro: order.strict_trans)
  show "i < next_pid s'" if "processes s' i = Some q" for i q using that p(3) s' by auto
  show "0 < next_pid s'" using p(4) s' by simp
  show "0 < next_tid s'" using sched_invD(8) [OF inv] lt s' by simp
  show "threads s' 0 = None \<and> processes s' 0 = None" if "current_tid s' = None"
    using that sched_invD(8,9) [OF inv] s' p(5) by auto
  show "\<exists>th. threads s' c = Some th \<and> rsp0 s' = kernel_sp th \<and>
      (\<forall>q. processes s' (tcb_pid th) = Some q \<longrightarrow> page_table_root q \<noteq> 0 \<longrightarrow> cr3 s' = page_table_root q)"
    if cur: "current_tid s' = Some c" for c
  proof -
    obtain th where th: "threads s c = Some th" "rsp0 s = kernel_sp th"
      "\<forall>q. processes s (tcb_pid th) = Some q \<longrightarrow> page_table_root q \<noteq> 0 \<longrightarrow> cr3 s = page_table_root q"
      using cur s' sched_invD(10) [OF inv, of c] by auto
    obtain q where q: "processes s (tcb_pid th) = Some q" using sched_invD(5) [OF inv th(1)] by auto
    have "c \<noteq> next_tid s" using th(1) new by auto
    then show ?thesis using th q p(2) [OF q] s' by auto
  qed
qed

lemma choose_stack_simps:
  assumes "choose_stack s ksp fresh = Some (s', k)"
  shows "processes s' = processes s" "threads s' = threads s" "ready_queue s' = ready_queue s"
    "current_tid s' = current_tid s" "active s' = active s" "default_quantum s' = default_quantum s"
    "next_pid s' = next_pid s" "next_tid s' = next_tid s" "cr3 s' = cr3 s" "rsp0 s' = rsp0 s"
    "pending_free_stack s' = pending_free_stack s"
  using assms
  by (auto simp: choose_stack_def alloc_kernel_stack_def split: if_splits option.splits)

lemma new_tcb_simps [simp]:
  "tcb_tid (new_tcb i p u k r c q) = i" "tcb_pid (new_tcb i p u k r c q) = p" "kernel_sp (new_tcb i p u k r c q) = k"
  "thread_st (new_tcb i p u k r c q) = Ready" "tcb_context (new_tcb i p u k r c q) = c"
  by (simp_all add: new_tcb_def)

lemma pcb_simps [simp]:
  "page_table_root (add_thread p i) = page_table_root p" "set (pcb_threads (add_thread p i)) = insert i (set (pcb_threads p))"
  "page_table_root (new_pcb j n r u) = r" "pcb_threads (new_pcb j n r u) = []"
  "page_table_root (terminate p code) = page_table_root p" "pcb_threads (terminate p code) = pcb_threads p"
  by (auto simp: add_thread_def new_pcb_def terminate_def)

lemma spawn_process_inv:
  assumes inv: "sched_inv s" and fresh: "next_tid s \<noteq> - 1" "next_pid s \<noteq> - 1"
    and sp: "spawn_process s name root entry usp ksp user arg fr = Some (s', pid, tid)"
  shows "sched_inv s'"
proof -
  obtain s2 k where c: "choose_stack (s\<lparr>next_pid := next_pid s + 1, next_tid := next_tid s + 1\<rparr>) ksp fr = Some (s2, k)"
    and s': "s' = s2\<lparr>processes := (processes s2)(next_pid s \<mapsto> add_thread (new_pcb (next_pid s) name root user) (next_tid s)),
      threads := (threads s2)(next_tid s \<mapsto> new_tcb (next_tid s) (next_pid s) usp k 10 (initial_context user entry usp k arg)
        (default_quantum s2)), ready_queue := ready_queue s2 @ [next_tid s]\<rparr>"
    using sp by (auto simp: spawn_process_def Let_def split: option.splits)
  have newp: "processes s (next_pid s) = None"
    using sched_invD(6) [OF inv, of "next_pid s"] by (cases "processes s (next_pid s)") auto
  have lt: "next_pid s < next_pid s + 1" using fresh(2) by (rule word_less_plus_1)
  have nopid: "tcb_pid th \<noteq> next_pid s" if "threads s x = Some th" for x th
    using sched_invD(5) [OF inv that] newp by auto
  have lts: "i < next_pid s + 1" if "processes s i = Some q" for i q
    using sched_invD(6) [OF inv that] lt by order
  show ?thesis
    by (rule add_new_thread_inv [OF inv fresh(1),
          where ps = "processes s'" and np = "next_pid s + 1"
            and t = "new_tcb (next_tid s) (next_pid s) usp k 10 (initial_context user entry usp k arg) (default_quantum s2)"
            and pc = "add_thread (new_pcb (next_pid s) name root user) (next_tid s)"])
      (use newp lt nopid lts sched_invD(5,7,9) [OF inv] in
        \<open>auto simp: s' choose_stack_simps [OF c] split: if_splits\<close>)
qed

lemma spawn_thread_inv:
  assumes inv: "sched_inv s" and fresh: "next_tid s \<noteq> - 1"
    and sp: "spawn_thread s pid entry usp ksp user arg fr = Some (s', r)"
  shows "sched_inv s'"
proof (cases "processes s pid")
  case None
  then show ?thesis using sp inv by (simp add: spawn_thread_def)
next
  case (Some p)
  obtain s2 k where c: "choose_stack (s\<lparr>next_tid := next_tid s + 1\<rparr>) ksp fr = Some (s2, k)"
    and s': "s' = s2\<lparr>processes := (processes s2)(pid \<mapsto> add_thread p (next_tid s)),
      threads := (threads s2)(next_tid s \<mapsto> new_tcb (next_tid s) pid usp k 10 (initial_context user entry usp k arg)
        (default_quantum s2)), ready_queue := ready_queue s2 @ [next_tid s]\<rparr>"
    using sp Some by (auto simp: spawn_thread_def Let_def split: option.splits)
  show ?thesis
    by (rule add_new_thread_inv [OF inv fresh,
          where ps = "processes s'" and np = "next_pid s"
            and t = "new_tcb (next_tid s) pid usp k 10 (initial_context user entry usp k arg) (default_quantum s2)"
            and pc = "add_thread p (next_tid s)"])
      (use Some sched_invD(5,6,7,9) [OF inv] in
        \<open>fastforce simp: s' choose_stack_simps [OF c] split: if_splits\<close>)+
qed

lemma capture_pick_inv:
  assumes inv: "sched_inv s" and none: "current_tid s = None"
    and pick: "pick_and_switch_next (capture_kernel s ctx) ctx = Some (s', ctx', b)"
  shows "sched_inv s'"
proof -
  let ?c = "capture_kernel s ctx" and ?k = "mark_ready (new_tcb 0 0 0 (stack_pointer ctx) 10 ctx (default_quantum s))"
  have no0: "threads s 0 = None" "processes s 0 = None" using sched_invD(9) [OF inv none] by auto
  have q0: "0 \<notin> set (ready_queue s)" using sched_invD(2) [OF inv, of 0] no0 by auto
  have c [simp]: "threads ?c = (threads s)(0 \<mapsto> ?k)" "ready_queue ?c = ready_queue s @ [0]"
    "processes ?c = (processes s)(0 \<mapsto> add_thread (new_pcb 0 (lit ''kernel-main'') 0 False) 0)"
    "next_tid ?c = next_tid s" "next_pid ?c = next_pid s" "current_tid ?c = None"
    by (simp_all add: capture_kernel_def none)
  have nopid: "tcb_pid th \<noteq> 0" if "threads s x = Some th" for x th
    using sched_invD(5) [OF inv that] no0 by auto
  have core: "sched_core ?c"
    unfolding sched_core_def
    using q0 no0 nopid none sched_invD(1-8) [OF inv] by (auto split: if_splits)
  have idle: "idle ?c" using idle_none [OF inv none] by (auto simp: idle_def)
  have "is_ready_tid ?c 0" "0 \<in> set (ready_queue ?c)" by (simp_all add: is_ready_tid_def)
  then obtain pre t rest nx where some: "ready_queue ?c = pre @ t # rest" "\<forall>t\<in>set pre. \<not> is_ready_tid ?c t"
      "threads ?c t = Some nx" "thread_st nx = Ready"
    using queue_cases [of "ready_queue ?c" ?c] by blast
  have "sched_inv (switch_to ?c t nx rest)"
    unfolding switch_to_def
    by (rule run_thread_inv [OF core idle some]) (auto simp: current_pid_def enter_process_cr3)
  then show ?thesis using pick some by (auto simp: pick_and_switch_next_def pick_loop_some)
qed

lemma same_thread_upd [simp]:
  "same_thread t (t\<lparr>time_slice := x\<rparr>)" "same_thread t (t\<lparr>total_ticks := y\<rparr>)"
  "same_thread t (t\<lparr>total_ticks := y, time_slice := x\<rparr>)"
  "same_thread t (mark_terminated t)" "same_thread t (mark_blocked t)" "same_thread t ((mark_blocked t)\<lparr>tcb_context := c\<rparr>)"
  "same_thread t ((mark_ready t)\<lparr>time_slice := x\<rparr>)"
  "same_thread t ((mark_ready (t\<lparr>total_ticks := y\<rparr>))\<lparr>time_slice := x, tcb_context := c\<rparr>)"
  by (simp_all add: same_thread_def)

lemma current_thread:
  assumes "sched_inv s" and "current_tid s = Some c"
  obtains t where "threads s c = Some t"
  using sched_invD(10) [OF assms] by blast

lemma on_tick_inv:
  assumes inv: "sched_inv s" and tick: "on_tick s ctx = Some (s', ctx', b)"
  shows "sched_inv s'"
proof (cases "active s")
  case True
  show ?thesis
  proof (cases "current_tid s")
    case None
    then show ?thesis using tick True capture_pick_inv [OF inv None] by (simp add: on_tick_def)
  next
    case (Some c)
    obtain t where t: "threads s c = Some t" using current_thread [OF inv Some] .
    define u where "u = t\<lparr>total_ticks := saturating_add_w (total_ticks t) 1\<rparr>"
    have u: "same_thread t u" "thread_st u = thread_st t" by (simp_all add: u_def)
    show ?thesis
    proof (cases "thread_st t = Running")
      case False
      have "sched_inv (set_thread s c u)" by (rule set_thread_inv_same [OF inv t u])
      moreover have "idle (set_thread s c u)"
        using idle_current [OF inv Some t False] False by (simp add: idle_def u)
      ultimately show ?thesis using tick True Some t False pick_inv by (simp add: on_tick_def u_def)
    next
      case run: True
      show ?thesis
      proof (cases "1 < time_slice t \<and> ready_queue s \<noteq> [] \<or> ready_queue s = []")
        case True
        then show ?thesis
          using tick \<open>active s\<close> Some t run set_thread_inv_same [OF inv t]
          by (auto simp: on_tick_def Let_def split: if_splits)
      next
        case False
        let ?v = "(mark_ready u)\<lparr>time_slice := default_quantum s, tcb_context := ctx\<rparr>"
        let ?s = "(set_thread s c ?v)\<lparr>ready_queue := ready_queue s @ [c]\<rparr>"
        have nq: "c \<notin> set (ready_queue s)" using sched_invD(2) [OF inv, of c] t run by auto
        have "sched_inv ?s"
          by (rule set_thread_inv [OF inv t])
            (use nq sched_invD(1) [OF inv] run in \<open>auto simp: u_def same_thread_def\<close>)
        moreover have "idle ?s"
          using sched_invD(4) [OF inv] Some run by (fastforce simp: idle_def u_def)
        moreover have "pick_and_switch_next ?s ctx = Some (s', ctx', b)"
          using tick \<open>active s\<close> Some t run False by (auto simp: on_tick_def Let_def u_def)
        ultimately show ?thesis using pick_inv by blast
      qed
    qed
  qed
qed (use tick inv in \<open>simp add: on_tick_def\<close>)

lemma expire_inv: "sched_inv s \<Longrightarrow> sched_inv (expire_current_quantum s)"
  by (auto simp: expire_current_quantum_def split: option.split intro!: set_thread_inv_same)

lemma yield_inv:
  assumes inv: "sched_inv s" and y: "yield_current s ctx = Some (s', ctx', b)"
  shows "sched_inv s'"
  using y unfolding yield_current_def
  by (rule on_tick_inv [rotated]) (use inv in \<open>auto split: option.split intro!: set_thread_inv_same\<close>)

lemma terminated_inv:
  assumes inv: "sched_inv s" and c: "current_tid s = Some c" "threads s c = Some t"
  shows "sched_inv (set_thread s c (mark_terminated t))" and "idle (set_thread s c (mark_terminated t))"
proof -
  have "sched_inv ((set_thread s c (mark_terminated t))\<lparr>ready_queue := ready_queue s\<rparr>)"
    by (rule set_thread_inv [OF inv c(2)]) (use sched_invD(1) [OF inv] in auto)
  then show "sched_inv (set_thread s c (mark_terminated t))" by (simp add: set_thread_def)
  show "idle (set_thread s c (mark_terminated t))"
    using sched_invD(4) [OF inv] c by (fastforce simp: idle_def)
qed

lemma stack_fields_inv:
  "sched_inv s \<Longrightarrow> processes s' = processes s \<Longrightarrow> threads s' = threads s \<Longrightarrow> ready_queue s' = ready_queue s \<Longrightarrow>
     current_tid s' = current_tid s \<Longrightarrow> next_pid s' = next_pid s \<Longrightarrow> next_tid s' = next_tid s \<Longrightarrow> cr3 s' = cr3 s \<Longrightarrow>
     rsp0 s' = rsp0 s \<Longrightarrow> sched_inv s'"
  by (simp add: sched_inv_def sched_core_def split: option.splits)

lemma terminate_process_inv:
  assumes inv: "sched_inv s" and p: "processes s pid = Some p"
  shows "sched_inv (s\<lparr>processes := (processes s)(pid \<mapsto> terminate p code)\<rparr>)"
proof (rule sched_invI)
  fix t th assume "threads (s\<lparr>processes := (processes s)(pid \<mapsto> terminate p code)\<rparr>) t = Some th"
  then show "tcb_tid th = t \<and> t < next_tid (s\<lparr>processes := (processes s)(pid \<mapsto> terminate p code)\<rparr>) \<and>
      (\<exists>q. processes (s\<lparr>processes := (processes s)(pid \<mapsto> terminate p code)\<rparr>) (tcb_pid th) = Some q \<and>
        t \<in> set (pcb_threads q))"
    using p sched_invD(5) [OF inv, of t th] by auto
next
  fix c assume "current_tid (s\<lparr>processes := (processes s)(pid \<mapsto> terminate p code)\<rparr>) = Some c"
  then obtain th where "threads s c = Some th" "rsp0 s = kernel_sp th"
      "\<forall>q. processes s (tcb_pid th) = Some q \<longrightarrow> page_table_root q \<noteq> 0 \<longrightarrow> cr3 s = page_table_root q"
    using sched_invD(10) [OF inv, of c] by auto
  then show "\<exists>th. threads (s\<lparr>processes := (processes s)(pid \<mapsto> terminate p code)\<rparr>) c = Some th \<and>
      rsp0 (s\<lparr>processes := (processes s)(pid \<mapsto> terminate p code)\<rparr>) = kernel_sp th \<and>
      (\<forall>q. processes (s\<lparr>processes := (processes s)(pid \<mapsto> terminate p code)\<rparr>) (tcb_pid th) = Some q \<longrightarrow>
        page_table_root q \<noteq> 0 \<longrightarrow> cr3 (s\<lparr>processes := (processes s)(pid \<mapsto> terminate p code)\<rparr>) = page_table_root q)"
    using p by auto
qed (use p sched_invD(1-4,6-9) [OF inv] in \<open>auto split: if_splits\<close>)

lemma end_current_inv:
  assumes inv: "sched_inv s"
  shows "sched_inv (end_current s code)" and "idle (end_current s code)"
proof -
  have "sched_inv (end_current s code) \<and> idle (end_current s code)"
  proof (cases "current_tid s")
    case None
    then show ?thesis using inv idle_none by (simp add: end_current_def)
  next
    case (Some c)
    obtain t where t: "threads s c = Some t" using current_thread [OF inv Some] .
    let ?s = "defer_recycle_stack (set_thread s c (mark_terminated t)) (kernel_sp t)"
    have "sched_inv ?s" by (rule stack_fields_inv [OF terminated_inv(1) [OF inv Some t]]) simp_all
    moreover have "idle ?s" using terminated_inv(2) [OF inv Some t] by (simp add: idle_def)
    ultimately show ?thesis
      using Some t terminate_process_inv [of ?s "tcb_pid t"]
      by (auto simp: end_current_def Let_def idle_def split: option.split)
  qed
  then show "sched_inv (end_current s code)" "idle (end_current s code)" by auto
qed

lemma exit_inv: "sched_inv s \<Longrightarrow> exit_current s code ctx = Some (s', ctx', b) \<Longrightarrow> sched_inv s'"
  using pick_inv [OF end_current_inv] by (simp add: exit_current_def)

lemma exit_syscall_inv: "sched_inv s \<Longrightarrow> sched_inv (fst (exit_current_syscall s code))"
  using exit_loop_inv [OF end_current_inv] by (simp add: exit_current_syscall_def Let_def)

lemma block_inv:
  assumes inv: "sched_inv s"
  shows "sched_inv (fst (block_thread s tid))"
proof (cases "threads s tid")
  case (Some t)
  show ?thesis
  proof (cases "thread_st t \<noteq> Terminated \<and> thread_st t \<noteq> Blocked")
    case True
    have "sched_inv ((set_thread s tid (mark_blocked t))\<lparr>ready_queue := filter (\<lambda>i. i \<noteq> tid) (ready_queue s)\<rparr>)"
      by (rule set_thread_inv [OF inv Some]) (use True sched_invD(1) [OF inv] in auto)
    then show ?thesis using Some True by (simp add: block_thread_def)
  qed (use Some inv in \<open>auto simp: block_thread_def\<close>)
qed (use inv in \<open>simp add: block_thread_def\<close>)

lemma block_current_inv:
  assumes inv: "sched_inv s" and b: "block_current s ctx = Some (s', ctx', sw)"
  shows "sched_inv s'"
proof (cases "current_tid s")
  case None
  then show ?thesis using b pick_inv [OF inv idle_none [OF inv None]] by (simp add: block_current_def)
next
  case (Some c)
  obtain t where t: "threads s c = Some t" using current_thread [OF inv Some] .
  show ?thesis
  proof (cases "thread_st t = Running")
    case False
    then show ?thesis using b Some t pick_inv [OF inv idle_current [OF inv Some t False]] by (simp add: block_current_def)
  next
    case True
    let ?s = "set_thread s c ((mark_blocked t)\<lparr>tcb_context := ctx\<rparr>)"
    have nq: "c \<notin> set (ready_queue s)" using sched_invD(2) [OF inv, of c] t True by auto
    have "sched_inv (?s\<lparr>ready_queue := ready_queue s\<rparr>)"
      by (rule set_thread_inv [OF inv t]) (use nq True sched_invD(1) [OF inv] in auto)
    then have "sched_inv ?s" by (simp add: set_thread_def)
    moreover have "idle ?s" using sched_invD(4) [OF inv] Some True by (fastforce simp: idle_def)
    ultimately show ?thesis using pick_inv b Some t True by (simp add: block_current_def)
  qed
qed

lemma unblock_inv:
  assumes inv: "sched_inv s"
  shows "sched_inv (fst (unblock_thread s tid))"
proof (cases "threads s tid")
  case (Some t)
  show ?thesis
  proof (cases "thread_st t = Blocked")
    case True
    have nq: "tid \<notin> set (ready_queue s)" using sched_invD(2) [OF inv, of tid] Some True by auto
    have "sched_inv ((set_thread s tid ((mark_ready t)\<lparr>time_slice := default_quantum s\<rparr>))\<lparr>ready_queue := ready_queue s @ [tid]\<rparr>)"
      by (rule set_thread_inv [OF inv Some]) (use nq True sched_invD(1) [OF inv] in auto)
    then show ?thesis using Some True by (simp add: unblock_thread_def)
  qed (use Some inv in \<open>auto simp: unblock_thread_def\<close>)
qed (use inv in \<open>simp add: unblock_thread_def\<close>)

lemma switched_Some: "switched r = Some (s', k) \<longleftrightarrow> (\<exists>ctx b. r = Some (s', ctx, b) \<and> k = (if b then Some ctx else None))"
  by (auto simp: switched_def)

subsection \<open>Reachable states\<close>

lemma sched_exec_inv:
  assumes "sched_inv s" and "ids_left s op" and "sched_exec s op = Some (s', r)"
  shows "sched_inv s'"
proof (cases op)
  case Init
  have "sched_inv (sched_init s)" by (rule stack_fields_inv [OF assms(1)]) (simp_all add: sched_init_def)
  then show ?thesis using assms(3) Init by (simp add: sched_exec_def)
next
  case Exit_Syscall
  then show ?thesis using assms exit_syscall_inv [OF assms(1)] by (simp add: sched_exec_def) (metis fst_conv)
qed (use assms spawn_process_inv [OF assms(1)] spawn_thread_inv [OF assms(1)] on_tick_inv [OF assms(1)]
    expire_inv [OF assms(1)] yield_inv [OF assms(1)] exit_inv [OF assms(1)]
    block_inv [OF assms(1)] block_current_inv [OF assms(1)] unblock_inv [OF assms(1)]
    in \<open>auto simp: sched_exec_def switched_Some\<close>)

lemma new_sched_inv: "sched_inv new_sched"
  by (simp add: sched_inv_def sched_core_def new_sched_def)

interpretation rr: started_system "\<lambda>s s'. \<exists>op r. ids_left s op \<and> sched_exec s op = Some (s', r)" sched_inv "\<lambda>s. s = new_sched"
  by unfold_locales (use sched_exec_inv new_sched_inv in auto)

lemma sched_reachable_run:
  "sched_reachable ok s \<Longrightarrow> (\<lambda>s s'. \<exists>op r. ids_left s op \<and> sched_exec s op = Some (s', r))\<^sup>*\<^sup>* new_sched s"
proof (induction rule: sched_reachable.induct)
  case (exec s op s' r)
  then show ?case by (auto intro: rtranclp.rtrancl_into_rtrancl)
qed simp

lemma sched_reachable_inv: "sched_reachable ok s \<Longrightarrow> sched_inv s"
  using sched_reachable_run rr.reachable_invar by blast

subsection \<open>Saved registers\<close>

lemma keeps_context_refl [simp]: "keeps_context s s t"
  by (simp add: keeps_context_def)

lemma pick_context:
  assumes "pick_and_switch_next s ctx = Some (s', ctx', b)"
  shows "keeps_context s s' t"
    and "b \<Longrightarrow> \<exists>t th. current_tid s' = Some t \<and> threads s t = Some th \<and> ctx' = tcb_context th \<and> current_tid s \<noteq> Some t"
    and "\<not> b \<Longrightarrow> current_tid s' = current_tid s \<and> ctx' = ctx"
  using assms
  by (cases rule: queue_cases [of "ready_queue s" s];
      auto simp: pick_and_switch_next_def pick_loop_none pick_loop_some keeps_context_def split: if_splits)+

lemma exit_loop_context:
  assumes "exit_loop s (ready_queue s) = (s', r)"
  shows "keeps_context s s' t"
    and "r = Some k \<Longrightarrow> \<exists>t th. current_tid s' = Some t \<and> threads s t = Some th \<and> k = tcb_context th"
    and "r = None \<Longrightarrow> current_tid s' = current_tid s"
  using assms
  by (cases rule: queue_cases [of "ready_queue s" s];
      auto simp: exit_loop_none exit_loop_some keeps_context_def split: if_splits)+

lemma pick_resumes:
  assumes "switched (pick_and_switch_next s ctx) = Some (s', r)" and "current_tid s \<noteq> Some t"
  shows "keeps_context s s' t \<and> resumes s s' r t"
  using assms pick_context [of s ctx s'] by (fastforce simp: switched_Some resumes_def)

lemma keeps_trans:
  "threads s1 t = threads s t \<Longrightarrow> keeps_context s1 s2 t \<and> resumes s1 s2 r t \<Longrightarrow> keeps_context s s2 t \<and> resumes s s2 r t"
  by (simp add: keeps_context_def resumes_def)

lemma on_tick_branches:
  assumes "active s" and "current_tid s = Some c" and "threads s c = Some t"
  defines "u \<equiv> t\<lparr>total_ticks := saturating_add_w (total_ticks t) 1\<rparr>"
  shows "thread_st t \<noteq> Running \<Longrightarrow> on_tick s ctx = pick_and_switch_next (set_thread s c u) ctx"
    and "thread_st t = Running \<Longrightarrow> ready_queue s = [] \<Longrightarrow>
      on_tick s ctx = Some (set_thread s c (u\<lparr>time_slice := default_quantum s\<rparr>), ctx, False)"
    and "thread_st t = Running \<Longrightarrow> ready_queue s \<noteq> [] \<Longrightarrow> 1 < time_slice t \<Longrightarrow>
      on_tick s ctx = Some (set_thread s c (u\<lparr>time_slice := time_slice t - 1\<rparr>), ctx, False)"
    and "thread_st t = Running \<Longrightarrow> ready_queue s \<noteq> [] \<Longrightarrow> \<not> 1 < time_slice t \<Longrightarrow>
      on_tick s ctx = pick_and_switch_next
        ((set_thread s c ((mark_ready u)\<lparr>time_slice := default_quantum s, tcb_context := ctx\<rparr>))
           \<lparr>ready_queue := ready_queue s @ [c]\<rparr>) ctx"
  using assms by (simp_all add: on_tick_def Let_def)

lemma tick_resumes:
  assumes inv: "sched_inv s" and nc: "current_tid s \<noteq> Some t" and ex: "switched (on_tick s ctx) = Some (s', r)"
  shows "keeps_context s s' t \<and> resumes s s' r t"
proof (cases "active s")
  case True
  show ?thesis
  proof (cases "current_tid s")
    case None
    show ?thesis
    proof (cases "t = 0")
      case True
      then show ?thesis using sched_invD(9) [OF inv None] by (simp add: keeps_context_def resumes_def)
    next
      case False
      have "keeps_context (capture_kernel s ctx) s' t \<and> resumes (capture_kernel s ctx) s' r t"
        by (rule pick_resumes [of _ ctx]) (use ex True None in \<open>simp_all add: on_tick_def capture_kernel_def\<close>)
      then show ?thesis by (rule keeps_trans [rotated]) (use False in \<open>simp add: capture_kernel_def\<close>)
    qed
  next
    case (Some c)
    obtain th where th: "threads s c = Some th" using current_thread [OF inv Some] .
    have ct: "c \<noteq> t" using nc Some by simp
    have upd: "keeps_context s s' t \<and> resumes s s' r t"
      if "switched (pick_and_switch_next s1 ctx) = Some (s', r)" "current_tid s1 = Some c" "threads s1 t = threads s t" for s1
      by (rule keeps_trans [OF that(3) pick_resumes [OF that(1)]]) (simp add: that(2) ct)
    have stay: "keeps_context s (set_thread s c u) t \<and> resumes s (set_thread s c u) None t" for u
      using ct Some by (auto simp: keeps_context_def resumes_def)
    note br = on_tick_branches [OF True Some th, of ctx]
    consider "thread_st th \<noteq> Running" | "thread_st th = Running" "ready_queue s = []"
      | "thread_st th = Running" "ready_queue s \<noteq> []" "1 < time_slice th"
      | "thread_st th = Running" "ready_queue s \<noteq> []" "\<not> 1 < time_slice th" by blast
    then show ?thesis
    proof cases
      case 1
      then show ?thesis using upd [OF ex [unfolded br(1) [OF 1]]] ct Some by simp
    next
      case 2
      then show ?thesis using ex br(2) [OF 2] stay by (auto simp: switched_def)
    next
      case 3
      then show ?thesis using ex br(3) [OF 3] stay by (auto simp: switched_def)
    next
      case 4
      then show ?thesis using upd [OF ex [unfolded br(4) [OF 4]]] ct Some by simp
    qed
  qed
qed (use ex nc in \<open>auto simp: on_tick_def switched_def resumes_def\<close>)

lemma exec_resumes:
  assumes inv: "sched_inv s" and nc: "current_tid s \<noteq> Some t" and ex: "sched_exec s op = Some (s', r)"
  shows "keeps_context s s' t \<and> resumes s s' r t"
proof -
  have new: "t \<noteq> next_tid s" if "threads s t = Some th" for th
    using sched_invD(5) [OF inv that] by auto
  have same: "keeps_context s s' t \<and> resumes s s' r t"
    if "\<And>th. threads s t = Some th \<Longrightarrow> \<exists>th'. threads s' t = Some th' \<and> tcb_context th' = tcb_context th"
      "current_tid s' = current_tid s" for s' r
    using that nc by (auto simp: keeps_context_def resumes_def)
  show ?thesis
  proof (cases op)
    case (Spawn_Process name root entry usp ksp user arg fresh)
    then show ?thesis using ex new
      by (intro same) (auto simp: sched_exec_def spawn_process_def Let_def choose_stack_simps split: option.splits)
  next
    case (Spawn_Thread pid entry usp ksp user arg fresh)
    then show ?thesis using ex new
      by (intro same) (auto simp: sched_exec_def spawn_thread_def Let_def choose_stack_simps split: option.splits)
  next
    case (Tick ctx)
    then show ?thesis using ex tick_resumes [OF inv nc] by (simp add: sched_exec_def)
  next
    case Expire
    then show ?thesis using ex nc
      by (intro same) (auto simp: sched_exec_def expire_current_quantum_def split: option.splits)
  next
    case (Yield ctx)
    let ?s = "case current_tid s of None \<Rightarrow> s | Some tid \<Rightarrow>
      (case threads s tid of None \<Rightarrow> s | Some t \<Rightarrow> if thread_st t = Running then set_thread s tid (t\<lparr>time_slice := 0\<rparr>) else s)"
    have "sched_inv ?s" using inv by (auto split: option.split intro!: set_thread_inv_same)
    moreover have "current_tid ?s = current_tid s" "threads ?s t = threads s t"
      using nc by (auto split: option.split)
    ultimately show ?thesis
      using ex Yield nc tick_resumes [of ?s t ctx s' r] keeps_trans [of ?s t s s' r]
      by (simp add: sched_exec_def yield_current_def)
  next
    case (Exit code ctx)
    have "current_tid (end_current s code) = current_tid s" "threads (end_current s code) t = threads s t"
      using nc by (auto simp: end_current_def Let_def split: option.split)
    then show ?thesis
      using ex Exit nc pick_resumes [of "end_current s code" ctx s' r t] keeps_trans [of "end_current s code" t s s' r]
      by (simp add: sched_exec_def exit_current_def)
  next
    case (Exit_Syscall code)
    have e: "current_tid (end_current s code) = current_tid s" "threads (end_current s code) t = threads s t"
      using nc by (auto simp: end_current_def Let_def split: option.split)
    have l: "exit_loop (end_current s code) (ready_queue (end_current s code)) = (s', r)"
      using ex Exit_Syscall by (simp add: sched_exec_def exit_current_syscall_def Let_def)
    have "resumes (end_current s code) s' r t"
      using exit_loop_context(2,3) [OF l] nc e by (cases r) (auto simp: resumes_def)
    then show ?thesis
      using exit_loop_context(1) [OF l, of t] keeps_trans [OF e(2)] by blast
  next
    case (Block tid)
    have "s' = fst (block_thread s tid)" using ex Block by (simp add: sched_exec_def)
    then show ?thesis
      by (intro same) (cases "threads s tid"; auto simp: block_thread_def split: if_splits)+
  next
    case (Block_Current ctx)
    let ?s = "case current_tid s of None \<Rightarrow> s | Some tid \<Rightarrow>
      (case threads s tid of None \<Rightarrow> s
       | Some t \<Rightarrow> if thread_st t = Running then set_thread s tid ((mark_blocked t)\<lparr>tcb_context := ctx\<rparr>) else s)"
    have "current_tid ?s = current_tid s" "threads ?s t = threads s t"
      using nc by (auto split: option.split)
    then show ?thesis
      using ex Block_Current nc pick_resumes [of ?s ctx s' r t] keeps_trans [of ?s t s s' r]
      by (simp add: sched_exec_def block_current_def)
  next
    case (Unblock tid)
    have "s' = fst (unblock_thread s tid)" using ex Unblock by (simp add: sched_exec_def)
    then show ?thesis
      by (intro same) (cases "threads s tid"; auto simp: unblock_thread_def split: if_splits)+
  next
    case Init
    then show ?thesis using ex by (intro same) (auto simp: sched_exec_def sched_init_def)
  qed
qed

lemma sched_run_nonempty: "sched_run s ops = Some tr \<Longrightarrow> tr \<noteq> [] \<and> hd tr = s"
  by (cases ops) (auto split: if_splits option.splits)

lemma sched_run_keeps:
  assumes "sched_inv s" and "sched_run s ops = Some tr" and "\<forall>s'\<in>set tr. current_tid s' \<noteq> Some t"
    and "threads s t = Some th"
  shows "sched_inv (last tr) \<and> (\<exists>th'. threads (last tr) t = Some th' \<and> tcb_context th' = tcb_context th)"
  using assms
proof (induction ops arbitrary: s tr th)
  case (Cons op ops)
  obtain s1 r tr1 where s1: "ids_left s op" "sched_exec s op = Some (s1, r)" "sched_run s1 ops = Some tr1" "tr = s # tr1"
    using Cons.prems(2) by (auto split: if_splits option.splits)
  have ne: "tr1 \<noteq> []" using sched_run_nonempty [OF s1(3)] by simp
  have "keeps_context s s1 t" using exec_resumes [OF Cons.prems(1) _ s1(2)] Cons.prems(3) s1(4) by simp
  then obtain th1 where th1: "threads s1 t = Some th1" "tcb_context th1 = tcb_context th"
    using Cons.prems(4) by (auto simp: keeps_context_def)
  have "sched_inv s1" using sched_exec_inv [OF Cons.prems(1) s1(1,2)] .
  from Cons.IH [OF this s1(3) _ th1(1)] Cons.prems(3) s1(4) ne th1(2) show ?case by auto
qed auto

lemma park_saves:
  assumes inv: "sched_inv s" and c: "current_tid s = Some t" "threads s t = Some th" "thread_st th = Running"
    and op: "op = Tick k \<or> op = Yield k \<or> op = Block_Current k"
    and ex: "sched_exec s op = Some (s1, r)" and away: "current_tid s1 \<noteq> Some t"
  shows "\<exists>th1. threads s1 t = Some th1 \<and> tcb_context th1 = k"
proof -
  have via: "\<exists>th1. threads s1 t = Some th1 \<and> tcb_context th1 = k"
    if "switched (pick_and_switch_next s0 k) = Some (s1, r)" "threads s0 t = Some th0" "tcb_context th0 = k" for s0 th0
    using that pick_context(1) [of s0 k s1 _ _ t] by (fastforce simp: switched_Some keeps_context_def)
  have tick: "\<exists>th1. threads s1 t = Some th1 \<and> tcb_context th1 = k"
    if "switched (on_tick s0 k) = Some (s1, r)" "current_tid s0 = Some t" "threads s0 t = Some u" "thread_st u = Running"
    for s0 u
  proof -
    let ?u = "(mark_ready (u\<lparr>total_ticks := saturating_add_w (total_ticks u) 1\<rparr>))
      \<lparr>time_slice := default_quantum s0, tcb_context := k\<rparr>"
    have "switched (pick_and_switch_next ((set_thread s0 t ?u)\<lparr>ready_queue := ready_queue s0 @ [t]\<rparr>) k) = Some (s1, r)"
    proof -
      have act: "active s0" using that away by (cases "active s0") (auto simp: on_tick_def switched_def)
      note br = on_tick_branches [OF act that(2,3), of k]
      have "ready_queue s0 \<noteq> []" using br(2) that away by (auto simp: switched_def)
      moreover have "\<not> 1 < time_slice u" using br(3) calculation that away by (auto simp: switched_def)
      ultimately show ?thesis using br(4) that by simp
    qed
    then show ?thesis by (rule via [where ?th0.0 = ?u]) simp_all
  qed
  from op show ?thesis
  proof (elim disjE)
    assume "op = Tick k"
    then show ?thesis using tick ex c by (simp add: sched_exec_def)
  next
    assume "op = Yield k"
    then show ?thesis using tick [of "set_thread s t (th\<lparr>time_slice := 0\<rparr>)"] ex c
      by (simp add: sched_exec_def yield_current_def)
  next
    assume "op = Block_Current k"
    then show ?thesis using via [of "set_thread s t ((mark_blocked th)\<lparr>tcb_context := k\<rparr>)"] ex c
      by (simp add: sched_exec_def block_current_def)
  qed
qed

lemma Ex_Not [simp]: "Ex Not"
  by (rule exI [of _ False]) simp

lemma queue_clean_ready:
  "sched_inv s \<Longrightarrow> queue_clean s \<longleftrightarrow> queue_ready s \<and> (\<forall>t\<in>set (ready_queue s). current_tid s \<noteq> Some t)"
  using sched_invD(1) [of s] by (auto simp: queue_clean_def queue_ready_def is_ready_tid_def)

subsection \<open>Every call returns\<close>

lemma pick_clean:
  assumes r: "queue_ready s" and h: "ready_queue s = [] \<or> current_tid s \<noteq> Some (hd (ready_queue s))"
  shows "\<exists>s' ctx' b. pick_and_switch_next s ctx = Some (s', ctx', b) \<and> queue_clean s' \<and>
    default_quantum s' = default_quantum s \<and> active s' = active s \<and>
    (b \<longrightarrow> ready_queue s' = tl (ready_queue s) \<and> current_tid s' = Some (hd (ready_queue s)) \<and>
       (\<exists>th. threads s' (hd (ready_queue s)) = Some th \<and> thread_st th = Running \<and> time_slice th = default_quantum s)) \<and>
    b = (ready_queue s \<noteq> [])"
proof (cases "ready_queue s")
  case Nil
  then show ?thesis by (auto simp: pick_and_switch_next_def queue_clean_def)
next
  case (Cons t rest)
  then obtain nx where nx: "threads s t = Some nx" "thread_st nx = Ready"
    using r by (auto simp: queue_ready_def is_ready_tid_def)
  have "pick_and_switch_next s ctx = Some (switch_to s t nx rest, tcb_context nx, True)"
    using pick_loop_some [of "[]" s t nx rest ctx] nx h Cons by (simp add: pick_and_switch_next_def)
  moreover have "queue_clean (switch_to s t nx rest)"
    using r Cons by (auto simp: queue_clean_def queue_ready_def is_ready_tid_def)
  ultimately show ?thesis using Cons by auto
qed

lemma set_thread_ready:
  assumes "queue_ready s" and "c \<notin> set (ready_queue s)"
  shows "queue_ready (set_thread s c u)"
  using assms by (auto simp: queue_ready_def is_ready_tid_def)

lemma on_tick_clean:
  assumes inv: "sched_inv s" and cl: "queue_clean s"
  shows "\<exists>s' ctx' b. on_tick s ctx = Some (s', ctx', b) \<and> queue_clean s'"
proof (cases "active s")
  case True
  have qr: "queue_ready s" "\<forall>t\<in>set (ready_queue s). current_tid s \<noteq> Some t"
    using cl queue_clean_ready [OF inv] by auto
  show ?thesis
  proof (cases "current_tid s")
    case None
    have "0 \<notin> set (ready_queue s)" using sched_invD(2) [OF inv, of 0] sched_invD(9) [OF inv None] by auto
    then have "queue_ready (capture_kernel s ctx)"
      using qr(1) by (auto simp: queue_ready_def is_ready_tid_def capture_kernel_def)
    from pick_clean [OF this, of ctx] show ?thesis
      using True None by (auto simp: on_tick_def capture_kernel_def)
  next
    case (Some c)
    obtain th where th: "threads s c = Some th" using current_thread [OF inv Some] .
    have nq: "c \<notin> set (ready_queue s)" using qr(2) Some by auto
    note br = on_tick_branches [OF True Some th, of ctx]
    have keep: "queue_clean (set_thread s c u)" for u
      using cl nq by (auto simp: queue_clean_def)
    consider "thread_st th \<noteq> Running" | "thread_st th = Running" "ready_queue s = []"
      | "thread_st th = Running" "ready_queue s \<noteq> []" "1 < time_slice th"
      | "thread_st th = Running" "ready_queue s \<noteq> []" "\<not> 1 < time_slice th" by blast
    then show ?thesis
    proof cases
      case 1
      have "current_tid s \<noteq> Some (hd (ready_queue s))" if "ready_queue s \<noteq> []" using qr(2) that by simp
      then show ?thesis using br(1) [OF 1] pick_clean [OF set_thread_ready [OF qr(1) nq]] by fastforce
    next
      case 2
      then show ?thesis using br(2) [OF 2] keep by simp
    next
      case 3
      then show ?thesis using br(3) [OF 3] keep by simp
    next
      case 4
      let ?s = "(set_thread s c ((mark_ready (th\<lparr>total_ticks := saturating_add_w (total_ticks th) 1\<rparr>))
        \<lparr>time_slice := default_quantum s, tcb_context := ctx\<rparr>))\<lparr>ready_queue := ready_queue s @ [c]\<rparr>"
      have "queue_ready ?s"
        using qr(1) nq 4 by (auto simp: queue_ready_def is_ready_tid_def)
      moreover have "current_tid ?s \<noteq> Some (hd (ready_queue ?s))" using qr(2) 4 Some by (cases "ready_queue s") auto
      ultimately show ?thesis using br(4) [OF 4] pick_clean [of ?s ctx] by fastforce
    qed
  qed
qed (use cl in \<open>simp add: on_tick_def\<close>)

lemma end_current_clean:
  assumes inv: "sched_inv s" and cl: "queue_clean s"
  shows "queue_ready (end_current s code)" and "ready_queue (end_current s code) = ready_queue s"
    and "current_tid (end_current s code) = current_tid s"
proof -
  have nq: "c \<notin> set (ready_queue s)" if "current_tid s = Some c" for c using cl that by (auto simp: queue_clean_def)
  show "queue_ready (end_current s code)"
    using cl nq sched_invD(1) [OF inv]
    by (auto simp: end_current_def queue_clean_def queue_ready_def is_ready_tid_def Let_def split: option.split)
  show "ready_queue (end_current s code) = ready_queue s" "current_tid (end_current s code) = current_tid s"
    by (auto simp: end_current_def Let_def split: option.split)
qed

lemma exit_loop_clean:
  assumes "queue_ready s"
  shows "queue_clean (fst (exit_loop s (ready_queue s)))"
proof (cases "ready_queue s")
  case (Cons t rest)
  then obtain nx where nx: "threads s t = Some nx" "thread_st nx = Ready"
    using assms by (auto simp: queue_ready_def is_ready_tid_def)
  then show ?thesis using assms Cons by (auto simp: queue_clean_def queue_ready_def is_ready_tid_def)
qed (simp add: queue_clean_def)

lemma choose_stack_returns:
  "unat fresh + 16384 < 2 ^ 64 \<Longrightarrow> \<exists>s' k. choose_stack s ksp fresh = Some (s', k)"
  by (simp add: choose_stack_def alloc_kernel_stack_def checked_add_w_def)

lemma spawn_clean:
  assumes inv: "sched_inv s" and cl: "queue_clean s" and c: "choose_stack s1 ksp fresh = Some (s2, k)"
    and s1: "threads s1 = threads s" "ready_queue s1 = ready_queue s" "current_tid s1 = current_tid s"
    and t: "thread_st t = Ready"
  shows "queue_clean (s2\<lparr>processes := ps, threads := (threads s2)(next_tid s \<mapsto> t),
    ready_queue := ready_queue s2 @ [next_tid s]\<rparr>)"
proof -
  have new: "threads s (next_tid s) = None"
    using sched_invD(5) [OF inv, of "next_tid s"] by (cases "threads s (next_tid s)") auto
  have "current_tid s \<noteq> Some (next_tid s)" using current_thread [OF inv, of "next_tid s"] new by fastforce
  then show ?thesis using cl new t s1 choose_stack_simps [OF c] by (auto simp: queue_clean_def)
qed

lemma exec_clean:
  assumes inv: "sched_inv s" and cl: "queue_clean s" and ca: "careful s op"
  shows "\<exists>s' r. sched_exec s op = Some (s', r) \<and> queue_clean s'"
proof -
  have fit: "stack_fits op" using ca by (simp add: careful_def)
  show ?thesis
proof (cases op)
  case (Spawn_Process name root entry usp ksp user arg fresh)
  then obtain s2 k where c: "choose_stack (s\<lparr>next_pid := next_pid s + 1, next_tid := next_tid s + 1\<rparr>) ksp fresh = Some (s2, k)"
    using choose_stack_returns fit by fastforce
  then show ?thesis using Spawn_Process spawn_clean [OF inv cl c]
    by (simp add: sched_exec_def spawn_process_def Let_def)
next
  case (Spawn_Thread pid entry usp ksp user arg fresh)
  then obtain s2 k where c: "choose_stack (s\<lparr>next_tid := next_tid s + 1\<rparr>) ksp fresh = Some (s2, k)"
    using choose_stack_returns fit by fastforce
  then show ?thesis using Spawn_Thread spawn_clean [OF inv cl c] cl
    by (cases "processes s pid") (simp_all add: sched_exec_def spawn_thread_def Let_def)
next
  case (Tick ctx)
  then show ?thesis using on_tick_clean [OF inv cl, of ctx] by (auto simp: sched_exec_def switched_def)
next
  case Expire
  have "queue_clean (expire_current_quantum s)"
    using cl by (auto simp: expire_current_quantum_def queue_clean_def split: option.split)
  then show ?thesis using Expire by (simp add: sched_exec_def)
next
  case (Yield ctx)
  let ?s = "case current_tid s of None \<Rightarrow> s | Some tid \<Rightarrow>
    (case threads s tid of None \<Rightarrow> s | Some t \<Rightarrow> if thread_st t = Running then set_thread s tid (t\<lparr>time_slice := 0\<rparr>) else s)"
  have "sched_inv ?s" using inv by (auto split: option.split intro!: set_thread_inv_same)
  moreover have "queue_clean ?s" using cl by (auto simp: queue_clean_def split: option.split)
  ultimately show ?thesis using Yield on_tick_clean [of ?s ctx]
    by (auto simp: sched_exec_def switched_def yield_current_def)
next
  case (Exit code ctx)
  have "ready_queue s = [] \<or> current_tid s \<noteq> Some (hd (ready_queue s))" using cl by (auto simp: queue_clean_def)
  then show ?thesis using Exit pick_clean [of "end_current s code" ctx] end_current_clean [OF inv cl, of code]
    by (auto simp: sched_exec_def switched_def exit_current_def)
next
  case (Exit_Syscall code)
  have "queue_clean (fst (exit_current_syscall s code))"
    using exit_loop_clean [OF end_current_clean(1) [OF inv cl]] by (simp add: exit_current_syscall_def Let_def)
  then show ?thesis using Exit_Syscall by (simp add: sched_exec_def) (metis prod.collapse)
next
  case (Block tid)
  have "queue_clean (fst (block_thread s tid))"
    using cl by (cases "threads s tid") (auto simp: block_thread_def queue_clean_def)
  then show ?thesis using Block by (simp add: sched_exec_def)
next
  case (Block_Current ctx)
  let ?s = "case current_tid s of None \<Rightarrow> s | Some tid \<Rightarrow>
    (case threads s tid of None \<Rightarrow> s
     | Some t \<Rightarrow> if thread_st t = Running then set_thread s tid ((mark_blocked t)\<lparr>tcb_context := ctx\<rparr>) else s)"
  have "queue_ready ?s"
    using cl sched_invD(1) [OF inv] by (auto simp: queue_clean_def queue_ready_def is_ready_tid_def split: option.split)
  moreover have "ready_queue ?s = ready_queue s" "current_tid ?s = current_tid s" by (auto split: option.split)
  moreover have "ready_queue s = [] \<or> current_tid s \<noteq> Some (hd (ready_queue s))" using cl by (auto simp: queue_clean_def)
  ultimately show ?thesis using Block_Current pick_clean [of ?s ctx]
    by (auto simp: sched_exec_def switched_def block_current_def)
next
  case (Unblock tid)
  have "queue_clean (fst (unblock_thread s tid))"
    using cl ca Unblock by (cases "threads s tid") (auto simp: unblock_thread_def queue_clean_def careful_def)
  then show ?thesis using Unblock by (simp add: sched_exec_def)
next
  case Init
  then show ?thesis using cl by (simp add: sched_exec_def sched_init_def queue_clean_def)
qed
qed

lemma careful_clean: "sched_reachable careful s \<Longrightarrow> queue_clean s"
proof (induction rule: sched_reachable.induct)
  case boot
  then show ?case by (simp add: queue_clean_def new_sched_def)
next
  case (exec s op s' r)
  have inv: "sched_inv s" using exec.hyps(1) by (rule sched_reachable_inv)
  show ?case using exec_clean [OF inv exec.IH exec.hyps(3)] exec.hyps(4) by auto
qed

subsection \<open>Fairness\<close>

lemma ticks_append:
  "ticks s (xs @ ys) = (case ticks s xs of None \<Rightarrow> None | Some s' \<Rightarrow> ticks s' ys)"
  by (induction xs arbitrary: s) (auto split: option.split)

lemma tick_switches:
  assumes r: "running_at s c q n" and n: "\<not> 1 < n" and q: "q \<noteq> []"
  shows "\<exists>s' ctx' b. on_tick s ctx = Some (s', ctx', b) \<and> running_at s' (hd q) (tl q @ [c]) 2"
proof -
  obtain th where s: "sched_inv s" "queue_clean s" "active s" "default_quantum s = 2" "current_tid s = Some c"
    "ready_queue s = q" "threads s c = Some th" "thread_st th = Running" "time_slice th = n"
    using r by (auto simp: running_at_def)
  let ?s = "(set_thread s c ((mark_ready (th\<lparr>total_ticks := saturating_add_w (total_ticks th) 1\<rparr>))
        \<lparr>time_slice := default_quantum s, tcb_context := ctx\<rparr>))\<lparr>ready_queue := ready_queue s @ [c]\<rparr>"
  have br: "on_tick s ctx = pick_and_switch_next ?s ctx"
    by (rule on_tick_branches(4) [OF s(3,5,7)]) (use s n q in auto)
  have nq: "c \<notin> set q" using s by (auto simp: queue_clean_def)
  have "queue_ready ?s" using s(2,6,8) nq sched_invD(1) [OF s(1)]
    by (auto simp: queue_ready_def is_ready_tid_def queue_clean_def)
  moreover have "ready_queue ?s \<noteq> []" "hd (ready_queue ?s) = hd q" "tl (ready_queue ?s) = tl q @ [c]"
    using q s by simp_all
  moreover have "current_tid ?s \<noteq> Some (hd (ready_queue ?s))" using nq q s(5,6) by (cases q) auto
  ultimately obtain s' ctx' b where p: "pick_and_switch_next ?s ctx = Some (s', ctx', b)" "queue_clean s'"
    "default_quantum s' = 2" "active s'" "ready_queue s' = tl q @ [c]" "current_tid s' = Some (hd q)"
    "\<exists>th. threads s' (hd q) = Some th \<and> thread_st th = Running \<and> time_slice th = 2"
    using pick_clean [of ?s ctx] s(3,4) by fastforce
  moreover have "sched_inv s'" by (rule on_tick_inv [OF s(1)]) (use br p(1) in simp)
  ultimately show ?thesis using br by (auto simp: running_at_def)
qed

lemma tick_counts:
  assumes r: "running_at s c q n" and n: "1 < n" and q: "q \<noteq> []"
  shows "\<exists>s' ctx' b. on_tick s ctx = Some (s', ctx', b) \<and> running_at s' c q (n - 1)"
proof -
  obtain th where s: "sched_inv s" "queue_clean s" "active s" "default_quantum s = 2" "current_tid s = Some c"
    "ready_queue s = q" "threads s c = Some th" "thread_st th = Running" "time_slice th = n"
    using r by (auto simp: running_at_def)
  let ?s = "set_thread s c (th\<lparr>total_ticks := saturating_add_w (total_ticks th) 1, time_slice := time_slice th - 1\<rparr>)"
  have br: "on_tick s ctx = Some (?s, ctx, False)"
    by (rule on_tick_branches(3) [OF s(3,5,7)]) (use s n q in auto)
  moreover have "sched_inv ?s" by (rule on_tick_inv [OF s(1) br])
  moreover have "queue_clean ?s" using s(2,5) by (auto simp: queue_clean_def)
  ultimately show ?thesis using s by (auto simp: running_at_def)
qed

lemma within_two_ticks:
  assumes r: "running_at s c q n" and n: "n \<le> 2" and q: "q \<noteq> []" and l: "length ctxs = 2"
  shows "\<exists>m s'. m \<le> 2 \<and> ticks s (take m ctxs) = Some s' \<and> running_at s' (hd q) (tl q @ [c]) 2"
proof (cases "1 < n")
  case False
  from tick_switches [OF r False q, of "ctxs ! 0"] obtain s' ctx' b where
    "on_tick s (ctxs ! 0) = Some (s', ctx', b)" "running_at s' (hd q) (tl q @ [c]) 2" by blast
  moreover have "take 1 ctxs = [ctxs ! 0]" using l by (cases ctxs) auto
  ultimately show ?thesis by (intro exI [of _ 1] exI [of _ s']) auto
next
  case True
  then have n2: "n = 2" using n by (metis inc_le one_add_one order.antisym)
  from tick_counts [OF r True q, of "ctxs ! 0"] obtain s1 ctx1 b1 where
    1: "on_tick s (ctxs ! 0) = Some (s1, ctx1, b1)" "running_at s1 c q 1" unfolding n2 by auto
  from tick_switches [OF 1(2) _ q, of "ctxs ! 1"] obtain s2 ctx2 b2 where
    2: "on_tick s1 (ctxs ! 1) = Some (s2, ctx2, b2)" "running_at s2 (hd q) (tl q @ [c]) 2" by auto
  have "ctxs = [ctxs ! 0, ctxs ! 1]" using l by (cases ctxs; cases "tl ctxs") auto
  then have "ticks s (take 2 ctxs) = Some s2" using 1(1) 2(1) l
    by (metis (no_types, lifting) option.simps(5) order_refl prod.simps(2) take_all_iff ticks.simps)
  then show ?thesis using 2(2) by blast
qed

lemma turn_comes:
  assumes "running_at s c q n" and "n \<le> 2" and "k < length q" and "length ctxs = 2 * (k + 1)"
  shows "\<exists>m s'. m \<le> length ctxs \<and> ticks s (take m ctxs) = Some s' \<and> current_tid s' = Some (q ! k)"
  using assms
proof (induction k arbitrary: s c q n ctxs)
  case 0
  then have "q \<noteq> []" by auto
  from within_two_ticks [OF 0(1,2) this, of ctxs] 0 show ?case
    by (auto simp: running_at_def hd_conv_nth)
next
  case (Suc k)
  have q: "q \<noteq> []" using Suc.prems by auto
  obtain m s1 where 1: "m \<le> 2" "ticks s (take m (take 2 ctxs)) = Some s1" "running_at s1 (hd q) (tl q @ [c]) 2"
    using within_two_ticks [OF Suc.prems(1,2) q, of "take 2 ctxs"] Suc.prems(4) by auto
  have t1: "ticks s (take m ctxs) = Some s1" using 1(1,2) by (simp add: min_absorb1)
  define rest where "rest = take (2 * (k + 1)) (drop m ctxs)"
  have lr: "length rest = 2 * (k + 1)" using Suc.prems(4) 1(1) by (simp add: rest_def)
  have "k < length (tl q @ [c])" using Suc.prems(3) by simp
  from Suc.IH [OF 1(3) _ this lr] obtain m2 s2 where
    2: "m2 \<le> 2 * (k + 1)" "ticks s1 (take m2 rest) = Some s2" "current_tid s2 = Some ((tl q @ [c]) ! k)"
    using lr by auto
  have "(tl q @ [c]) ! k = q ! Suc k" using Suc.prems(3) by (cases q) (auto simp: nth_append)
  moreover have "take (m + m2) ctxs = take m ctxs @ take m2 rest"
    using 2(1) by (simp add: rest_def take_add min_absorb1)
  ultimately show ?case using 2 t1 1(1) Suc.prems(4)
    by (intro exI [of _ "m + m2"] exI [of _ s2]) (simp add: ticks_append)
qed

subsection \<open>Time slices\<close>

lemma quantum_set_thread:
  "quantum_ok s \<Longrightarrow> time_slice u \<le> 2 \<Longrightarrow> quantum_ok (set_thread s c u)"
  by (simp add: quantum_ok_def)

lemma mark_time_slice [simp]:
  "time_slice (mark_running t) = time_slice t" "time_slice (mark_ready t) = time_slice t"
  "time_slice (mark_blocked t) = time_slice t" "time_slice (mark_terminated t) = time_slice t"
  by (simp_all add: mark_running_def mark_ready_def mark_blocked_def mark_terminated_def)

lemma new_tcb_time_slice [simp]: "time_slice (new_tcb i p u k r c q) = q"
  by (simp add: new_tcb_def)

lemma quantum_queue [simp]: "quantum_ok (s\<lparr>ready_queue := q\<rparr>) = quantum_ok s"
  by (simp add: quantum_ok_def)

lemma quantum_pick:
  assumes "quantum_ok s" and "pick_and_switch_next s ctx = Some (s', ctx', b)"
  shows "quantum_ok s'"
proof (cases rule: queue_cases [of "ready_queue s" s])
  case none
  then show ?thesis using assms by (auto simp: pick_and_switch_next_def pick_loop_none)
next
  case (some pre t rest nx)
  have "quantum_ok (switch_to s t nx rest)" using assms(1) by (simp add: quantum_ok_def)
  then show ?thesis using assms some by (auto simp: pick_and_switch_next_def pick_loop_some split: if_splits)
qed

lemma quantum_exit_loop:
  assumes "quantum_ok s"
  shows "quantum_ok (fst (exit_loop s (ready_queue s)))"
proof (cases rule: queue_cases [of "ready_queue s" s])
  case none
  then show ?thesis using assms by (auto simp: exit_loop_none)
next
  case (some pre t rest nx)
  then show ?thesis using assms by (simp add: exit_loop_some quantum_ok_def)
qed

lemma quantum_on_tick:
  assumes q: "quantum_ok s" and t: "on_tick s ctx = Some (s', ctx', b)"
  shows "quantum_ok s'"
proof (cases "active s")
  case True
  show ?thesis
  proof (cases "current_tid s")
    case None
    have "quantum_ok (capture_kernel s ctx)" using q by (simp add: capture_kernel_def quantum_ok_def)
    then show ?thesis using t True None quantum_pick by (simp add: on_tick_def)
  next
    case (Some c)
    show ?thesis
    proof (cases "threads s c")
      case None
      then show ?thesis using t True Some quantum_pick [OF q] by (simp add: on_tick_def)
    next
      case th: (Some th)
      note br = on_tick_branches [OF True Some th, of ctx]
      have sl: "time_slice th \<le> 2" "default_quantum s = 2" using q th by (auto simp: quantum_ok_def)
      consider "thread_st th \<noteq> Running" | "thread_st th = Running" "ready_queue s = []"
        | "thread_st th = Running" "ready_queue s \<noteq> []" "1 < time_slice th"
        | "thread_st th = Running" "ready_queue s \<noteq> []" "\<not> 1 < time_slice th" by blast
      then show ?thesis
      proof cases
        case 1
        show ?thesis using t unfolding br(1) [OF 1]
          by (rule quantum_pick [rotated]) (simp add: quantum_set_thread [OF q] sl)
      next
        case 2
        then show ?thesis using t br(2) [OF 2] quantum_set_thread [OF q] sl by auto
      next
        case 3
        then have "time_slice th = 2" using sl by (metis inc_le one_add_one order.antisym)
        then show ?thesis using t br(3) [OF 3] quantum_set_thread [OF q] by auto
      next
        case 4
        show ?thesis using t unfolding br(4) [OF 4]
          by (rule quantum_pick [rotated]) (simp add: quantum_set_thread [OF q] sl)
      qed
    qed
  qed
qed (use q t in \<open>simp add: on_tick_def\<close>)

lemma quantum_end_current: "quantum_ok s \<Longrightarrow> quantum_ok (end_current s code)"
  by (auto simp: end_current_def Let_def quantum_ok_def split: option.split)

lemma quantum_yield:
  assumes q: "quantum_ok s" and y: "yield_current s ctx = Some (s', ctx', b)"
  shows "quantum_ok s'"
  using y unfolding yield_current_def
  by (rule quantum_on_tick [rotated]) (use q in \<open>auto simp: quantum_set_thread split: option.split\<close>)

lemma quantum_block_current:
  assumes q: "quantum_ok s" and y: "block_current s ctx = Some (s', ctx', b)"
  shows "quantum_ok s'"
  using y unfolding block_current_def
  by (rule quantum_pick [rotated]) (use q in \<open>auto simp: quantum_ok_def split: option.split\<close>)

lemma quantum_spawn:
  assumes "quantum_ok s1" and "choose_stack s1 ksp fresh = Some (s2, k)" and "time_slice t = default_quantum s2"
  shows "quantum_ok (s2\<lparr>processes := ps, threads := (threads s2)(i \<mapsto> t), ready_queue := q\<rparr>)"
  using assms(1,3) choose_stack_simps [OF assms(2)] by (auto simp: quantum_ok_def)

lemma quantum_exec:
  assumes q: "quantum_ok s" and ex: "sched_exec s op = Some (s', r)"
  shows "quantum_ok s'"
proof (cases op)
  case (Spawn_Process name root entry usp ksp user arg fresh)
  have "quantum_ok (s\<lparr>next_pid := next_pid s + 1, next_tid := next_tid s + 1\<rparr>)" using q by (simp add: quantum_ok_def)
  then show ?thesis using Spawn_Process ex
    by (auto simp: sched_exec_def spawn_process_def Let_def intro: quantum_spawn split: option.splits)
next
  case (Spawn_Thread pid entry usp ksp user arg fresh)
  have "quantum_ok (s\<lparr>next_tid := next_tid s + 1\<rparr>)" using q by (simp add: quantum_ok_def)
  then show ?thesis using Spawn_Thread ex q
    by (auto simp: sched_exec_def spawn_thread_def Let_def intro: quantum_spawn split: option.splits)
next
  case Expire
  then show ?thesis using q ex
    by (auto simp: sched_exec_def expire_current_quantum_def quantum_set_thread split: option.splits)
next
  case (Exit code ctx)
  then show ?thesis using ex quantum_pick [OF quantum_end_current [OF q]]
    by (auto simp: sched_exec_def exit_current_def switched_Some)
next
  case (Exit_Syscall code)
  then show ?thesis using ex quantum_exit_loop [OF quantum_end_current [OF q]]
    by (simp add: sched_exec_def exit_current_syscall_def Let_def) (metis fst_conv)
next
  case (Block tid)
  then show ?thesis using q ex
    by (cases "threads s tid") (auto simp: sched_exec_def block_thread_def quantum_ok_def split: if_splits)
next
  case (Unblock tid)
  then show ?thesis using q ex
    by (cases "threads s tid") (auto simp: sched_exec_def unblock_thread_def quantum_ok_def split: if_splits)
next
  case Init
  then show ?thesis using q ex by (auto simp: sched_exec_def sched_init_def quantum_ok_def)
next
  case (Tick ctx)
  then show ?thesis using ex by (auto simp: sched_exec_def switched_Some intro: quantum_on_tick [OF q])
next
  case (Yield ctx)
  then show ?thesis using ex by (auto simp: sched_exec_def switched_Some intro: quantum_yield [OF q])
next
  case (Block_Current ctx)
  then show ?thesis using ex by (auto simp: sched_exec_def switched_Some intro: quantum_block_current [OF q])
qed

lemma quantum_reachable: "sched_reachable ok s \<Longrightarrow> quantum_ok s"
proof (induction rule: sched_reachable.induct)
  case boot
  then show ?case by (simp add: quantum_ok_def new_sched_def)
qed (use quantum_exec in blast)

lemma stack_invD:
  assumes "stack_inv s"
  shows "distinct (stack_pool s)" and "set (stack_pool s) \<subseteq> owned_stacks s"
    and "pending_free_stack s = Some k \<Longrightarrow> k \<in> owned_stacks s \<and> k \<notin> set (stack_pool s) \<and>
        (\<exists>c th. current_tid s = Some c \<and> threads s c = Some th \<and> thread_st th = Terminated \<and> kernel_sp th = k)"
    and "uses_stack s t th \<Longrightarrow> kernel_sp th \<notin> set (stack_pool s)"
    and "uses_stack s t th \<Longrightarrow> uses_stack s u uh \<Longrightarrow> kernel_sp th = kernel_sp uh \<Longrightarrow> t = u"
  using assms unfolding stack_inv_def by blast+

subsection \<open>Kernel stacks\<close>

lemma stack_queue [simp]: "stack_inv (s\<lparr>ready_queue := q\<rparr>) = stack_inv s"
  by (simp add: stack_inv_def uses_stack_def)

lemma stack_set_thread:
  assumes "stack_inv s" and "threads s c = Some t" and "same_thread t u"
    and "thread_st t = Terminated \<Longrightarrow> thread_st u = Terminated"
  shows "stack_inv (set_thread s c u)"
proof -
  have us: "\<exists>th'. uses_stack s x th' \<and> kernel_sp th' = kernel_sp th" if "uses_stack (set_thread s c u) x th" for x th
    using that assms(2-4) by (auto simp: uses_stack_def same_thread_def split: if_splits)
  show ?thesis unfolding stack_inv_def
  proof (intro conjI allI impI)
    fix k assume "pending_free_stack (set_thread s c u) = Some k"
    then obtain c' th where "current_tid s = Some c'" "threads s c' = Some th" "thread_st th = Terminated" "kernel_sp th = k"
      using stack_invD(3) [OF assms(1), of k] by auto
    then show "\<exists>c' th. current_tid (set_thread s c u) = Some c' \<and> threads (set_thread s c u) c' = Some th \<and>
        thread_st th = Terminated \<and> kernel_sp th = k"
      using assms(2-4) by (auto simp: same_thread_def)
  next
    fix x th assume "uses_stack (set_thread s c u) x th"
    then obtain th' where "uses_stack s x th'" "kernel_sp th' = kernel_sp th" using us by blast
    then show "kernel_sp th \<notin> set (stack_pool (set_thread s c u))" using stack_invD(4) [OF assms(1)] by fastforce
  next
    fix x th y yh assume "uses_stack (set_thread s c u) x th" "uses_stack (set_thread s c u) y yh" "kernel_sp th = kernel_sp yh"
    then obtain th' yh' where "uses_stack s x th'" "kernel_sp th' = kernel_sp th" "uses_stack s y yh'" "kernel_sp yh' = kernel_sp yh"
      using us by metis
    then show "x = y" using stack_invD(5) [OF assms(1)] \<open>kernel_sp th = kernel_sp yh\<close> by metis
  qed (use stack_invD(1,2) [OF assms(1)] stack_invD(3) [OF assms(1)] in auto)
qed

lemma stack_run_thread:
  assumes inv: "stack_inv s" and t: "threads s t = Some n" "thread_st n = Ready"
    and s': "threads s' = threads s" "owned_stacks s' = owned_stacks s" "stack_pool s' = stack_pool s"
      "pending_free_stack s' = pending_free_stack s"
  shows "stack_inv (run_thread s' t n)"
proof -
  let ?r = "run_thread s' t n"
  have pool: "stack_pool ?r = stack_pool s @ (case pending_free_stack s of None \<Rightarrow> [] | Some k \<Rightarrow> [k])"
    by (simp add: run_thread_def drain_pending_stack_def s' split: option.split)
  have us: "\<exists>th'. uses_stack s x th' \<and> thread_st th' \<noteq> Terminated \<and> kernel_sp th' = kernel_sp th" if "uses_stack ?r x th" for x th
  proof (cases "x = t")
    case True
    then have th: "th = (mark_running n)\<lparr>time_slice := default_quantum s'\<rparr>" using that by (simp add: uses_stack_def)
    have "uses_stack s t n" using that t s'(2) unfolding uses_stack_def th by simp
    then show ?thesis using t(2) True th by (intro exI [of _ n]) simp
  next
    case False
    then have "uses_stack s x th" "thread_st th \<noteq> Terminated" using that s'(1,2) unfolding uses_stack_def by simp_all
    then show ?thesis by blast
  qed
  have notpend: "pending_free_stack s \<noteq> Some (kernel_sp th)" if "uses_stack s x th" "thread_st th \<noteq> Terminated" for x th
  proof
    assume p: "pending_free_stack s = Some (kernel_sp th)"
    then obtain c ch where ch: "current_tid s = Some c" "threads s c = Some ch" "thread_st ch = Terminated"
      "kernel_sp ch = kernel_sp th" "kernel_sp th \<in> owned_stacks s" using stack_invD(3) [OF inv p] by auto
    then have "uses_stack s c ch" by (simp add: uses_stack_def)
    then have "c = x" using stack_invD(5) [OF inv] that(1) ch(4) by blast
    then show False using ch that by (simp add: uses_stack_def)
  qed
  show ?thesis unfolding stack_inv_def
  proof (intro conjI allI impI)
    show "distinct (stack_pool ?r)" "set (stack_pool ?r) \<subseteq> owned_stacks ?r"
      using stack_invD(1,2) [OF inv] stack_invD(3) [OF inv] s' by (auto simp: pool split: option.split)
  next
    fix x th assume "uses_stack ?r x th"
    then obtain th' where "uses_stack s x th'" "thread_st th' \<noteq> Terminated" "kernel_sp th' = kernel_sp th" using us by blast
    then show "kernel_sp th \<notin> set (stack_pool ?r)"
      using stack_invD(4) [OF inv] notpend unfolding pool by (fastforce split: option.split)
  next
    fix x th y yh assume h: "uses_stack ?r x th" "uses_stack ?r y yh" "kernel_sp th = kernel_sp yh"
    obtain th' where "uses_stack s x th'" "kernel_sp th' = kernel_sp th" using us [OF h(1)] by blast
    moreover obtain yh' where "uses_stack s y yh'" "kernel_sp yh' = kernel_sp yh" using us [OF h(2)] by blast
    ultimately show "x = y" using stack_invD(5) [OF inv] h(3) by metis
  qed auto
qed

lemma stack_pick:
  assumes inv: "stack_inv s" and p: "pick_and_switch_next s ctx = Some (s', ctx', b)"
  shows "stack_inv s'"
proof (cases rule: queue_cases [of "ready_queue s" s])
  case none
  then show ?thesis using assms by (auto simp: pick_and_switch_next_def pick_loop_none)
next
  case (some pre t rest nx)
  have "stack_inv (switch_to s t nx rest)"
    unfolding switch_to_def by (rule stack_run_thread [OF inv some(3,4)]) auto
  then show ?thesis using p some by (auto simp: pick_and_switch_next_def pick_loop_some split: if_splits)
qed

lemma stack_exit_loop:
  assumes inv: "stack_inv s"
  shows "stack_inv (fst (exit_loop s (ready_queue s)))"
proof (cases rule: queue_cases [of "ready_queue s" s])
  case none
  then show ?thesis using assms by (auto simp: exit_loop_none)
next
  case (some pre t rest nx)
  have "stack_inv (run_thread (enter_process (s\<lparr>ready_queue := rest\<rparr>) (tcb_pid nx)) t nx)"
    by (rule stack_run_thread [OF inv some(3,4)]) auto
  then show ?thesis using some by (simp add: exit_loop_some)
qed

lemma stack_add_thread:
  assumes inv: "stack_inv s" and new: "threads s i = None" "current_tid s \<noteq> Some i"
    and st: "thread_st t = Ready"
    and pool: "distinct pool" "set pool \<subseteq> set (stack_pool s)" "kernel_sp t \<notin> set pool"
    and ks: "kernel_sp t \<in> owned \<Longrightarrow> kernel_sp t \<in> set (stack_pool s) \<or>
        (kernel_sp t \<notin> owned_stacks s \<and> (\<forall>x th. threads s x = Some th \<longrightarrow> kernel_sp th \<noteq> kernel_sp t))"
    and ow: "owned_stacks s \<subseteq> owned" "owned \<subseteq> insert (kernel_sp t) (owned_stacks s)"
    and s': "threads s' = (threads s)(i \<mapsto> t)" "current_tid s' = current_tid s" "owned_stacks s' = owned"
      "stack_pool s' = pool" "pending_free_stack s' = pending_free_stack s"
  shows "stack_inv s'"
proof -
  have old: "uses_stack s x th \<and> kernel_sp th \<noteq> kernel_sp t" if "uses_stack s' x th" "x \<noteq> i" for x th
  proof -
    have th: "threads s x = Some th" "thread_st th \<noteq> Terminated \<or> current_tid s = Some x" "kernel_sp th \<in> owned"
      using that s' by (auto simp: uses_stack_def)
    have ne: "kernel_sp th \<noteq> kernel_sp t"
    proof
      assume eq: "kernel_sp th = kernel_sp t"
      then have "kernel_sp t \<in> set (stack_pool s)" using ks th by auto
      moreover from this have "uses_stack s x th" using th stack_invD(2) [OF inv] eq by (auto simp: uses_stack_def)
      ultimately show False using stack_invD(4) [OF inv] eq by metis
    qed
    then show ?thesis using th ow by (auto simp: uses_stack_def)
  qed
  show ?thesis unfolding stack_inv_def
  proof (intro conjI allI impI)
    fix k assume p: "pending_free_stack s' = Some k"
    show "k \<in> owned_stacks s'" using p stack_invD(3) [OF inv, of k] ow s' by auto
    show "k \<notin> set (stack_pool s')" using p stack_invD(3) [OF inv, of k] pool s' by auto
    show "\<exists>c th. current_tid s' = Some c \<and> threads s' c = Some th \<and> thread_st th = Terminated \<and> kernel_sp th = k"
      using p stack_invD(3) [OF inv, of k] new s' by auto
  next
    fix x th assume "uses_stack s' x th"
    then show "kernel_sp th \<notin> set (stack_pool s')"
      using old [of x th] stack_invD(4) [OF inv, of x th] pool s' by (cases "x = i") (auto simp: uses_stack_def)
  next
    fix x th y yh assume h: "uses_stack s' x th" "uses_stack s' y yh" "kernel_sp th = kernel_sp yh"
    have eq: "rh = t" if "uses_stack s' i rh" for rh using that s' by (simp add: uses_stack_def)
    show "x = y"
    proof (cases "x = i \<or> y = i")
      case True
      then show ?thesis using h eq old by metis
    next
      case False
      then show ?thesis using h old stack_invD(5) [OF inv] by metis
    qed
  qed (use pool s' ow stack_invD(2) [OF inv] in auto)
qed

lemma stack_capture:
  assumes inv: "sched_inv s" and st: "stack_inv s" and none: "current_tid s = None" and f: "ctx_rsp ctx \<notin> owned_stacks s"
  shows "stack_inv (capture_kernel s ctx)"
proof (rule stack_add_thread [OF st, of 0])
  show "threads s 0 = None" using sched_invD(9) [OF inv none] by simp
qed (use none f stack_invD(1,2) [OF st] in \<open>auto simp: capture_kernel_def stack_pointer_def\<close>)

lemma stack_on_tick:
  assumes inv: "sched_inv s" and st: "stack_inv s" and f: "current_tid s = None \<Longrightarrow> ctx_rsp ctx \<notin> owned_stacks s"
    and t: "on_tick s ctx = Some (s', ctx', b)"
  shows "stack_inv s'"
proof (cases "active s")
  case True
  show ?thesis
  proof (cases "current_tid s")
    case None
    then show ?thesis using t True stack_pick [OF stack_capture [OF inv st None f]] by (simp add: on_tick_def)
  next
    case (Some c)
    obtain th where th: "threads s c = Some th" using current_thread [OF inv Some] .
    note br = on_tick_branches [OF True Some th, of ctx]
    note upd = stack_set_thread [OF st th]
    consider "thread_st th \<noteq> Running" | "thread_st th = Running" "ready_queue s = []"
      | "thread_st th = Running" "ready_queue s \<noteq> []" "1 < time_slice th"
      | "thread_st th = Running" "ready_queue s \<noteq> []" "\<not> 1 < time_slice th" by blast
    then show ?thesis
    proof cases
      case 1
      show ?thesis using t unfolding br(1) [OF 1] by (rule stack_pick [rotated]) (simp add: upd)
    next
      case 2
      then show ?thesis using t br(2) [OF 2] upd by auto
    next
      case 3
      then show ?thesis using t br(3) [OF 3] upd by auto
    next
      case 4
      show ?thesis using t unfolding br(4) [OF 4] by (rule stack_pick [rotated]) (simp add: upd)
    qed
  qed
qed (use st t in \<open>simp add: on_tick_def\<close>)

lemma stack_end_current:
  assumes inv: "sched_inv s" and st: "stack_inv s"
  shows "stack_inv (end_current s code)"
proof (cases "current_tid s")
  case None
  then show ?thesis using st by (simp add: end_current_def)
next
  case (Some c)
  obtain t where t: "threads s c = Some t" using current_thread [OF inv Some] .
  let ?s1 = "set_thread s c (mark_terminated t)"
  have s1: "stack_inv ?s1" by (rule stack_set_thread [OF st t]) auto
  have "stack_inv (defer_recycle_stack ?s1 (kernel_sp t))"
  proof (cases "kernel_sp t \<in> owned_stacks s")
    case True
    have "uses_stack ?s1 c (mark_terminated t)" using True Some by (simp add: uses_stack_def)
    then have np: "kernel_sp t \<notin> set (stack_pool s)" using stack_invD(4) [OF s1] by fastforce
    have d: "defer_recycle_stack ?s1 (kernel_sp t) = ?s1\<lparr>pending_free_stack := Some (kernel_sp t)\<rparr>"
      using True by (simp add: defer_recycle_stack_def)
    have us: "uses_stack (?s1\<lparr>pending_free_stack := Some (kernel_sp t)\<rparr>) = uses_stack ?s1"
      by (intro ext) (simp add: uses_stack_def)
    show ?thesis unfolding stack_inv_def d us
      using stack_invD [OF s1] True np Some by simp
  qed (use s1 in \<open>simp add: defer_recycle_stack_def\<close>)
  moreover have "stack_inv (x\<lparr>processes := ps\<rparr>) = stack_inv x" for x ps
    by (simp add: stack_inv_def uses_stack_def)
  ultimately show ?thesis using Some t by (simp add: end_current_def Let_def split: option.split)
qed

lemma choose_stack_cases:
  assumes "choose_stack s ksp fresh = Some (s', k)"
  obtains (given) "ksp \<noteq> 0" "s' = s" "k = ksp"
  | (pool) "ksp = 0" "stack_pool s \<noteq> []" "s' = s\<lparr>stack_pool := butlast (stack_pool s)\<rparr>" "k = last (stack_pool s)"
  | (heap) "stack_pool s = []" "s' = s\<lparr>owned_stacks := insert k (owned_stacks s)\<rparr>" "k = fresh + 16384"
proof (cases "ksp = 0")
  case True
  show ?thesis
  proof (cases "stack_pool s = []")
    case pl: True
    obtain a where a: "checked_add_w fresh 16384 = Some a"
      using assms True pl by (cases "checked_add_w fresh 16384") (simp_all add: choose_stack_def alloc_kernel_stack_def)
    then have "a = fresh + 16384" by (simp add: checked_add_w_def split: if_splits)
    moreover have "s' = s\<lparr>owned_stacks := insert a (owned_stacks s)\<rparr>" "k = a"
      using assms True pl a by (auto simp: choose_stack_def alloc_kernel_stack_def)
    ultimately show ?thesis using pl by (intro heap) simp_all
  next
    case False
    then show ?thesis using assms True by (intro pool) (auto simp: choose_stack_def alloc_kernel_stack_def)
  qed
next
  case False
  then show ?thesis using assms by (intro given) (auto simp: choose_stack_def)
qed

lemma stack_spawn:
  assumes inv: "sched_inv s" and st: "stack_inv s"
    and f: "ksp \<notin> owned_stacks s" "fresh + 16384 \<notin> owned_stacks s"
      "\<forall>t th. threads s t = Some th \<longrightarrow> kernel_sp th \<noteq> fresh + 16384"
    and c: "choose_stack s1 ksp fresh = Some (s2, k)"
    and s1: "threads s1 = threads s" "current_tid s1 = current_tid s" "owned_stacks s1 = owned_stacks s"
      "stack_pool s1 = stack_pool s" "pending_free_stack s1 = pending_free_stack s"
    and t: "thread_st t = Ready" "kernel_sp t = k"
  shows "stack_inv (s2\<lparr>processes := ps, threads := (threads s2)(next_tid s \<mapsto> t), ready_queue := q\<rparr>)"
proof (rule stack_add_thread [OF st])
  have new: "threads s (next_tid s) = None"
    using sched_invD(5) [OF inv, of "next_tid s"] by (cases "threads s (next_tid s)") auto
  then show "threads s (next_tid s) = None" .
  show "current_tid s \<noteq> Some (next_tid s)" using current_thread [OF inv, of "next_tid s"] new by fastforce
  have facts: "distinct (stack_pool s2) \<and> set (stack_pool s2) \<subseteq> set (stack_pool s) \<and> k \<notin> set (stack_pool s2) \<and>
      (k \<in> owned_stacks s2 \<longrightarrow> k \<in> set (stack_pool s) \<or>
        (k \<notin> owned_stacks s \<and> (\<forall>x th. threads s x = Some th \<longrightarrow> kernel_sp th \<noteq> k))) \<and>
      owned_stacks s \<subseteq> owned_stacks s2 \<and> owned_stacks s2 \<subseteq> insert k (owned_stacks s)"
    using c
  proof (cases rule: choose_stack_cases)
    case given
    then show ?thesis using stack_invD(1,2) [OF st] f s1 by auto
  next
    case pool
    have "stack_pool s = butlast (stack_pool s) @ [last (stack_pool s)]" using pool(2) s1(4) by simp
    then have "distinct (butlast (stack_pool s) @ [last (stack_pool s)])" using stack_invD(1) [OF st] by metis
    then show ?thesis using pool s1 by (auto dest: in_set_butlastD)
  next
    case heap
    then show ?thesis using f s1 by auto
  qed
  from facts show "distinct (stack_pool s2)" "set (stack_pool s2) \<subseteq> set (stack_pool s)" "kernel_sp t \<notin> set (stack_pool s2)"
    "kernel_sp t \<in> owned_stacks s2 \<Longrightarrow> kernel_sp t \<in> set (stack_pool s) \<or>
        (kernel_sp t \<notin> owned_stacks s \<and> (\<forall>x th. threads s x = Some th \<longrightarrow> kernel_sp th \<noteq> kernel_sp t))"
    "owned_stacks s \<subseteq> owned_stacks s2" "owned_stacks s2 \<subseteq> insert (kernel_sp t) (owned_stacks s)"
    using t(2) by auto
qed (use t s1 choose_stack_simps [OF c] in auto)

lemma stack_exec:
  assumes inv: "sched_inv s" and st: "stack_inv s" and f: "stacks_fresh s op" and ex: "sched_exec s op = Some (s', r)"
  shows "stack_inv s'"
proof (cases op)
  case (Spawn_Process name root entry usp ksp user arg fresh)
  then show ?thesis using ex f
    by (auto simp: sched_exec_def spawn_process_def Let_def intro!: stack_spawn [OF inv st] split: option.splits)
next
  case (Spawn_Thread pid entry usp ksp user arg fresh)
  then show ?thesis using ex f st
    by (auto simp: sched_exec_def spawn_thread_def Let_def intro!: stack_spawn [OF inv st] split: option.splits)
next
  case (Tick ctx)
  then show ?thesis using ex f by (auto simp: sched_exec_def switched_Some intro: stack_on_tick [OF inv st])
next
  case Expire
  then show ?thesis using ex st
    by (auto simp: sched_exec_def expire_current_quantum_def intro: stack_set_thread split: option.splits)
next
  case (Yield ctx)
  let ?s = "case current_tid s of None \<Rightarrow> s | Some tid \<Rightarrow>
    (case threads s tid of None \<Rightarrow> s | Some t \<Rightarrow> if thread_st t = Running then set_thread s tid (t\<lparr>time_slice := 0\<rparr>) else s)"
  have "sched_inv ?s" using inv by (auto split: option.split intro!: set_thread_inv_same)
  moreover have "stack_inv ?s" using st by (auto split: option.split intro!: stack_set_thread)
  moreover have "current_tid ?s = None \<Longrightarrow> ctx_rsp ctx \<notin> owned_stacks ?s" using f Yield by (auto split: option.splits if_splits)
  ultimately show ?thesis using ex Yield stack_on_tick [of ?s ctx]
    by (auto simp: sched_exec_def switched_Some yield_current_def)
next
  case (Exit code ctx)
  then show ?thesis using ex
    by (auto simp: sched_exec_def switched_Some exit_current_def intro: stack_pick [OF stack_end_current [OF inv st]])
next
  case (Exit_Syscall code)
  then show ?thesis using ex stack_exit_loop [OF stack_end_current [OF inv st]]
    by (simp add: sched_exec_def exit_current_syscall_def Let_def) (metis fst_conv)
next
  case (Block tid)
  then show ?thesis using ex st
    by (cases "threads s tid") (auto simp: sched_exec_def block_thread_def intro!: stack_set_thread [OF st])
next
  case (Block_Current ctx)
  let ?s = "case current_tid s of None \<Rightarrow> s | Some tid \<Rightarrow>
    (case threads s tid of None \<Rightarrow> s
     | Some t \<Rightarrow> if thread_st t = Running then set_thread s tid ((mark_blocked t)\<lparr>tcb_context := ctx\<rparr>) else s)"
  have "stack_inv ?s" using st by (auto split: option.split intro!: stack_set_thread)
  then show ?thesis using ex Block_Current stack_pick [of ?s ctx]
    by (auto simp: sched_exec_def switched_Some block_current_def)
next
  case (Unblock tid)
  then show ?thesis using ex st
    by (cases "threads s tid") (auto simp: sched_exec_def unblock_thread_def intro!: stack_set_thread [OF st])
next
  case Init
  have "stack_inv (sched_init s) = stack_inv s" by (simp add: sched_init_def stack_inv_def uses_stack_def)
  then show ?thesis using Init ex st by (simp add: sched_exec_def)
qed

lemmas demo_simps =
  demo_spawn_def demo_booted_def demo_spawned_def demo_running_def demo_yielded_def demo_resumed_def
  sched_exec_def spawn_process_def sched_init_def new_sched_def Let_def choose_stack_def
  alloc_kernel_stack_def checked_add_w_def add_thread_def new_pcb_def new_tcb_def initial_context_def
  pick_and_switch_next_def current_pid_def enter_process_def
  switch_page_table_def run_thread_def drain_pending_stack_def mark_running_def set_thread_def
  mark_ready_def on_tick_def yield_current_def capture_kernel_def switched_def stack_pointer_def

subsection \<open>A concrete run\<close>

lemma demo_steps:
  "\<exists>r. sched_exec new_sched Init = Some (demo_booted, r)"
  "\<exists>r. sched_exec demo_booted demo_spawn = Some (demo_spawned, r)"
  "\<exists>r. sched_exec demo_spawned (Tick default_context) = Some (demo_running, r)"
  by (simp_all add: demo_simps)

lemma demo_reachable:
  assumes "ok new_sched Init" and "ok demo_booted demo_spawn" and "ok demo_spawned (Tick default_context)"
  shows "sched_reachable ok demo_running"
proof -
  obtain r1 r2 r3 where e: "sched_exec new_sched Init = Some (demo_booted, r1)"
    "sched_exec demo_booted demo_spawn = Some (demo_spawned, r2)"
    "sched_exec demo_spawned (Tick default_context) = Some (demo_running, r3)"
    using demo_steps by blast
  have "sched_reachable ok demo_booted"
    using sched_reachable.exec [OF sched_reachable.boot, of Init ok] assms(1) e(1) by simp
  moreover have "ids_left demo_booted demo_spawn" by (simp add: demo_spawn_def demo_booted_def sched_init_def new_sched_def)
  ultimately have "sched_reachable ok demo_spawned" using assms(2) e(2) by (blast intro: sched_reachable.exec)
  moreover have "ids_left demo_spawned (Tick default_context)" by simp
  ultimately show ?thesis using assms(3) e(3) by (blast intro: sched_reachable.exec)
qed

lemma demo_state:
  "current_tid demo_running = Some 1" "ready_queue demo_running = [0]" "active demo_running"
  "\<exists>th. threads demo_running 1 = Some th \<and> thread_st th = Running \<and> kernel_sp th = 0x104000 \<and> tcb_pid th = 1"
  "\<exists>p. processes demo_running 1 = Some p \<and> page_table_root p = 0x5000"
  "owned_stacks demo_running = {0x104000}"
  by (simp_all add: demo_simps new_user_def)

lemma demo_any: "sched_reachable (\<lambda>_ _. True) demo_running"
  by (rule demo_reachable) auto

lemma demo_careful: "sched_reachable careful demo_running"
  by (rule demo_reachable) (auto simp: careful_def demo_spawn_def)

lemma demo_fresh: "sched_reachable stacks_fresh demo_running"
  by (rule demo_reachable) (auto simp: demo_simps default_context_def)

subsection \<open>Properties\<close>

text \<open>C2: in every reachable state the queue holds no thread twice, every ready thread waits in it and no blocked
  one does, the running thread is the current one, every thread belongs to its process, and the machine agrees
  with the current thread: interrupts land on its kernel stack and the page table is that of its process.\<close>

theorem scheduler_consistent:
  assumes "sched_reachable (\<lambda>_ _. True) s"
  shows "distinct (ready_queue s) \<and>
    (\<forall>t th. threads s t = Some th \<longrightarrow>
       (thread_st th = Ready \<longrightarrow> t \<in> set (ready_queue s)) \<and>
       (thread_st th = Running \<longrightarrow> current_tid s = Some t) \<and>
       (thread_st th = Blocked \<longrightarrow> t \<notin> set (ready_queue s)) \<and>
       (\<exists>p. processes s (tcb_pid th) = Some p \<and> t \<in> set (pcb_threads p))) \<and>
    (\<forall>c th p. current_tid s = Some c \<longrightarrow> threads s c = Some th \<longrightarrow> processes s (tcb_pid th) = Some p \<longrightarrow>
       rsp0 s = kernel_sp th \<and> (page_table_root p \<noteq> 0 \<longrightarrow> cr3 s = page_table_root p))"
proof -
  have inv: "sched_inv s" using assms by (rule sched_reachable_inv)
  have "t \<notin> set (ready_queue s)" if "threads s t = Some th" "thread_st th = Blocked" for t th
    using sched_invD(2) [OF inv, of t] that by auto
  then show ?thesis
    using sched_invD(1,3,4,5) [OF inv] sched_invD(10) [OF inv] by fastforce
qed

lemma scheduler_consistent_witness: "rsp0 demo_running = 0x104000 \<and> cr3 demo_running = 0x5000"
  using scheduler_consistent [OF demo_any] demo_state by fastforce

text \<open>C4: a thread that loses the processor by a timer tick, a yield or by blocking, gets back exactly the registers it
  had, whenever and after whatever history it next runs.\<close>

theorem registers_survive:
  assumes "sched_reachable (\<lambda>_ _. True) s" and "current_tid s = Some t" and "threads s t = Some th" and "thread_st th = Running"
    and "op = Tick k \<or> op = Yield k \<or> op = Block_Current k"
    and "sched_exec s op = Some (s1, r1)"
    and "sched_run s1 ops = Some tr" and "\<forall>s'\<in>set tr. current_tid s' \<noteq> Some t"
    and "sched_exec (last tr) op' = Some (s2, r2)" and "current_tid s2 = Some t"
  shows "r2 = Some k"
proof -
  have inv: "sched_inv s" using assms(1) by (rule sched_reachable_inv)
  have "ids_left s op" using assms(5) by auto
  then have inv1: "sched_inv s1" using sched_exec_inv [OF inv _ assms(6)] by blast
  have tr: "tr \<noteq> []" "hd tr = s1" using sched_run_nonempty [OF assms(7)] by auto
  then have "current_tid s1 \<noteq> Some t" using assms(8) by (metis hd_in_set)
  from park_saves [OF inv assms(2-6) this] obtain th1 where th1: "threads s1 t = Some th1" "tcb_context th1 = k"
    by blast
  from sched_run_keeps [OF inv1 assms(7,8) th1(1)] obtain th2 where
    th2: "sched_inv (last tr)" "threads (last tr) t = Some th2" "tcb_context th2 = k" using th1(2) by auto
  have "current_tid (last tr) \<noteq> Some t" using assms(8) tr(1) by auto
  from exec_resumes [OF th2(1) this assms(9)] show ?thesis using th2 assms(10) by (simp add: resumes_def)
qed

lemma registers_survive_witness: "snd (the (sched_exec demo_yielded (Yield default_context))) = Some demo_regs"
proof -
  obtain th where th: "threads demo_running 1 = Some th" "thread_st th = Running" using demo_state(4) by blast
  obtain r1 where e1: "sched_exec demo_running (Yield demo_regs) = Some (demo_yielded, r1)"
    by (simp add: demo_simps)
  obtain r2 where e2: "sched_exec demo_yielded (Yield default_context) = Some (demo_resumed, r2)"
    by (simp add: demo_simps)
  have c: "current_tid demo_yielded = Some 0" "current_tid demo_resumed = Some 1" by (simp_all add: demo_simps)
  have "r2 = Some demo_regs"
    by (rule registers_survive [OF demo_any demo_state(1) th, where ops = "[]" and tr = "[demo_yielded]" and op = "Yield demo_regs"
        and op' = "Yield default_context"]) (use e1 e2 c in simp_all)
  then show ?thesis using e2 by simp
qed

text \<open>C15: as long as the heap hands out fresh buffers and callers bring stacks of their own, the kernel stack of a
  live thread is neither in the recycling pool nor pending, and no other live or current thread uses it.\<close>

theorem kernel_stacks_exclusive:
  assumes "sched_reachable stacks_fresh s"
    and "threads s t = Some th" and "thread_st th \<noteq> Terminated" and "kernel_sp th \<in> owned_stacks s"
  shows "kernel_sp th \<notin> set (stack_pool s) \<and> pending_free_stack s \<noteq> Some (kernel_sp th) \<and>
    (\<forall>u uh. threads s u = Some uh \<longrightarrow> u \<noteq> t \<longrightarrow> thread_st uh \<noteq> Terminated \<or> current_tid s = Some u \<longrightarrow>
       kernel_sp uh \<noteq> kernel_sp th)"
proof -
  have st: "stack_inv s" using assms(1)
  proof (induction rule: sched_reachable.induct)
    case boot
    then show ?case by (simp add: stack_inv_def new_sched_def uses_stack_def)
  next
    case (exec s op s' r)
    then show ?case using stack_exec [OF sched_reachable_inv] by blast
  qed
  have u: "uses_stack s t th" using assms by (simp add: uses_stack_def)
  have "u = t" if "threads s u = Some uh" "thread_st uh \<noteq> Terminated \<or> current_tid s = Some u" "kernel_sp uh = kernel_sp th" for u uh
    using stack_invD(5) [OF st _ u, of u uh] that assms(4) by (simp add: uses_stack_def)
  moreover have "pending_free_stack s \<noteq> Some (kernel_sp th)"
    using stack_invD(3) [OF st, of "kernel_sp th"] calculation assms(2,3) by auto
  ultimately show ?thesis using stack_invD(4) [OF st u] by blast
qed

lemma kernel_stacks_exclusive_witness:
  "0x104000 \<notin> set (stack_pool demo_running) \<and> pending_free_stack demo_running \<noteq> Some 0x104000"
proof -
  obtain th where th: "threads demo_running 1 = Some th" "thread_st th = Running" "kernel_sp th = 0x104000"
    using demo_state(4) by blast
  show ?thesis using kernel_stacks_exclusive [OF demo_fresh th(1)] th demo_state(6) by simp
qed

text \<open>C17: round robin is fair: with a thread running, the thread at position \<open>k\<close> of the ready queue runs after at
  most \<open>2 * (k + 1)\<close> timer ticks, each of which returns.\<close>

theorem round_robin_fair:
  assumes "sched_reachable careful s" and "active s" and "current_tid s = Some c"
    and "threads s c = Some th" and "thread_st th = Running"
    and "k < length (ready_queue s)" and "length ctxs = 2 * (k + 1)"
  shows "\<exists>m s'. m \<le> length ctxs \<and> ticks s (take m ctxs) = Some s' \<and> current_tid s' = Some (ready_queue s ! k)"
proof (rule turn_comes [OF _ _ assms(6,7)])
  have q: "quantum_ok s" using assms(1) by (rule quantum_reachable)
  show "running_at s c (ready_queue s) (time_slice th)"
    using assms(1-5) sched_reachable_inv careful_clean q by (auto simp: running_at_def quantum_ok_def)
  show "time_slice th \<le> 2" using q assms(4) by (simp add: quantum_ok_def)
qed

lemma round_robin_fair_witness:
  "\<exists>m s'. m \<le> length [demo_regs, demo_regs] \<and> ticks demo_running (take m [demo_regs, demo_regs]) = Some s' \<and>
     current_tid s' = Some 0"
proof -
  obtain th where th: "threads demo_running 1 = Some th" "thread_st th = Running" using demo_state(4) by blast
  show ?thesis
    using round_robin_fair [OF demo_careful demo_state(3,1) th, of 0 "[demo_regs, demo_regs]"] demo_state(2) by simp
qed

text \<open>C25: if the current thread is never unblocked while it is still current, every scheduler call returns: no spin
  lock is taken twice and no loop runs on.\<close>

theorem scheduler_returns:
  assumes "sched_reachable careful s" and "careful s op"
  shows "\<exists>s' r. sched_exec s op = Some (s', r)"
  using exec_clean [OF sched_reachable_inv [OF assms(1)] careful_clean [OF assms(1)] assms(2)] by blast

lemma scheduler_returns_witness: "\<exists>s' r. sched_exec demo_running (Tick demo_regs) = Some (s', r)"
  by (rule scheduler_returns [OF demo_careful]) (simp add: careful_def)

text \<open>The case that is excluded there is real: in this run a lone thread blocks, nothing else is ready so it stays current, an
  event unblocks it, and the next timer tick never returns, since \<^verbatim>\<open>pick_and_switch_next\<close> takes the lock of that
  thread while it already holds it.\<close>

lemma waking_current_hangs:
  "\<exists>s0 s1 tid. spawn_process (sched_init new_sched) (lit ''init'') 0 0x1000 0 0x9000 False 0 0 = Some (s0, 1, tid) \<and>
     pick_and_switch_next s0 default_context = Some (s1, new_kernel 0x1000 0x9000 0, True) \<and>
     (\<exists>s2 ctx. block_current s1 default_context = Some (s2, ctx, False) \<and>
        snd (unblock_thread s2 tid) \<and> on_tick (fst (unblock_thread s2 tid)) default_context = None)"
  by (simp add: spawn_process_def sched_init_def new_sched_def Let_def choose_stack_def add_thread_def new_pcb_def
      new_tcb_def initial_context_def new_kernel_def default_context_def pick_and_switch_next_def
      current_pid_def enter_process_def switch_page_table_def run_thread_def drain_pending_stack_def mark_running_def
      block_current_def set_thread_def mark_blocked_def unblock_thread_def mark_ready_def on_tick_def)

end
