(* ===== verification/Paging.thy ===== *)
theory Paging
  imports Syscall_Abi
begin

text \<open>
  Four-level paging and physical frames: \<^verbatim>\<open>kernel/src/memory.rs\<close>.

  Memory is a function from addresses to 64-bit words; the page tables are read and written
  through the window in which the boot loader maps all physical memory, at
  \<open>physical_offset\<close>. The model of \<^verbatim>\<open>virtual_of\<close> adds without an overflow check: by
  \<open>virtual_of_exact\<close> the sum never overflows for addresses of at most 52 bits with an offset
  that leaves room for them. The index of the next frame is a natural number, which the memory map bounds far below \<open>2 ^ 64\<close>. The root table that the hardware register holds is the field
  \<open>root_table\<close>. Invalidating the TLB has no effect in a model that always walks the tables.

  The errors are the messages of the source as a datatype. The lemmas describe the tables
  by the final entry (\<open>leaf\<close>) that an address reaches: its address bits give the translation and its
  flag bits the permissions.
\<close>

type_synonym mem = "u64 \<Rightarrow> u64"

datatype paging_error =
    No_Frames | Through_Huge_Page | Already_Mapped | Not_Mapped | Huge_Unmap_Unsupported
  | Heap_No_Frames | Controller_Uninitialized

subsection \<open>Entries and the walk\<close>

definition PAGE_SIZE :: u64 where "PAGE_SIZE = 4096"

record region =
  region_start :: u64
  region_end :: u64
  usable :: bool

definition PRESENT :: u64 where "PRESENT = 0x1"
definition WRITABLE :: u64 where "WRITABLE = 0x2"
definition USER :: u64 where "USER = 0x4"
definition HUGE :: u64 where "HUGE = 0x80"
definition NO_EXECUTE :: u64 where "NO_EXECUTE = 0x8000000000000000"
definition ADDRESS_MASK :: u64 where "ADDRESS_MASK = 0x000ffffffffff000"

record mapper =
  physical_offset :: u64
  root_table :: u64

definition virtual_of :: "mapper \<Rightarrow> u64 \<Rightarrow> u64" where
  "virtual_of m physical = physical + physical_offset m"

definition entry :: "mapper \<Rightarrow> u64 \<Rightarrow> nat \<Rightarrow> u64" where
  "entry m table index = virtual_of m table + 8 * word_of_nat index"

definition table_index :: "u64 \<Rightarrow> nat \<Rightarrow> nat" where
  "table_index virtual_address level =
     unat (drop_bit (12 + 9 * (level - 1)) virtual_address AND 0x1FF)"

text \<open>The loop of \<open>translate\<close> from a level on; level 0 is past the loop.\<close>

fun translate_from :: "mapper \<Rightarrow> mem \<Rightarrow> nat \<Rightarrow> u64 \<Rightarrow> u64 \<Rightarrow> u64 option" where
  "translate_from m mem 0 table va = Some (table + (va AND 0xFFF))"
| "translate_from m mem (Suc l) table va =
     (let e = mem (entry m table (table_index va (Suc l)))
      in if e AND PRESENT = 0 then None
         else
           let table' = e AND ADDRESS_MASK
           in if 0 < l \<and> e AND HUGE \<noteq> 0
              then Some (table' + (va AND (push_bit (12 + 9 * l) 1 - 1)))
              else translate_from m mem l table' va)"

definition translate :: "mapper \<Rightarrow> mem \<Rightarrow> u64 \<Rightarrow> u64 option" where
  "translate m mem va = translate_from m mem 4 (root_table m) va"

subsection \<open>Frames\<close>

record frame_allocator =
  regions :: "region list"
  next_frame :: usize

definition new_frame_allocator :: "region list \<Rightarrow> frame_allocator" where
  "new_frame_allocator rs = \<lparr>regions = rs, next_frame = 0\<rparr>"

definition region_frames :: "region \<Rightarrow> u64 list" where
  "region_frames r =
     (let first = div_ceil (unat (region_start r)) 4096 * 4096;
          last = unat (region_end r) div 4096 * 4096
      in map (\<lambda>k. word_of_nat (first + 4096 * k)) [0..<(last - first) div 4096])"

definition usable_frames :: "frame_allocator \<Rightarrow> u64 list" where
  "usable_frames fa = concat (map region_frames (filter usable (regions fa)))"

definition nth_frame :: "frame_allocator \<Rightarrow> nat \<Rightarrow> u64 option" where
  "nth_frame fa n = (let fs = usable_frames fa in if n < length fs then Some (fs ! n) else None)"

definition allocate_frame :: "frame_allocator \<Rightarrow> frame_allocator \<times> u64 option" where
  "allocate_frame fa = (fa\<lparr>next_frame := next_frame fa + 1\<rparr>, nth_frame fa (next_frame fa))"

text \<open>The check of the frames after the first: \<open>None\<close> when one is missing, \<open>Some False\<close> at a gap.\<close>

fun contiguous_from :: "frame_allocator \<Rightarrow> u64 \<Rightarrow> nat \<Rightarrow> nat \<Rightarrow> bool option" where
  "contiguous_from fa first i 0 = Some True"
| "contiguous_from fa first i (Suc n) =
     (case nth_frame fa (next_frame fa + i) of
        None \<Rightarrow> None
      | Some f \<Rightarrow>
          if f \<noteq> first + word_of_nat i * PAGE_SIZE then Some False
          else contiguous_from fa first (i + 1) n)"

text \<open>The retry at the next frame is a recursive call; the list of frames is finite.\<close>

function allocate_contiguous :: "frame_allocator \<Rightarrow> nat \<Rightarrow> frame_allocator \<times> u64 option" where
  "allocate_contiguous fa count =
     (if count = 0 then (fa, None)
      else
        (case nth_frame fa (next_frame fa) of
           None \<Rightarrow> (fa, None)
         | Some first \<Rightarrow>
             (case contiguous_from fa first 1 (count - 1) of
                None \<Rightarrow> (fa, None)
              | Some False \<Rightarrow> allocate_contiguous (fa\<lparr>next_frame := next_frame fa + 1\<rparr>) count
              | Some True \<Rightarrow> (fa\<lparr>next_frame := next_frame fa + count\<rparr>, Some first))))"
  by pat_completeness auto
termination
  by (relation "measure (\<lambda>(fa, _). length (usable_frames fa) - next_frame fa)")
    (auto simp: nth_frame_def usable_frames_def Let_def split: if_splits)

definition frames_handed_out :: "frame_allocator \<Rightarrow> nat" where
  "frames_handed_out fa = next_frame fa"

subsection \<open>Changing the tables\<close>

text \<open>\<^verbatim>\<open>write_bytes(virtual_of(page), 0, PAGE_SIZE)\<close>.\<close>

definition zero_page :: "mapper \<Rightarrow> mem \<Rightarrow> u64 \<Rightarrow> mem" where
  "zero_page m mem page = (\<lambda>a. if a - virtual_of m page < PAGE_SIZE then 0 else mem a)"

text \<open>The loop of \<open>map\<close> over the levels 4, 3 and 2: it ends at the level-1 table.\<close>

fun map_walk ::
  "mapper \<Rightarrow> u64 \<Rightarrow> u64 \<Rightarrow> nat \<Rightarrow> u64 \<Rightarrow> mem \<Rightarrow> frame_allocator \<Rightarrow> mem \<times> frame_allocator \<times> (paging_error + u64)" where
  "map_walk m va flags (Suc (Suc l)) table mem fa =
     (let a = entry m table (table_index va (Suc (Suc l)));
          value = mem a
      in if value AND PRESENT = 0 then
           (case allocate_frame fa of
              (fa', None) \<Rightarrow> (mem, fa', Inl No_Frames)
            | (fa', Some new_table) \<Rightarrow>
                map_walk m va flags (Suc l) new_table
                  ((zero_page m mem new_table)(a := new_table OR PRESENT OR WRITABLE OR (flags AND USER))) fa')
         else if value AND HUGE \<noteq> 0 then (mem, fa, Inl Through_Huge_Page)
         else
           map_walk m va flags (Suc l) (value AND ADDRESS_MASK)
             (if flags AND USER \<noteq> 0 \<and> value AND USER = 0 then mem(a := value OR USER) else mem) fa)"
| "map_walk m va flags l table mem fa = (mem, fa, Inr table)"

definition map_page ::
  "mapper \<Rightarrow> u64 \<Rightarrow> u64 \<Rightarrow> u64 \<Rightarrow> mem \<Rightarrow> frame_allocator \<Rightarrow> mem \<times> frame_allocator \<times> (paging_error + unit)" where
  "map_page m va frame flags mem fa =
     (case map_walk m va flags 4 (root_table m) mem fa of
        (mem', fa', Inl e) \<Rightarrow> (mem', fa', Inl e)
      | (mem', fa', Inr table) \<Rightarrow>
          let a = entry m table (table_index va 1)
          in if mem' a AND PRESENT \<noteq> 0 then (mem', fa', Inl Already_Mapped)
             else (mem'(a := frame OR flags OR PRESENT), fa', Inr ()))"

fun unmap_walk :: "mapper \<Rightarrow> mem \<Rightarrow> u64 \<Rightarrow> nat \<Rightarrow> u64 \<Rightarrow> paging_error + u64" where
  "unmap_walk m mem va (Suc (Suc l)) table =
     (let e = mem (entry m table (table_index va (Suc (Suc l))))
      in if e AND PRESENT = 0 then Inl Not_Mapped
         else if e AND HUGE \<noteq> 0 then Inl Huge_Unmap_Unsupported
         else unmap_walk m mem va (Suc l) (e AND ADDRESS_MASK))"
| "unmap_walk m mem va l table = Inr table"

definition unmap_page :: "mapper \<Rightarrow> u64 \<Rightarrow> mem \<Rightarrow> mem \<times> (paging_error + u64)" where
  "unmap_page m va mem =
     (case unmap_walk m mem va 4 (root_table m) of
        Inl e \<Rightarrow> (mem, Inl e)
      | Inr table \<Rightarrow>
          let a = entry m table (table_index va 1);
              v = mem a
          in if v AND PRESENT = 0 then (mem, Inl Not_Mapped)
             else (mem(a := 0), Inr (v AND ADDRESS_MASK)))"

text \<open>\<open>update_flags\<close> walks without looking at the huge-page bit.\<close>

fun flags_walk :: "mapper \<Rightarrow> mem \<Rightarrow> u64 \<Rightarrow> nat \<Rightarrow> u64 \<Rightarrow> paging_error + u64" where
  "flags_walk m mem va (Suc (Suc l)) table =
     (let e = mem (entry m table (table_index va (Suc (Suc l))))
      in if e AND PRESENT = 0 then Inl Not_Mapped
         else flags_walk m mem va (Suc l) (e AND ADDRESS_MASK))"
| "flags_walk m mem va l table = Inr table"

definition update_flags :: "mapper \<Rightarrow> u64 \<Rightarrow> u64 \<Rightarrow> mem \<Rightarrow> mem \<times> (paging_error + unit)" where
  "update_flags m va flags mem =
     (case flags_walk m mem va 4 (root_table m) of
        Inl e \<Rightarrow> (mem, Inl e)
      | Inr table \<Rightarrow>
          let a = entry m table (table_index va 1);
              v = mem a
          in if v AND PRESENT = 0 then (mem, Inl Not_Mapped)
             else (mem(a := (v AND ADDRESS_MASK) OR flags OR PRESENT), Inr ()))"

subsection \<open>The memory controller\<close>

record controller =
  ctl_mapper :: mapper
  ctl_allocator :: frame_allocator

text \<open>\<open>None\<close> stands for a panic: an address computation overflowed.\<close>

definition page_addr :: "u64 \<Rightarrow> nat \<Rightarrow> u64 option" where
  "page_addr start i =
     (case checked_mul_w (word_of_nat i) PAGE_SIZE of
        None \<Rightarrow> None
      | Some off \<Rightarrow> checked_add_w start off)"

fun mmap_loop :: "controller \<Rightarrow> mem \<Rightarrow> u64 \<Rightarrow> nat \<Rightarrow> nat \<Rightarrow> (controller \<times> mem \<times> (u64 + unit)) option" where
  "mmap_loop c mem start i 0 = Some (c, mem, Inr ())"
| "mmap_loop c mem start i (Suc n) =
     (case page_addr start i of
        None \<Rightarrow> None
      | Some vaddr \<Rightarrow>
          (case allocate_frame (ctl_allocator c) of
             (fa, None) \<Rightarrow> Some (c\<lparr>ctl_allocator := fa\<rparr>, mem, Inl ENOMEM)
           | (fa, Some frame) \<Rightarrow>
               (case map_page (ctl_mapper c) vaddr frame (PRESENT OR WRITABLE OR USER)
                       (zero_page (ctl_mapper c) mem frame) fa of
                  (mem', fa', Inl e) \<Rightarrow> Some (c\<lparr>ctl_allocator := fa'\<rparr>, mem', Inl ENOMEM)
                | (mem', fa', Inr _) \<Rightarrow> mmap_loop (c\<lparr>ctl_allocator := fa'\<rparr>) mem' start (i + 1) n)))"

definition mmap_user_pages ::
  "controller option \<Rightarrow> mem \<Rightarrow> u64 \<Rightarrow> nat \<Rightarrow> (controller option \<times> mem \<times> (u64 + u64)) option" where
  "mmap_user_pages ctl mem start count =
     (case ctl of
        None \<Rightarrow> Some (None, mem, Inl ENOMEM)
      | Some c \<Rightarrow>
          (case mmap_loop c mem start 0 count of
             None \<Rightarrow> None
           | Some (c', mem', Inl e) \<Rightarrow> Some (Some c', mem', Inl e)
           | Some (c', mem', Inr _) \<Rightarrow> Some (Some c', mem', Inr start)))"

fun munmap_loop :: "mapper \<Rightarrow> mem \<Rightarrow> u64 \<Rightarrow> nat \<Rightarrow> nat \<Rightarrow> mem option" where
  "munmap_loop m mem start i 0 = Some mem"
| "munmap_loop m mem start i (Suc n) =
     (case page_addr start i of
        None \<Rightarrow> None
      | Some vaddr \<Rightarrow> munmap_loop m (fst (unmap_page m vaddr mem)) start (i + 1) n)"

definition munmap_user_pages :: "controller option \<Rightarrow> mem \<Rightarrow> u64 \<Rightarrow> nat \<Rightarrow> (mem \<times> (u64 + unit)) option" where
  "munmap_user_pages ctl mem start count =
     (case ctl of
        None \<Rightarrow> Some (mem, Inl EINVAL)
      | Some c \<Rightarrow> map_option (\<lambda>mem'. (mem', Inr ())) (munmap_loop (ctl_mapper c) mem start 0 count))"

definition HEAP_START :: u64 where "HEAP_START = 0x444444440000"
definition HEAP_SIZE :: nat where "HEAP_SIZE = 4 * 1024 * 1024"

fun init_heap_loop :: "mapper \<Rightarrow> mem \<Rightarrow> frame_allocator \<Rightarrow> nat \<Rightarrow> nat \<Rightarrow> mem \<times> frame_allocator \<times> (paging_error + unit)" where
  "init_heap_loop m mem fa page 0 = (mem, fa, Inr ())"
| "init_heap_loop m mem fa page (Suc n) =
     (case allocate_frame fa of
        (fa', None) \<Rightarrow> (mem, fa', Inl Heap_No_Frames)
      | (fa', Some frame) \<Rightarrow>
          (case map_page m (HEAP_START + word_of_nat page * PAGE_SIZE) frame (PRESENT OR WRITABLE) mem fa' of
             (mem', fa'', Inl e) \<Rightarrow> (mem', fa'', Inl e)
           | (mem', fa'', Inr _) \<Rightarrow> init_heap_loop m mem' fa'' (page + 1) n))"

definition init_heap :: "mapper \<Rightarrow> mem \<Rightarrow> frame_allocator \<Rightarrow> mem \<times> frame_allocator \<times> (paging_error + unit)" where
  "init_heap m mem fa = init_heap_loop m mem fa 0 (HEAP_SIZE div 4096)"

definition allocate_dma_frame :: "controller option \<Rightarrow> mem \<Rightarrow> controller option \<times> mem \<times> (u64 \<times> u64) option" where
  "allocate_dma_frame ctl mem =
     (case ctl of
        None \<Rightarrow> (None, mem, None)
      | Some c \<Rightarrow>
          (case allocate_frame (ctl_allocator c) of
             (fa, None) \<Rightarrow> (Some (c\<lparr>ctl_allocator := fa\<rparr>), mem, None)
           | (fa, Some frame) \<Rightarrow>
               (Some (c\<lparr>ctl_allocator := fa\<rparr>), zero_page (ctl_mapper c) mem frame,
                Some (frame, virtual_of (ctl_mapper c) frame))))"

definition zero_pages :: "mapper \<Rightarrow> mem \<Rightarrow> u64 \<Rightarrow> nat \<Rightarrow> mem" where
  "zero_pages m mem frame count =
     (\<lambda>a. if unat (a - virtual_of m frame) < count * 4096 then 0 else mem a)"

definition allocate_dma_frames ::
  "controller option \<Rightarrow> mem \<Rightarrow> nat \<Rightarrow> controller option \<times> mem \<times> (u64 \<times> u64) option" where
  "allocate_dma_frames ctl mem count =
     (if count = 0 then (ctl, mem, None)
      else
        (case ctl of
           None \<Rightarrow> (None, mem, None)
         | Some c \<Rightarrow>
             (case allocate_contiguous (ctl_allocator c) count of
                (fa, None) \<Rightarrow> (Some (c\<lparr>ctl_allocator := fa\<rparr>), mem, None)
              | (fa, Some frame) \<Rightarrow>
                  (Some (c\<lparr>ctl_allocator := fa\<rparr>), zero_pages (ctl_mapper c) mem frame count,
                   Some (frame, virtual_of (ctl_mapper c) frame)))))"

fun mmio_loop ::
  "controller \<Rightarrow> mem \<Rightarrow> u64 \<Rightarrow> u64 \<Rightarrow> nat \<Rightarrow> nat \<Rightarrow> (controller \<times> mem \<times> (paging_error + unit)) option" where
  "mmio_loop c mem phys virt i 0 = Some (c, mem, Inr ())"
| "mmio_loop c mem phys virt i (Suc n) =
     (case (page_addr (phys AND NOT 0xFFF) i, page_addr (virt AND NOT 0xFFF) i) of
        (Some p_addr, Some v_addr) \<Rightarrow>
          (if translate (ctl_mapper c) mem v_addr = None then
             (case map_page (ctl_mapper c) v_addr p_addr (PRESENT OR WRITABLE) mem (ctl_allocator c) of
                (mem', fa, Inl e) \<Rightarrow> Some (c\<lparr>ctl_allocator := fa\<rparr>, mem', Inl e)
              | (mem', fa, Inr _) \<Rightarrow> mmio_loop (c\<lparr>ctl_allocator := fa\<rparr>) mem' phys virt (i + 1) n)
           else mmio_loop c mem phys virt (i + 1) n)
      | _ \<Rightarrow> None)"

definition ensure_mmio_mapped ::
  "controller option \<Rightarrow> mem \<Rightarrow> u64 \<Rightarrow> nat \<Rightarrow> (controller option \<times> mem \<times> (paging_error + u64)) option" where
  "ensure_mmio_mapped ctl mem phys_start len =
     (case ctl of
        None \<Rightarrow> Some (None, mem, Inl Controller_Uninitialized)
      | Some c \<Rightarrow>
          (case checked_add_w phys_start (physical_offset (ctl_mapper c)) of
             None \<Rightarrow> None
           | Some virt_start \<Rightarrow>
               (case mmio_loop c mem phys_start virt_start 0 (div_ceil len 4096) of
                  None \<Rightarrow> None
                | Some (c', mem', Inl e) \<Rightarrow> Some (Some c', mem', Inl e)
                | Some (c', mem', Inr _) \<Rightarrow> Some (Some c', mem', Inr virt_start))))"

definition phys_to_virt :: "controller option \<Rightarrow> u64 \<Rightarrow> u64" where
  "phys_to_virt ctl phys = (case ctl of None \<Rightarrow> phys + 0 | Some c \<Rightarrow> phys + physical_offset (ctl_mapper c))"

subsection \<open>Specification vocabulary\<close>

definition aligned :: "u64 \<Rightarrow> bool" where
  "aligned t \<longleftrightarrow> t AND ADDRESS_MASK = t"

text \<open>The indices of an address, from the root on.\<close>

definition path :: "u64 \<Rightarrow> nat list" where
  "path va = [table_index va 4, table_index va 3, table_index va 2, table_index va 1]"

fun walk :: "mapper \<Rightarrow> mem \<Rightarrow> u64 \<Rightarrow> nat list \<Rightarrow> u64 option" where
  "walk m mem t [] = Some t"
| "walk m mem t (i # q) =
     (let e = mem (entry m t i)
      in if e AND PRESENT \<noteq> 0 \<and> e AND HUGE = 0 then walk m mem (e AND ADDRESS_MASK) q else None)"

text \<open>The final entry of a walk, with the number of levels below it.\<close>

fun leaf_at :: "mapper \<Rightarrow> mem \<Rightarrow> u64 \<Rightarrow> nat list \<Rightarrow> (nat \<times> u64) option" where
  "leaf_at m mem t [] = None"
| "leaf_at m mem t (i # q) =
     (let e = mem (entry m t i)
      in if e AND PRESENT = 0 then None
         else if q = [] \<or> e AND HUGE \<noteq> 0 then Some (length q, e)
         else leaf_at m mem (e AND ADDRESS_MASK) q)"

definition leaf :: "mapper \<Rightarrow> mem \<Rightarrow> u64 \<Rightarrow> (nat \<times> u64) option" where
  "leaf m mem va = leaf_at m mem (root_table m) (path va)"

definition indices_ok :: "nat list \<Rightarrow> bool" where
  "indices_ok q \<longleftrightarrow> list_all (\<lambda>i. i < 512) q"

text \<open>The tables form a tree below the root: no table is reached by two paths.\<close>

definition pt_tree :: "mapper \<Rightarrow> mem \<Rightarrow> bool" where
  "pt_tree m mem \<longleftrightarrow> aligned (root_table m) \<and>
     (\<forall>p q t. length p \<le> 3 \<longrightarrow> length q \<le> 3 \<longrightarrow> indices_ok p \<longrightarrow> indices_ok q \<longrightarrow>
        walk m mem (root_table m) p = Some t \<longrightarrow> walk m mem (root_table m) q = Some t \<longrightarrow> p = q)"

definition no_table :: "mapper \<Rightarrow> mem \<Rightarrow> u64 \<Rightarrow> bool" where
  "no_table m mem f \<longleftrightarrow> aligned f \<and>
     (\<forall>p. length p \<le> 3 \<longrightarrow> indices_ok p \<longrightarrow> walk m mem (root_table m) p \<noteq> Some f)"

text \<open>Below, a change at the entry \<open>(u, j)\<close> of the table at path \<open>p\<close>, and fresh pages that are no tables.\<close>

definition changed_at :: "mapper \<Rightarrow> mem \<Rightarrow> mem \<Rightarrow> u64 \<Rightarrow> nat \<Rightarrow> bool" where
  "changed_at m mem mem' u j \<longleftrightarrow>
     (\<forall>x i. aligned x \<longrightarrow> i < 512 \<longrightarrow> (x, i) \<noteq> (u, j) \<longrightarrow> mem' (entry m x i) \<noteq> mem (entry m x i) \<longrightarrow> no_table m mem x)"

text \<open>The frames still to be handed out are distinct and none of them is a table.\<close>

definition frames_ok :: "mapper \<Rightarrow> mem \<Rightarrow> frame_allocator \<Rightarrow> bool" where
  "frames_ok m mem fa \<longleftrightarrow> distinct (usable_frames fa) \<and>
     (\<forall>n. next_frame fa \<le> n \<longrightarrow> n < length (usable_frames fa) \<longrightarrow> no_table m mem (usable_frames fa ! n))"

definition handed_out :: "frame_allocator \<Rightarrow> u64 \<Rightarrow> bool" where
  "handed_out fa g \<longleftrightarrow> (\<forall>n. next_frame fa \<le> n \<longrightarrow> n < length (usable_frames fa) \<longrightarrow> usable_frames fa ! n \<noteq> g)"

text \<open>What a change of the tables may do: new tables only out of frames that were not handed out yet.\<close>

definition tables_grow :: "mapper \<Rightarrow> mem \<Rightarrow> frame_allocator \<Rightarrow> mem \<Rightarrow> frame_allocator \<Rightarrow> bool" where
  "tables_grow m mem fa mem' fa' \<longleftrightarrow>
     pt_tree m mem' \<and> frames_ok m mem' fa' \<and> usable_frames fa' = usable_frames fa \<and> next_frame fa \<le> next_frame fa' \<and>
     (\<forall>q x. length q \<le> 3 \<longrightarrow> indices_ok q \<longrightarrow> walk m mem (root_table m) q = Some x \<longrightarrow>
        walk m mem' (root_table m) q = Some x) \<and>
     (\<forall>g. no_table m mem g \<longrightarrow> handed_out fa g \<longrightarrow>
        no_table m mem' g \<and> (\<forall>i<512. mem' (entry m g i) = mem (entry m g i)))"

fun path_down :: "u64 \<Rightarrow> nat \<Rightarrow> nat list" where
  "path_down va 0 = []"
| "path_down va (Suc l) = table_index va (Suc l) # path_down va l"

definition page_number :: "u64 \<Rightarrow> nat" where
  "page_number va = unat va div 4096 mod 2 ^ 36"

definition blank_page :: "mapper \<Rightarrow> mem \<Rightarrow> u64 \<Rightarrow> bool" where
  "blank_page m mem f \<longleftrightarrow> no_table m mem f \<and> (\<forall>i<512. mem (entry m f i) = 0)"

definition frames_between :: "frame_allocator \<Rightarrow> frame_allocator \<Rightarrow> u64 set" where
  "frames_between fa fa' = {usable_frames fa ! n |n. next_frame fa \<le> n \<and> n < next_frame fa' \<and> n < length (usable_frames fa)}"

abbreviation user_flags :: u64 where
  "user_flags \<equiv> PRESENT OR WRITABLE OR USER"

definition pages_mapped :: "mapper \<Rightarrow> mem \<Rightarrow> mem \<Rightarrow> u64 \<Rightarrow> nat \<Rightarrow> u64 list \<Rightarrow> bool" where
  "pages_mapped m mem mem' start i fs \<longleftrightarrow>
     (\<forall>k < length fs. \<exists>va. page_addr start (i + k) = Some va \<and> leaf m mem va = None \<and>
        leaf m mem' va = Some (0, fs ! k OR user_flags OR PRESENT)) \<and>
     (\<forall>va'. (\<forall>k < length fs. \<forall>va. page_addr start (i + k) = Some va \<longrightarrow> path va' \<noteq> path va) \<longrightarrow>
        leaf m mem' va' = leaf m mem va') \<and>
     (\<forall>f \<in> set fs. blank_page m mem' f)"

text \<open>A frame lies inside a region of memory.\<close>

definition frame_inside :: "region \<Rightarrow> u64 \<Rightarrow> bool" where
  "frame_inside r f \<longleftrightarrow> region_start r \<le> f \<and> unat f + 4096 \<le> unat (region_end r)"

text \<open>What the boot loader promises of the memory map: below the 52 bits of a physical address, no two usable regions overlap.\<close>

definition regions_ok :: "region list \<Rightarrow> bool" where
  "regions_ok rs \<longleftrightarrow> (\<forall>r \<in> set rs. unat (region_end r) \<le> 2 ^ 52) \<and>
     sorted_wrt (\<lambda>r s. region_end r \<le> region_start s \<or> region_end s \<le> region_start r) (filter usable rs)"

definition demo_mapper :: mapper where
  "demo_mapper = \<lparr>physical_offset = 0, root_table = 0x1000\<rparr>"

definition demo_frames :: frame_allocator where
  "demo_frames = new_frame_allocator
     [\<lparr>region_start = 0, region_end = 0x8000, usable = False\<rparr>, \<lparr>region_start = 0x10000, region_end = 0x18000, usable = True\<rparr>]"

definition demo_map :: "mem \<times> frame_allocator \<times> (paging_error + unit)" where
  "demo_map = map_page demo_mapper 0x400000 0x20000 (PRESENT OR WRITABLE OR USER) (\<lambda>_. 0) demo_frames"

text \<open>A 2 MiB page: the entry at level 2 has the huge-page bit, so there is no level-1 table below it.\<close>

definition huge_memory :: mem where
  "huge_memory = (\<lambda>_. 0)(0x1000 := 0x2001, 0x2000 := 0x3001, 0x3000 := 0x200081, 0x200000 := 0x41)"

lemmas entry_bits = PRESENT_def WRITABLE_def USER_def HUGE_def NO_EXECUTE_def ADDRESS_MASK_def

subsection \<open>Entries\<close>

lemma address_mask_eq: "ADDRESS_MASK = push_bit 12 (mask 40)"
  by (simp add: ADDRESS_MASK_def mask_eq_exp_minus_1 push_bit_eq_mult)

lemma aligned_mask [simp]: "aligned (e AND ADDRESS_MASK)"
  by (simp add: aligned_def and.assoc)

lemma aligned_unat:
  assumes "aligned t"
  shows "unat t mod 4096 = 0" and "unat t < 2 ^ 52"
proof -
  have "t = push_bit 12 (take_bit 40 (drop_bit 12 t))"
  proof (rule bit_word_eqI)
    fix n assume "n < LENGTH(64)"
    have "bit t n = bit (t AND push_bit 12 (mask 40)) n"
      using assms by (simp add: aligned_def address_mask_eq)
    then show "bit t n = bit (push_bit 12 (take_bit 40 (drop_bit 12 t))) n"
      by (auto simp: bit_and_iff bit_push_bit_iff bit_mask_iff bit_take_bit_iff bit_drop_bit_eq)
  qed
  then obtain x :: u64 where x: "t = push_bit 12 (take_bit 40 x)" by blast
  have lt: "unat (take_bit 40 x) < 2 ^ 40" using take_bit_nat_less_exp [of 40 "unat x"] by (simp add: unsigned_take_bit_eq)
  have "unat t = unat (take_bit 40 x) * 4096 mod 2 ^ 64"
    unfolding x by (simp add: push_bit_eq_mult unat_word_ariths mult.commute)
  moreover have "unat (take_bit 40 x) * 4096 < 2 ^ 64" using lt by simp
  ultimately have "unat t = unat (take_bit 40 x) * 4096" by simp
  then show "unat t mod 4096 = 0" "unat t < 2 ^ 52" using lt by simp_all
qed

lemma table_index_less [simp]: "table_index va l < 512"
proof -
  have m: "(0x1FF :: u64) = mask 9" by (simp add: mask_eq_exp_minus_1)
  have "table_index va l = unat (take_bit 9 (drop_bit (12 + 9 * (l - 1)) va))"
    unfolding table_index_def m by (simp only: take_bit_eq_mask)
  then show ?thesis using take_bit_nat_less_exp [of 9 "unat (drop_bit (12 + 9 * (l - 1)) va)"]
    by (simp add: unsigned_take_bit_eq)
qed

lemma unat_index: "i < 512 \<Longrightarrow> unat (8 * word_of_nat i :: u64) = 8 * i"
  by (simp add: unat_word_ariths unat_of_nat)

lemma unat_table_entry:
  assumes "aligned t" and "i < 512"
  shows "unat (t + 8 * word_of_nat i :: u64) = unat t + 8 * i"
  using aligned_unat [OF assms(1)] unat_index [OF assms(2)] assms(2) by (simp add: unat_word_ariths)

lemma entry_inj:
  assumes "aligned t" and "aligned u" and "i < 512" and "j < 512"
  shows "entry m t i = entry m u j \<longleftrightarrow> t = u \<and> i = j"
proof
  assume "entry m t i = entry m u j"
  then have "t + 8 * word_of_nat i = u + 8 * word_of_nat j"
    by (simp add: entry_def virtual_of_def algebra_simps)
  then have eq: "unat t + 8 * i = unat u + 8 * j"
    using unat_table_entry assms by metis
  have "(unat t + 8 * i) div 4096 = unat t div 4096" "(unat u + 8 * j) div 4096 = unat u div 4096"
    using aligned_unat(1) [OF assms(1)] aligned_unat(1) [OF assms(2)] assms(3,4) by auto
  then have "unat t div 4096 = unat u div 4096" using eq by metis
  then have "unat t = unat u"
    using aligned_unat(1) [OF assms(1)] aligned_unat(1) [OF assms(2)]
    by (metis add.right_neutral div_mult_mod_eq)
  then show "t = u \<and> i = j" using eq by (simp add: word_unat_eq_iff)
qed simp

lemma entry_in_page:
  assumes "aligned t" and "aligned f" and "i < 512"
  shows "entry m t i - virtual_of m f < PAGE_SIZE \<longleftrightarrow> t = f"
proof
  assume "t = f"
  then have "entry m t i - virtual_of m f = 8 * word_of_nat i" by (simp add: entry_def)
  then show "entry m t i - virtual_of m f < PAGE_SIZE"
    using unat_index [OF assms(3)] assms(3) by (simp add: word_less_nat_alt PAGE_SIZE_def)
next
  assume h: "entry m t i - virtual_of m f < PAGE_SIZE"
  have d: "entry m t i - virtual_of m f = t + 8 * word_of_nat i - f" by (simp add: entry_def virtual_of_def)
  define k where "k = unat (t + 8 * word_of_nat i - f)"
  have k: "k < 4096" using h unfolding d by (simp add: word_less_nat_alt PAGE_SIZE_def k_def)
  have "t + 8 * word_of_nat i = f + word_of_nat k" by (simp add: k_def)
  then have "unat t + 8 * i = unat (f + word_of_nat k)" using unat_table_entry [OF assms(1,3)] by simp
  also have "\<dots> = unat f + k"
    using aligned_unat(2) [OF assms(2)] k by (simp add: unat_word_ariths unat_of_nat)
  finally have eq: "unat t + 8 * i = unat f + k" .
  have "(unat t + 8 * i) div 4096 = unat t div 4096" "(unat f + k) div 4096 = unat f div 4096"
    using aligned_unat(1) [OF assms(1)] aligned_unat(1) [OF assms(2)] assms(3) k by auto
  then have "unat t div 4096 = unat f div 4096" using eq by metis
  then have "unat t = unat f"
    using aligned_unat(1) [OF assms(1)] aligned_unat(1) [OF assms(2)]
    by (metis add.right_neutral div_mult_mod_eq)
  then show "t = f" by (simp add: word_unat_eq_iff)
qed

lemma virtual_of_exact:
  assumes "unat p < 2 ^ 52" and "unat (physical_offset m) + 2 ^ 52 \<le> 2 ^ 64"
  shows "unat (virtual_of m p) = unat p + unat (physical_offset m)"
  using assms by (simp add: virtual_of_def unat_word_ariths)

text \<open>A new entry for a table, and an entry with the user bit added.\<close>

lemma new_entry_bits:
  assumes "aligned f"
  shows "(f OR PRESENT OR WRITABLE OR (flags AND USER)) AND ADDRESS_MASK = f"
    and "(f OR PRESENT OR WRITABLE OR (flags AND USER)) AND PRESENT \<noteq> 0"
    and "(f OR PRESENT OR WRITABLE OR (flags AND USER)) AND HUGE = 0"
proof -
  have f: "f AND ADDRESS_MASK = f" using assms by (simp add: aligned_def)
  have "ADDRESS_MASK AND HUGE = 0" "ADDRESS_MASK AND PRESENT = 0" by (simp_all add: entry_bits)
  then have h: "f AND HUGE = 0" "f AND PRESENT = 0" using f by (metis and.assoc and_zero_eq)+
  show "(f OR PRESENT OR WRITABLE OR (flags AND USER)) AND ADDRESS_MASK = f"
    by (simp add: bit.conj_disj_distrib2 f and.assoc) (simp add: entry_bits)
  show "(f OR PRESENT OR WRITABLE OR (flags AND USER)) AND PRESENT \<noteq> 0"
    by (simp add: bit.conj_disj_distrib2 h and.assoc) (simp add: entry_bits)
  show "(f OR PRESENT OR WRITABLE OR (flags AND USER)) AND HUGE = 0"
    by (simp add: bit.conj_disj_distrib2 h and.assoc) (simp add: entry_bits)
qed

lemma user_entry_bits:
  "(e OR USER) AND ADDRESS_MASK = e AND ADDRESS_MASK" "(e OR USER) AND PRESENT = e AND PRESENT"
  "(e OR USER) AND HUGE = e AND HUGE"
  by (simp_all add: bit.conj_disj_distrib2) (simp_all add: entry_bits)

lemma leaf_entry_bits:
  assumes "aligned f" and "flags AND ADDRESS_MASK = 0"
  shows "(f OR flags OR PRESENT) AND ADDRESS_MASK = f" and "(f OR flags OR PRESENT) AND PRESENT \<noteq> 0"
proof -
  have f: "f AND ADDRESS_MASK = f" using assms by (simp add: aligned_def)
  show "(f OR flags OR PRESENT) AND ADDRESS_MASK = f"
    by (simp add: bit.conj_disj_distrib2 f assms(2)) (simp add: entry_bits)
  show "(f OR flags OR PRESENT) AND PRESENT \<noteq> 0"
    by (simp add: bit.conj_disj_distrib2 or_eq_0_iff) (simp add: PRESENT_def)
qed

subsection \<open>Walks through a tree of tables\<close>

lemma path_simps [simp]: "length (path va) = 4" "indices_ok (path va)"
  by (simp_all add: path_def indices_ok_def)

lemma indices_ok_simps [simp]:
  "indices_ok []" "indices_ok (i # q) \<longleftrightarrow> i < 512 \<and> indices_ok q" "indices_ok (p @ q) \<longleftrightarrow> indices_ok p \<and> indices_ok q"
  by (simp_all add: indices_ok_def)

lemma indices_ok_take: "indices_ok q \<Longrightarrow> indices_ok (take k q)"
  by (auto simp: indices_ok_def list_all_iff dest: in_set_takeD)

lemma indices_ok_nth: "indices_ok q \<Longrightarrow> k < length q \<Longrightarrow> q ! k < 512"
  by (simp add: indices_ok_def list_all_length)

lemma walk_append:
  "walk m mem t (p @ q) = (case walk m mem t p of None \<Rightarrow> None | Some u \<Rightarrow> walk m mem u q)"
  by (induction p arbitrary: t) (auto simp: Let_def)

lemma leaf_append:
  "walk m mem t p = Some u \<Longrightarrow> q \<noteq> [] \<Longrightarrow> leaf_at m mem t (p @ q) = leaf_at m mem u q"
  by (induction p arbitrary: t) (auto simp: Let_def split: if_splits)

lemma walk_aligned: "aligned t \<Longrightarrow> walk m mem t p = Some u \<Longrightarrow> aligned u"
proof (induction p arbitrary: t)
  case (Cons i p)
  then show ?case
    using Cons.IH [OF aligned_mask [of "mem (entry m t i)"]] by (simp add: Let_def split: if_splits)
qed simp

lemma walk_table: "pt_tree m mem \<Longrightarrow> walk m mem (root_table m) p = Some u \<Longrightarrow> aligned u"
  by (auto simp: pt_tree_def intro: walk_aligned)

lemma same_walk:
  assumes "\<And>k x. k < length q \<Longrightarrow> walk m mem t (take k q) = Some x \<Longrightarrow> mem' (entry m x (q ! k)) = mem (entry m x (q ! k))"
  shows "walk m mem' t q = walk m mem t q \<and> leaf_at m mem' t q = leaf_at m mem t q"
  using assms
proof (induction q arbitrary: t)
  case (Cons i q)
  define e where "e = mem (entry m t i)"
  have e': "mem' (entry m t i) = e" using Cons.prems [of 0 t] by (simp add: e_def)
  show ?case
  proof (cases "e AND PRESENT \<noteq> 0 \<and> e AND HUGE = 0")
    case True
    have "walk m mem' (e AND ADDRESS_MASK) q = walk m mem (e AND ADDRESS_MASK) q \<and>
        leaf_at m mem' (e AND ADDRESS_MASK) q = leaf_at m mem (e AND ADDRESS_MASK) q"
    proof (rule Cons.IH)
      fix k x assume "k < length q" "walk m mem (e AND ADDRESS_MASK) (take k q) = Some x"
      then show "mem' (entry m x (q ! k)) = mem (entry m x (q ! k))"
        using Cons.prems [of "Suc k" x] True by (simp add: e_def)
    qed
    then show ?thesis using e' by (simp add: e_def [symmetric])
  next
    case False
    then show ?thesis using e' by (auto simp: e_def [symmetric] Let_def)
  qed
qed simp

lemma off_path:
  assumes tree: "pt_tree m mem" and p: "walk m mem (root_table m) p = Some u" "length p \<le> 3" "indices_ok p" "j < 512"
    and ch: "changed_at m mem mem' u j" and q: "length q \<le> 4" "indices_ok q" "\<And>r. q \<noteq> p @ j # r"
  shows "walk m mem' (root_table m) q = walk m mem (root_table m) q"
    and "leaf_at m mem' (root_table m) q = leaf_at m mem (root_table m) q"
proof -
  have "walk m mem' (root_table m) q = walk m mem (root_table m) q \<and>
      leaf_at m mem' (root_table m) q = leaf_at m mem (root_table m) q"
  proof (rule same_walk)
    fix k x assume k: "k < length q" and w: "walk m mem (root_table m) (take k q) = Some x"
    have len: "length (take k q) \<le> 3" using k q(1) by simp
    have "take k q = p" if "x = u"
      using tree w p len that indices_ok_take [OF q(2)] unfolding pt_tree_def by blast
    then have "(x, q ! k) \<noteq> (u, j)"
      using q(3) [of "drop (Suc k) q"] k id_take_nth_drop [OF k] by auto
    moreover have "aligned x" using walk_table [OF tree w] .
    moreover have "\<not> no_table m mem x" using w len indices_ok_take [OF q(2)] unfolding no_table_def by blast
    ultimately show "mem' (entry m x (q ! k)) = mem (entry m x (q ! k))"
      using ch indices_ok_nth [OF q(2) k] unfolding changed_at_def by blast
  qed
  then show "walk m mem' (root_table m) q = walk m mem (root_table m) q"
    "leaf_at m mem' (root_table m) q = leaf_at m mem (root_table m) q" by auto
qed

lemma on_path:
  assumes tree: "pt_tree m mem" and p: "walk m mem (root_table m) p = Some u" "length p \<le> 3" "indices_ok p" "j < 512"
    and ch: "changed_at m mem mem' u j"
  shows "walk m mem' (root_table m) (p @ j # r) = walk m mem' u (j # r)"
    and "leaf_at m mem' (root_table m) (p @ j # r) = leaf_at m mem' u (j # r)"
proof -
  have "walk m mem' (root_table m) p = Some u"
    using off_path(1) [OF tree p ch, of p] p by simp
  then show "walk m mem' (root_table m) (p @ j # r) = walk m mem' u (j # r)"
    "leaf_at m mem' (root_table m) (p @ j # r) = leaf_at m mem' u (j # r)"
    by (simp_all add: walk_append leaf_append)
qed

lemma changed_at_upd:
  assumes "aligned u" and "j < 512"
  shows "changed_at m mem (mem(entry m u j := v)) u j"
  using assms by (auto simp: changed_at_def entry_inj)

lemma changed_at_zero_upd:
  assumes "aligned u" and "j < 512" and "no_table m mem f"
  shows "changed_at m mem ((zero_page m mem f)(entry m u j := v)) u j"
  using assms by (auto simp: changed_at_def entry_inj zero_page_def entry_in_page no_table_def)

subsubsection \<open>The user bit of an inner entry\<close>

subsection \<open>What one write changes\<close>

lemma user_bit_keeps:
  assumes tree: "pt_tree m mem" and p: "walk m mem (root_table m) p = Some u" "length p \<le> 2" "indices_ok p" "j < 512"
    and e: "mem (entry m u j) AND PRESENT \<noteq> 0" "mem (entry m u j) AND HUGE = 0"
    and mem': "mem' = mem(entry m u j := mem (entry m u j) OR USER)"
  shows "length q \<le> 4 \<Longrightarrow> indices_ok q \<Longrightarrow> walk m mem' (root_table m) q = walk m mem (root_table m) q"
    and "length q = 4 \<Longrightarrow> indices_ok q \<Longrightarrow> leaf_at m mem' (root_table m) q = leaf_at m mem (root_table m) q"
proof -
  define e where "e = mem (entry m u j)"
  define c where "c = e AND ADDRESS_MASK"
  have au: "aligned u" using walk_table [OF tree p(1)] .
  have p3: "length p \<le> 3" using p(2) by simp
  have ch: "changed_at m mem mem' u j" unfolding mem' using changed_at_upd [OF au p(4)] .
  have pc: "walk m mem (root_table m) (p @ [j]) = Some c"
    using p(1) assms(6,7) by (simp add: walk_append c_def e_def)
  have ac: "aligned c" by (simp add: c_def)
  have sub: "walk m mem' c r = walk m mem c r \<and> leaf_at m mem' c r = leaf_at m mem c r"
    if r: "length p + 1 + length r \<le> 4" "indices_ok r" for r
  proof (rule same_walk)
    fix k x assume k: "k < length r" and w: "walk m mem c (take k r) = Some x"
    have wx: "walk m mem (root_table m) (p @ j # take k r) = Some x"
      using pc w p(1) assms(6,7) by (simp add: walk_append c_def e_def)
    have "x \<noteq> u"
    proof
      assume "x = u"
      moreover have "length (p @ j # take k r) \<le> 3" "indices_ok (p @ j # take k r)"
        using k r p by (auto simp: indices_ok_take)
      ultimately have "p @ j # take k r = p" using tree wx p(1,3) p3 unfolding pt_tree_def by blast
      then show False by simp
    qed
    then show "mem' (entry m x (r ! k)) = mem (entry m x (r ! k))"
      using entry_inj [OF walk_aligned [OF ac w] au indices_ok_nth [OF r(2) k] p(4)] by (simp add: mem')
  qed
  have at: "mem' (entry m u j) = e OR USER" "e AND PRESENT \<noteq> 0" "e AND HUGE = 0"
    using assms(6,7) by (simp_all add: mem' e_def)
  show "walk m mem' (root_table m) q = walk m mem (root_table m) q" if q: "length q \<le> 4" "indices_ok q"
  proof (cases "\<exists>r. q = p @ j # r")
    case True
    then obtain r where r: "q = p @ j # r" by blast
    have "walk m mem' u (j # r) = walk m mem u (j # r)"
      using sub [of r] q at assms(6,7) by (simp add: r user_entry_bits c_def e_def)
    then show ?thesis using on_path(1) [OF tree p(1) p3 p(3,4) ch] p(1) by (simp add: r walk_append)
  qed (use off_path(1) [OF tree p(1) p3 p(3,4) ch q] in blast)
  show "leaf_at m mem' (root_table m) q = leaf_at m mem (root_table m) q" if q: "length q = 4" "indices_ok q"
  proof (cases "\<exists>r. q = p @ j # r")
    case True
    then obtain r where r: "q = p @ j # r" by blast
    have "r \<noteq> []" using q(1) p(2) r by auto
    then have "leaf_at m mem' u (j # r) = leaf_at m mem u (j # r)"
      using sub [of r] q at assms(6,7) by (simp add: r user_entry_bits c_def e_def)
    then show ?thesis using on_path(2) [OF tree p(1) p3 p(3,4) ch] p(1) by (simp add: r leaf_append)
  qed (use off_path(2) [OF tree p(1) p3 p(3,4) ch, of q] q in auto)
qed

subsubsection \<open>A new table\<close>

lemma zeroed_table:
  assumes "aligned f" and "i < 512" and "aligned u" and "u \<noteq> f" and "j < 512"
  shows "((zero_page m mem f)(entry m u j := v)) (entry m f i) = 0"
  using assms by (simp add: entry_inj zero_page_def entry_in_page)

lemma new_table_walk:
  assumes tree: "pt_tree m mem" and p: "walk m mem (root_table m) p = Some u" "length p \<le> 2" "indices_ok p" "j < 512"
    and e: "mem (entry m u j) AND PRESENT = 0" and f: "no_table m mem f"
    and mem': "mem' = (zero_page m mem f)(entry m u j := f OR PRESENT OR WRITABLE OR (flags AND USER))"
  shows "length q \<le> 4 \<Longrightarrow> indices_ok q \<Longrightarrow> walk m mem' (root_table m) q =
      (if q = p @ [j] then Some f else walk m mem (root_table m) q)"
    and "length q = 4 \<Longrightarrow> indices_ok q \<Longrightarrow> leaf_at m mem' (root_table m) q = leaf_at m mem (root_table m) q"
proof -
  have au: "aligned u" using walk_table [OF tree p(1)] .
  have af: "aligned f" using f by (simp add: no_table_def)
  have p3: "length p \<le> 3" using p(2) by simp
  have uf: "u \<noteq> f" using f p(1,3) p3 by (auto simp: no_table_def)
  have ch: "changed_at m mem mem' u j" unfolding mem' using changed_at_zero_upd [OF au p(4) f] .
  have at: "mem' (entry m u j) = f OR PRESENT OR WRITABLE OR (flags AND USER)" by (simp add: mem')
  have z: "mem' (entry m f i) = 0" if "i < 512" for i
    unfolding mem' using zeroed_table [OF af that au uf p(4)] .
  have below: "walk m mem' f r = (if r = [] then Some f else None)" "r \<noteq> [] \<Longrightarrow> leaf_at m mem' f r = None"
    if "indices_ok r" for r
    using that z by (cases r; simp)+
  show "walk m mem' (root_table m) q = (if q = p @ [j] then Some f else walk m mem (root_table m) q)"
    if q: "length q \<le> 4" "indices_ok q"
  proof (cases "\<exists>r. q = p @ j # r")
    case True
    then obtain r where r: "q = p @ j # r" by blast
    have "walk m mem' u (j # r) = (if r = [] then Some f else None)"
      using below(1) [of r] q at by (simp add: r new_entry_bits [OF af])
    then show ?thesis using on_path(1) [OF tree p(1) p3 p(3,4) ch, of r] p(1) e by (simp add: r walk_append)
  qed (use off_path(1) [OF tree p(1) p3 p(3,4) ch q] in auto)
  show "leaf_at m mem' (root_table m) q = leaf_at m mem (root_table m) q" if q: "length q = 4" "indices_ok q"
  proof (cases "\<exists>r. q = p @ j # r")
    case True
    then obtain r where r: "q = p @ j # r" by blast
    have "r \<noteq> []" using q(1) p(2) r by auto
    then have "leaf_at m mem' u (j # r) = None"
      using below(2) [of r] q at by (simp add: r new_entry_bits [OF af])
    then show ?thesis using on_path(2) [OF tree p(1) p3 p(3,4) ch, of r] p(1) e by (simp add: r leaf_append)
  qed (use off_path(2) [OF tree p(1) p3 p(3,4) ch, of q] q in auto)
qed

lemma new_table_tree:
  assumes "pt_tree m mem" and "walk m mem (root_table m) p = Some u" "length p \<le> 2" "indices_ok p" "j < 512"
    and "mem (entry m u j) AND PRESENT = 0" and "no_table m mem f"
    and "mem' = (zero_page m mem f)(entry m u j := f OR PRESENT OR WRITABLE OR (flags AND USER))"
  shows "pt_tree m mem'" and "no_table m mem g \<Longrightarrow> g \<noteq> f \<Longrightarrow> no_table m mem' g"
proof -
  note w = new_table_walk(1) [OF assms]
  show "pt_tree m mem'" unfolding pt_tree_def
  proof (intro conjI allI impI)
    show "aligned (root_table m)" using assms(1) by (simp add: pt_tree_def)
  next
    fix q r t assume "length q \<le> 3" "length r \<le> 3" "indices_ok q" "indices_ok r"
      "walk m mem' (root_table m) q = Some t" "walk m mem' (root_table m) r = Some t"
    then show "q = r"
      using w [of q] w [of r] assms(1,7) unfolding pt_tree_def no_table_def by (auto split: if_splits)
  qed
  show "no_table m mem' g" if "no_table m mem g" "g \<noteq> f"
    using that w unfolding no_table_def by (auto split: if_splits)
qed

subsubsection \<open>A final entry\<close>

lemma leaf_write:
  assumes tree: "pt_tree m mem" and p: "walk m mem (root_table m) p = Some u" "length p = 3" "indices_ok p" "j < 512"
    and mem': "mem' = mem(entry m u j := v)"
  shows "pt_tree m mem'" and "no_table m mem g \<Longrightarrow> no_table m mem' g"
    and "length q \<le> 3 \<Longrightarrow> indices_ok q \<Longrightarrow> walk m mem' (root_table m) q = walk m mem (root_table m) q"
    and "length q = 4 \<Longrightarrow> indices_ok q \<Longrightarrow> leaf_at m mem' (root_table m) q =
      (if q = p @ [j] then (if v AND PRESENT = 0 then None else Some (0, v)) else leaf_at m mem (root_table m) q)"
proof -
  have au: "aligned u" using walk_table [OF tree p(1)] .
  have p3: "length p \<le> 3" using p(2) by simp
  have ch: "changed_at m mem mem' u j" unfolding mem' using changed_at_upd [OF au p(4)] .
  have w: "walk m mem' (root_table m) q = walk m mem (root_table m) q" if "length q \<le> 3" "indices_ok q" for q
  proof -
    have "q \<noteq> p @ j # r" for r using that p(2) by auto
    then show ?thesis using off_path(1) [OF tree p(1) p3 p(3,4) ch, of q] that by simp
  qed
  then show "length q \<le> 3 \<Longrightarrow> indices_ok q \<Longrightarrow> walk m mem' (root_table m) q = walk m mem (root_table m) q" .
  show "pt_tree m mem'" using tree w unfolding pt_tree_def by simp
  show "no_table m mem' g" if "no_table m mem g" using that w unfolding no_table_def by simp
  show "leaf_at m mem' (root_table m) q =
      (if q = p @ [j] then (if v AND PRESENT = 0 then None else Some (0, v)) else leaf_at m mem (root_table m) q)"
    if q: "length q = 4" "indices_ok q"
  proof (cases "q = p @ [j]")
    case True
    then show ?thesis using on_path(2) [OF tree p(1) p3 p(3,4) ch, of "[]"] by (simp add: mem')
  next
    case False
    have "q \<noteq> p @ j # r" for r using False q(1) p(2) by auto
    then show ?thesis using off_path(2) [OF tree p(1) p3 p(3,4) ch, of q] q False by simp
  qed
qed

subsubsection \<open>A page of data\<close>

lemma zero_data_page:
  assumes tree: "pt_tree m mem" and f: "no_table m mem f"
  shows "length q \<le> 4 \<Longrightarrow> indices_ok q \<Longrightarrow> walk m (zero_page m mem f) (root_table m) q = walk m mem (root_table m) q \<and>
      leaf_at m (zero_page m mem f) (root_table m) q = leaf_at m mem (root_table m) q"
proof (rule same_walk)
  fix k x assume q: "length q \<le> 4" "indices_ok q" and k: "k < length q" and w: "walk m mem (root_table m) (take k q) = Some x"
  have "length (take k q) \<le> 3" "indices_ok (take k q)" using q k by (auto simp: indices_ok_take)
  then have "x \<noteq> f" using f w unfolding no_table_def by blast
  then show "zero_page m mem f (entry m x (q ! k)) = mem (entry m x (q ! k))"
    using entry_in_page [OF walk_table [OF tree w] _ indices_ok_nth [OF q(2) k]] f
    by (auto simp: zero_page_def no_table_def)
qed

subsection \<open>Mapping\<close>

lemma path_path_down: "path va = path_down va 4"
  by (simp add: path_def eval_nat_numeral)

lemma length_path_down [simp]: "length (path_down va l) = l"
  by (induction l) auto

lemma tables_grow_refl: "pt_tree m mem \<Longrightarrow> frames_ok m mem fa \<Longrightarrow> tables_grow m mem fa mem fa"
  by (simp add: tables_grow_def)

lemma tables_grow_trans:
  assumes "tables_grow m mem fa mem1 fa1" and "tables_grow m mem1 fa1 mem2 fa2"
  shows "tables_grow m mem fa mem2 fa2"
proof -
  have "handed_out fa1 g" if "handed_out fa g" for g using that assms(1) by (auto simp: handed_out_def tables_grow_def)
  then show ?thesis using assms by (auto simp: tables_grow_def)
qed

lemma tables_growD:
  assumes "tables_grow m mem fa mem' fa'"
  shows "pt_tree m mem'" "frames_ok m mem' fa'"
    and "walk m mem (root_table m) q = Some x \<Longrightarrow> length q \<le> 3 \<Longrightarrow> indices_ok q \<Longrightarrow> walk m mem' (root_table m) q = Some x"
  using assms by (auto simp: tables_grow_def)

lemma allocate_frame_cases:
  obtains (none) fa' where "allocate_frame fa = (fa', None)" "usable_frames fa' = usable_frames fa"
      "next_frame fa' = Suc (next_frame fa)" "length (usable_frames fa) \<le> next_frame fa"
  | (some) fa' where "allocate_frame fa = (fa', Some (usable_frames fa ! next_frame fa))"
      "usable_frames fa' = usable_frames fa" "next_frame fa' = Suc (next_frame fa)"
      "next_frame fa < length (usable_frames fa)"
proof (cases "next_frame fa < length (usable_frames fa)")
  case True
  then show ?thesis by (intro some [of "fa\<lparr>next_frame := next_frame fa + 1\<rparr>"])
      (simp_all add: allocate_frame_def nth_frame_def Let_def usable_frames_def)
next
  case False
  then show ?thesis by (intro none [of "fa\<lparr>next_frame := next_frame fa + 1\<rparr>"])
      (simp_all add: allocate_frame_def nth_frame_def Let_def usable_frames_def)
qed

lemma next_frame_grow:
  assumes "pt_tree m mem" and "frames_ok m mem fa" and "usable_frames fa' = usable_frames fa"
    and "next_frame fa' = Suc (next_frame fa)"
  shows "tables_grow m mem fa mem fa'"
  using assms by (simp add: tables_grow_def frames_ok_def)

lemma new_table_grow:
  assumes tree: "pt_tree m mem" and fr: "frames_ok m mem fa"
    and p: "walk m mem (root_table m) p = Some u" "length p \<le> 2" "indices_ok p" "j < 512"
    and e: "mem (entry m u j) AND PRESENT = 0"
    and fa': "usable_frames fa' = usable_frames fa" "next_frame fa' = Suc (next_frame fa)"
      "next_frame fa < length (usable_frames fa)"
    and f: "f = usable_frames fa ! next_frame fa"
    and mem': "mem' = (zero_page m mem f)(entry m u j := f OR PRESENT OR WRITABLE OR (flags AND USER))"
  shows "tables_grow m mem fa mem' fa'" and "walk m mem' (root_table m) (p @ [j]) = Some f"
    and "length q = 4 \<Longrightarrow> indices_ok q \<Longrightarrow> leaf_at m mem' (root_table m) q = leaf_at m mem (root_table m) q"
proof -
  have nt: "no_table m mem f" using fr fa'(3) by (simp add: frames_ok_def f)
  note w = new_table_walk [OF tree p e nt mem'] and t = new_table_tree [OF tree p e nt mem']
  have ne: "usable_frames fa ! n \<noteq> f" if "next_frame fa' \<le> n" "n < length (usable_frames fa)" for n
    using that fr fa' by (simp add: frames_ok_def f nth_eq_iff_index_eq)
  have "frames_ok m mem' fa'"
    using fr fa' t(2) ne by (simp add: frames_ok_def)
  moreover have "walk m mem' (root_table m) q = Some x"
    if "length q \<le> 3" "indices_ok q" "walk m mem (root_table m) q = Some x" for q x
    using that w(1) [of q] p(1) e by (auto simp: walk_append)
  moreover have "no_table m mem' g \<and> (\<forall>i<512. mem' (entry m g i) = mem (entry m g i))"
    if g: "no_table m mem g" "handed_out fa g" for g
  proof -
    have gf: "g \<noteq> f" using g(2) fa'(3) by (auto simp: handed_out_def f)
    have gu: "g \<noteq> u" using g(1) p by (auto simp: no_table_def)
    have "aligned g" "aligned f" "aligned u" using g(1) nt walk_table [OF tree p(1)] by (auto simp: no_table_def)
    then have "mem' (entry m g i) = mem (entry m g i)" if "i < 512" for i
      using that gf gu p(4) by (simp add: mem' entry_inj zero_page_def entry_in_page)
    then show ?thesis using t(2) [OF g(1) gf] by simp
  qed
  ultimately show "tables_grow m mem fa mem' fa'" using t(1) fa' by (auto simp: tables_grow_def)
  show "walk m mem' (root_table m) (p @ [j]) = Some f" using w(1) [of "p @ [j]"] p by simp
  show "length q = 4 \<Longrightarrow> indices_ok q \<Longrightarrow> leaf_at m mem' (root_table m) q = leaf_at m mem (root_table m) q" by (rule w(2))
qed

lemma user_bit_grow:
  assumes tree: "pt_tree m mem" and fr: "frames_ok m mem fa"
    and p: "walk m mem (root_table m) p = Some u" "length p \<le> 2" "indices_ok p" "j < 512"
    and e: "mem (entry m u j) AND PRESENT \<noteq> 0" "mem (entry m u j) AND HUGE = 0"
    and mem': "mem' = mem(entry m u j := mem (entry m u j) OR USER)"
  shows "tables_grow m mem fa mem' fa"
proof -
  have w: "walk m mem' (root_table m) q = walk m mem (root_table m) q" if "length q \<le> 3" "indices_ok q" for q
    using user_bit_keeps(1) [OF tree p e mem', of q] that by simp
  have nt: "no_table m mem' g = no_table m mem g" for g unfolding no_table_def using w by auto
  have "pt_tree m mem'" using tree w unfolding pt_tree_def by simp
  moreover have "mem' (entry m g i) = mem (entry m g i)" if "no_table m mem g" "i < 512" for g i
  proof -
    have "g \<noteq> u" "aligned g" using that(1) p by (auto simp: no_table_def)
    then show ?thesis using that(2) p(4) walk_table [OF tree p(1)] by (simp add: mem' entry_inj)
  qed
  ultimately show ?thesis using fr w nt by (simp add: tables_grow_def frames_ok_def)
qed

lemma map_walk_spec:
  assumes "pt_tree m mem" and "frames_ok m mem fa" and "walk m mem (root_table m) p = Some table"
    and "p @ path_down va l = path va" and "0 < l"
    and "map_walk m va flags l table mem fa = (mem', fa', r)"
  shows "tables_grow m mem fa mem' fa' \<and>
    (\<forall>q. length q = 4 \<longrightarrow> indices_ok q \<longrightarrow> leaf_at m mem' (root_table m) q = leaf_at m mem (root_table m) q) \<and>
    (\<forall>t. r = Inr t \<longrightarrow> walk m mem' (root_table m) (take 3 (path va)) = Some t) \<and>
    (leaf m mem va = None \<longrightarrow> next_frame fa + l \<le> Suc (length (usable_frames fa)) \<longrightarrow> (\<exists>t. r = Inr t))"
  using assms
proof (induction l arbitrary: p table mem fa)
  case (Suc l)
  show ?case
  proof (cases l)
    case 0
    have "length p = 3" using arg_cong [OF Suc.prems(4), of length] 0 by simp
    then have "p = take 3 (path va)" by (simp flip: Suc.prems(4))
    then show ?thesis using Suc.prems 0 tables_grow_refl by auto
  next
    case (Suc k)
    let ?j = "table_index va (Suc (Suc k))" and ?a = "entry m table (table_index va (Suc (Suc k)))"
    have len: "length p + Suc (Suc k) = 4" using arg_cong [OF Suc.prems(4), of length] Suc by simp
    have p: "length p \<le> 2" using len by simp
    have ip: "indices_ok p" using path_simps(2) [of va] Suc.prems(4) by (metis indices_ok_simps(3))
    have down: "(p @ [?j]) @ path_down va l = path va" using Suc.prems(4) Suc by simp
    have l0: "0 < l" using Suc by simp
    consider (absent) "mem ?a AND PRESENT = 0" | (huge) "mem ?a AND PRESENT \<noteq> 0" "mem ?a AND HUGE \<noteq> 0"
      | (there) "mem ?a AND PRESENT \<noteq> 0" "mem ?a AND HUGE = 0" by blast
    then show ?thesis
    proof cases
      case huge
      have "leaf m mem va = leaf_at m mem table (?j # path_down va l)"
        using leaf_append [OF Suc.prems(3)] Suc.prems(4) Suc by (simp add: leaf_def flip: Suc.prems(4))
      then have "leaf m mem va \<noteq> None" using huge by (simp add: Let_def)
      then show ?thesis using huge Suc.prems Suc tables_grow_refl by auto
    next
      case there
      define mem1 where "mem1 = (if flags AND USER \<noteq> 0 \<and> mem ?a AND USER = 0 then mem(?a := mem ?a OR USER) else mem)"
      have g: "tables_grow m mem fa mem1 fa"
        using user_bit_grow [OF Suc.prems(1,2,3) p ip table_index_less there refl] tables_grow_refl Suc.prems(1,2)
        by (simp add: mem1_def)
      have lf: "leaf_at m mem1 (root_table m) q = leaf_at m mem (root_table m) q" if "length q = 4" "indices_ok q" for q
        using user_bit_keeps(2) [OF Suc.prems(1,3) p ip table_index_less there refl that] by (simp add: mem1_def)
      have "walk m mem (root_table m) (p @ [?j]) = Some (mem ?a AND ADDRESS_MASK)"
        using Suc.prems(3) there by (simp add: walk_append)
      then have w1: "walk m mem1 (root_table m) (p @ [?j]) = Some (mem ?a AND ADDRESS_MASK)"
        using tables_growD(3) [OF g] p ip by simp
      have "map_walk m va flags l (mem ?a AND ADDRESS_MASK) mem1 fa = (mem', fa', r)"
        using Suc.prems(6) there Suc by (simp add: mem1_def Let_def)
      note ih = Suc.IH [OF tables_growD(1,2) [OF g] w1 down l0 this]
      have "leaf m mem1 va = leaf m mem va" using lf by (simp add: leaf_def)
      then show ?thesis using ih lf tables_grow_trans [OF g] by simp
    next
      case absent
      show ?thesis
      proof (cases rule: allocate_frame_cases [of fa])
        case (none fa1)
        then have "mem' = mem" "fa' = fa1" "r = Inl No_Frames" using Suc.prems(6) absent Suc by (simp_all add: Let_def)
        then show ?thesis using next_frame_grow [OF Suc.prems(1,2) none(2,3)] none(1) l0
          by (auto simp: allocate_frame_def nth_frame_def Let_def split: if_splits)
      next
        case (some fa1)
        define f where "f = usable_frames fa ! next_frame fa"
        define mem1 where "mem1 = (zero_page m mem f)(?a := f OR PRESENT OR WRITABLE OR (flags AND USER))"
        note g = new_table_grow [OF Suc.prems(1,2,3) p ip table_index_less absent some(2,3,4) f_def mem1_def]
        have "map_walk m va flags l f mem1 fa1 = (mem', fa', r)"
          using Suc.prems(6) absent Suc some(1) by (simp add: mem1_def f_def Let_def)
        note ih = Suc.IH [OF tables_growD(1,2) [OF g(1)] g(2) down l0 this]
        have "leaf m mem1 va = leaf m mem va" using g(3) by (simp add: leaf_def)
        then show ?thesis using ih g(3) some(2,3) tables_grow_trans [OF g(1)] by simp
      qed
    qed
  qed
qed simp

lemma translate_from_leaf:
  "translate_from m mem (Suc l) t va =
     (case leaf_at m mem t (path_down va (Suc l)) of
        None \<Rightarrow> None
      | Some (k, e) \<Rightarrow> Some ((e AND ADDRESS_MASK) + (va AND (push_bit (12 + 9 * k) 1 - 1))))"
proof (induction l arbitrary: t)
  case 0
  then show ?case by (simp add: Let_def push_bit_eq_mult)
next
  case (Suc l)
  let ?e = "mem (entry m t (table_index va (Suc (Suc l))))"
  show ?case
  proof (cases "?e AND PRESENT \<noteq> 0 \<and> ?e AND HUGE = 0")
    case True
    then have "translate_from m mem (Suc (Suc l)) t va = translate_from m mem (Suc l) (?e AND ADDRESS_MASK) va"
      by (simp add: Let_def)
    moreover have "leaf_at m mem t (path_down va (Suc (Suc l))) = leaf_at m mem (?e AND ADDRESS_MASK) (path_down va (Suc l))"
      using True by (simp add: Let_def)
    ultimately show ?thesis using Suc.IH by simp
  next
    case False
    then show ?thesis by (auto simp: Let_def)
  qed
qed

lemma translate_leaf:
  "translate m mem va =
     (case leaf m mem va of
        None \<Rightarrow> None
      | Some (k, e) \<Rightarrow> Some ((e AND ADDRESS_MASK) + (va AND (push_bit (12 + 9 * k) 1 - 1))))"
  using translate_from_leaf [of m mem 3 "root_table m" va]
  by (simp add: translate_def leaf_def path_path_down eval_nat_numeral)

lemma path_split: "path va = take 3 (path va) @ [table_index va 1]"
  by (simp add: path_def)

lemma take_path [simp]: "length (take 3 (path va)) = 3" "indices_ok (take 3 (path va))"
  by (simp_all add: indices_ok_take)

lemma leaf_write_page:
  assumes tree: "pt_tree m mem" and w: "walk m mem (root_table m) (take 3 (path va)) = Some u"
    and mem': "mem' = mem(entry m u (table_index va 1) := v)"
  shows "frames_ok m mem fa \<Longrightarrow> tables_grow m mem fa mem' fa"
    and "leaf m mem' va' = (if path va' = path va then (if v AND PRESENT = 0 then None else Some (0, v)) else leaf m mem va')"
    and "leaf m mem va =
      (let e = mem (entry m u (table_index va 1)) in if e AND PRESENT = 0 then None else Some (0, e))"
proof -
  note lw = leaf_write [OF tree w take_path(1) take_path(2) table_index_less mem']
  show "leaf m mem' va' = (if path va' = path va then (if v AND PRESENT = 0 then None else Some (0, v)) else leaf m mem va')"
    using lw(4) [of "path va'"] path_split [of va] by (simp add: leaf_def)
  show "leaf m mem va = (let e = mem (entry m u (table_index va 1)) in if e AND PRESENT = 0 then None else Some (0, e))"
    using leaf_append [OF w, of "[table_index va 1]"] path_split [of va] by (simp add: leaf_def Let_def)
  have "mem' (entry m g i) = mem (entry m g i)" if "no_table m mem g" "i < 512" for g i
  proof -
    have "walk m mem (root_table m) (take 3 (path va)) \<noteq> Some g" using that(1) by (simp add: no_table_def)
    then have "g \<noteq> u" "aligned g" using that(1) w by (auto simp: no_table_def)
    then show ?thesis using that(2) walk_table [OF tree w] by (simp add: mem' entry_inj)
  qed
  then show "frames_ok m mem fa \<Longrightarrow> tables_grow m mem fa mem' fa"
    using lw(1-3) by (simp add: tables_grow_def frames_ok_def)
qed

lemma map_page_spec:
  assumes tree: "pt_tree m mem" and fr: "frames_ok m mem fa"
    and mp: "map_page m va frame flags mem fa = (mem', fa', r)"
  shows "tables_grow m mem fa mem' fa'"
    and "r = Inr () \<Longrightarrow> leaf m mem va = None"
    and "leaf m mem' va' = (if r = Inr () \<and> path va' = path va then Some (0, frame OR flags OR PRESENT) else leaf m mem va')"
    and "leaf m mem va = None \<Longrightarrow> next_frame fa + 3 \<le> length (usable_frames fa) \<Longrightarrow> r = Inr ()"
proof -
  obtain mem1 fa1 r1 where mw: "map_walk m va flags 4 (root_table m) mem fa = (mem1, fa1, r1)" by (metis prod_cases3)
  have spec: "tables_grow m mem fa mem1 fa1"
    "\<And>q. length q = 4 \<Longrightarrow> indices_ok q \<Longrightarrow> leaf_at m mem1 (root_table m) q = leaf_at m mem (root_table m) q"
    "\<And>t. r1 = Inr t \<Longrightarrow> walk m mem1 (root_table m) (take 3 (path va)) = Some t"
    "leaf m mem va = None \<Longrightarrow> next_frame fa + 3 \<le> length (usable_frames fa) \<Longrightarrow> \<exists>t. r1 = Inr t"
    using map_walk_spec [OF tree fr _ _ _ mw, of "[]"] by (auto simp: path_path_down)
  have l1: "leaf m mem1 v = leaf m mem v" for v using spec(2) by (simp add: leaf_def)
  have "tables_grow m mem fa mem' fa' \<and> (r = Inr () \<longrightarrow> leaf m mem va = None) \<and>
      leaf m mem' va' = (if r = Inr () \<and> path va' = path va then Some (0, frame OR flags OR PRESENT) else leaf m mem va') \<and>
      (leaf m mem va = None \<longrightarrow> next_frame fa + 3 \<le> length (usable_frames fa) \<longrightarrow> r = Inr ())"
  proof (cases r1)
    case (Inl e)
    then have "mem' = mem1" "fa' = fa1" "r = Inl e" using mp mw by (simp_all add: map_page_def)
    then show ?thesis using spec(1,4) l1 Inl by auto
  next
    case (Inr t)
    let ?a = "entry m t (table_index va 1)"
    note w = spec(3) [OF Inr] and tr = tables_growD(1,2) [OF spec(1)]
    show ?thesis
    proof (cases "mem1 ?a AND PRESENT \<noteq> 0")
      case True
      then have "mem' = mem1" "fa' = fa1" "r = Inl Already_Mapped" using mp mw Inr by (simp_all add: map_page_def)
      moreover have "leaf m mem va \<noteq> None" using leaf_write_page(3) [OF tr(1) w refl] True l1 by (simp add: Let_def)
      ultimately show ?thesis using spec(1) l1 by auto
    next
      case False
      then have m': "mem' = mem1(?a := frame OR flags OR PRESENT)" "fa' = fa1" "r = Inr ()"
        using mp mw Inr by (simp_all add: map_page_def)
      note lw = leaf_write_page [OF tr(1) w m'(1)]
      have "leaf m mem va = None" using lw(3) False l1 by (simp add: Let_def)
      moreover have "(frame OR flags OR PRESENT) AND PRESENT \<noteq> 0"
        by (simp add: bit.conj_disj_distrib2 or_eq_0_iff) (simp add: PRESENT_def)
      ultimately show ?thesis
        using lw(2) [of va'] l1 m' tables_grow_trans [OF spec(1) lw(1) [OF tr(2)]] by simp
    qed
  qed
  then show "tables_grow m mem fa mem' fa'" "r = Inr () \<Longrightarrow> leaf m mem va = None"
    "leaf m mem' va' = (if r = Inr () \<and> path va' = path va then Some (0, frame OR flags OR PRESENT) else leaf m mem va')"
    "leaf m mem va = None \<Longrightarrow> next_frame fa + 3 \<le> length (usable_frames fa) \<Longrightarrow> r = Inr ()"
    by auto
qed

lemma low_12: "(push_bit 12 1 - 1 :: u64) = 0xFFF"
  by (simp add: push_bit_eq_mult)

lemma unmap_walk_walk:
  "unmap_walk m mem va (Suc l) t =
     (case walk m mem t (butlast (path_down va (Suc l))) of
        Some u \<Rightarrow> Inr u
      | None \<Rightarrow> unmap_walk m mem va (Suc l) t) \<and>
   (walk m mem t (butlast (path_down va (Suc l))) = None \<longrightarrow> (\<exists>e. unmap_walk m mem va (Suc l) t = Inl e))"
proof (induction l arbitrary: t)
  case (Suc l)
  let ?e = "mem (entry m t (table_index va (Suc (Suc l))))"
  show ?case using Suc.IH [of "?e AND ADDRESS_MASK"] by (auto simp: Let_def split: option.splits)
qed simp

subsection \<open>Unmapping\<close>

lemma butlast_path: "butlast (path_down va 4) = take 3 (path va)"
  by (simp add: path_def eval_nat_numeral)

lemma unmap_walk_root:
  "unmap_walk m mem va 4 (root_table m) = Inr u \<longleftrightarrow> walk m mem (root_table m) (take 3 (path va)) = Some u"
proof -
  note w = unmap_walk_walk [of m mem va 3 "root_table m"]
  have p: "butlast (path_down va (Suc 3)) = take 3 (path va)" using butlast_path by simp
  show ?thesis
    using w unfolding p by (cases "walk m mem (root_table m) (take 3 (path va))") auto
qed

lemma leaf_small:
  assumes "leaf m mem va = Some (0, e)"
  obtains u where "walk m mem (root_table m) (take 3 (path va)) = Some u" "mem (entry m u (table_index va 1)) = e" "e AND PRESENT \<noteq> 0"
proof -
  have "\<exists>u. walk m mem t (take (length q - 1) q) = Some u \<and> mem (entry m u (last q)) = e \<and> e AND PRESENT \<noteq> 0"
    if "leaf_at m mem t q = Some (0, e)" for t q
    using that
  proof (induction q arbitrary: t)
    case (Cons i q)
    then show ?case by (cases q) (auto simp: Let_def split: if_splits)
  qed simp
  from this [of "root_table m" "path va"] assms that show ?thesis
    by (auto simp: leaf_def) (auto simp: path_def)
qed

lemma leaf_none:
  assumes "leaf m mem va = None" and "walk m mem (root_table m) (take 3 (path va)) = Some u"
  shows "mem (entry m u (table_index va 1)) AND PRESENT = 0"
  using leaf_append [OF assms(2), of "[table_index va 1]"] path_split [of va] assms(1)
  by (simp add: leaf_def Let_def split: if_splits)

lemma unmap_walk_error:
  assumes "unmap_walk m mem va (Suc l) t = Inl e"
  shows "(e = Not_Mapped \<and> leaf_at m mem t (path_down va (Suc l)) = None) \<or>
    (e = Huge_Unmap_Unsupported \<and> (\<exists>k e. leaf_at m mem t (path_down va (Suc l)) = Some (Suc k, e)))"
  using assms
proof (induction l arbitrary: t)
  case (Suc l)
  let ?e = "mem (entry m t (table_index va (Suc (Suc l))))"
  consider "?e AND PRESENT = 0" | "?e AND PRESENT \<noteq> 0" "?e AND HUGE \<noteq> 0" | "?e AND PRESENT \<noteq> 0" "?e AND HUGE = 0" by blast
  then show ?case
  proof cases
    case 3
    then show ?thesis using Suc.IH [of "?e AND ADDRESS_MASK"] Suc.prems by (simp add: Let_def)
  qed (use Suc.prems in \<open>auto simp: Let_def\<close>)
qed simp

lemma unmap_root_error:
  assumes "unmap_walk m mem va 4 (root_table m) = Inl e"
  shows "(e = Not_Mapped \<and> leaf m mem va = None) \<or>
    (e = Huge_Unmap_Unsupported \<and> (\<exists>k e. leaf m mem va = Some (Suc k, e)))"
  using unmap_walk_error [of m mem va 3 "root_table m" e] assms by (simp add: leaf_def path_path_down)

subsection \<open>Page numbers\<close>

lemma table_index_digit: "table_index va (Suc l) = unat va div 4096 div 512 ^ l mod 512"
proof -
  have m: "(0x1FF :: u64) = mask 9" by (simp add: mask_eq_exp_minus_1)
  have "table_index va (Suc l) = unat (take_bit 9 (drop_bit (12 + 9 * l) va))"
    unfolding table_index_def m by (simp only: take_bit_eq_mask) simp
  also have "\<dots> = unat va div 2 ^ (12 + 9 * l) mod 512"
    by (simp only: unsigned_take_bit_eq unat_drop_bit_eq) (simp add: take_bit_eq_mod drop_bit_eq_div)
  also have "(2::nat) ^ (12 + 9 * l) = 4096 * 512 ^ l"
    by (simp add: power_add power_mult)
  finally show ?thesis by (simp add: div_mult2_eq)
qed

lemma digits4:
  fixes n :: nat
  shows "n mod 68719476736 =
    n div 134217728 mod 512 * 134217728 + (n div 262144 mod 512 * 262144 + (n div 512 mod 512 * 512 + n mod 512))"
proof -
  have step: "x mod (512 ^ Suc k) = x div 512 ^ k mod 512 * 512 ^ k + x mod 512 ^ k" for x k :: nat
    by (simp add: mod_mult2_eq mult.commute [of 512])
  show ?thesis using step [of n 3] step [of n 2] step [of n 1] by simp
qed

lemma digit_trunc:
  fixes x a c N :: nat
  assumes "N = a * (512 * c)"
  shows "x mod N div a mod 512 = x div a mod 512"
proof (cases "a = 0")
  case False
  then have "x mod (a * (512 * c)) div a = x div a mod (512 * c)" by (simp add: mod_mult2_eq)
  then show ?thesis by (simp add: assms mod_mult2_eq)
qed simp

lemma path_digits:
  "path va = [unat va div 4096 div 134217728 mod 512, unat va div 4096 div 262144 mod 512,
     unat va div 4096 div 512 mod 512, unat va div 4096 mod 512]"
proof -
  have "table_index va 4 = unat va div 4096 div 134217728 mod 512" using table_index_digit [of va 3] by simp
  moreover have "table_index va 3 = unat va div 4096 div 262144 mod 512" using table_index_digit [of va 2] by simp
  moreover have "table_index va 2 = unat va div 4096 div 512 mod 512"
    using table_index_digit [of va 1] by (simp add: numeral_2_eq_2)
  moreover have "table_index va 1 = unat va div 4096 mod 512" using table_index_digit [of va 0] by simp
  ultimately show ?thesis by (simp add: path_def)
qed

lemma path_page_number: "path va = path va' \<longleftrightarrow> page_number va = page_number va'"
proof -
  define n where "n = unat va div 4096"
  define n' where "n' = unat va' div 4096"
  have d: "path va = [n div 134217728 mod 512, n div 262144 mod 512, n div 512 mod 512, n mod 512]"
    "path va' = [n' div 134217728 mod 512, n' div 262144 mod 512, n' div 512 mod 512, n' mod 512]"
    by (simp_all add: path_digits n_def n'_def)
  have p: "page_number va = n mod 68719476736" "page_number va' = n' mod 68719476736"
    by (simp_all add: page_number_def n_def n'_def)
  show ?thesis
  proof
    assume "path va = path va'"
    then show "page_number va = page_number va'" unfolding p d digits4 [of n] digits4 [of n'] by simp
  next
    assume eq: "page_number va = page_number va'"
    then have eq: "n mod 68719476736 = n' mod 68719476736" by (simp add: p)
    have "n div 134217728 mod 512 = n' div 134217728 mod 512"
      using digit_trunc [of 68719476736 134217728 1 n] digit_trunc [of 68719476736 134217728 1 n'] by (simp add: eq)
    moreover have "n div 262144 mod 512 = n' div 262144 mod 512"
      using digit_trunc [of 68719476736 262144 512 n] digit_trunc [of 68719476736 262144 512 n'] by (simp add: eq)
    moreover have "n div 512 mod 512 = n' div 512 mod 512"
      using digit_trunc [of 68719476736 512 262144 n] digit_trunc [of 68719476736 512 262144 n'] by (simp add: eq)
    moreover have "n mod 512 = n' mod 512"
      using digit_trunc [of 68719476736 1 134217728 n] digit_trunc [of 68719476736 1 134217728 n'] by (simp add: eq)
    ultimately show "path va = path va'" unfolding d by simp
  qed
qed

subsection \<open>Pages for the user\<close>

lemma zero_frame_grow:
  assumes tree: "pt_tree m mem" and fr: "frames_ok m mem fa"
    and fa': "usable_frames fa' = usable_frames fa" "next_frame fa' = Suc (next_frame fa)"
      "next_frame fa < length (usable_frames fa)"
    and f: "f = usable_frames fa ! next_frame fa"
  shows "tables_grow m mem fa (zero_page m mem f) fa'" and "leaf m (zero_page m mem f) va = leaf m mem va"
    and "blank_page m (zero_page m mem f) f" and "handed_out fa' f"
proof -
  have nt: "no_table m mem f" using fr fa'(3) by (simp add: frames_ok_def f)
  note z = zero_data_page [OF tree nt]
  have af: "aligned f" using nt by (simp add: no_table_def)
  have w: "walk m (zero_page m mem f) (root_table m) q = walk m mem (root_table m) q" if "length q \<le> 3" "indices_ok q" for q
    using z [of q] that by simp
  have nts: "no_table m (zero_page m mem f) g = no_table m mem g" for g unfolding no_table_def using w by auto
  have "pt_tree m (zero_page m mem f)" using tree w unfolding pt_tree_def by simp
  moreover have "zero_page m mem f (entry m g i) = mem (entry m g i)"
    if "no_table m mem g" "handed_out fa g" "i < 512" for g i
  proof -
    have "g \<noteq> f" "aligned g" using that fa'(3) by (auto simp: handed_out_def f no_table_def)
    then show ?thesis using af that(3) by (simp add: zero_page_def entry_in_page)
  qed
  ultimately show "tables_grow m mem fa (zero_page m mem f) fa'"
    using fr fa' w nts by (simp add: tables_grow_def frames_ok_def)
  show "leaf m (zero_page m mem f) va = leaf m mem va" using z [of "path va"] by (simp add: leaf_def)
  show "blank_page m (zero_page m mem f) f"
    using nt nts af by (simp add: blank_page_def zero_page_def entry_in_page)
  show "handed_out fa' f"
    using fr fa' by (auto simp: handed_out_def frames_ok_def f nth_eq_iff_index_eq)
qed

lemma blank_page_grow:
  "tables_grow m mem fa mem' fa' \<Longrightarrow> blank_page m mem f \<Longrightarrow> handed_out fa f \<Longrightarrow> blank_page m mem' f"
  by (simp add: tables_grow_def blank_page_def)

lemma handed_out_grow: "tables_grow m mem fa mem' fa' \<Longrightarrow> handed_out fa f \<Longrightarrow> handed_out fa' f"
  by (auto simp: handed_out_def tables_grow_def)

lemma leaf_path: "path va = path va' \<Longrightarrow> leaf m mem va = leaf m mem va'"
  by (simp add: leaf_def)

lemma mmap_loop_spec:
  assumes "pt_tree (ctl_mapper c) mem" and "frames_ok (ctl_mapper c) mem (ctl_allocator c)"
    and "mmap_loop c mem start i n = Some (c', mem', r)"
  shows "ctl_mapper c' = ctl_mapper c \<and> tables_grow (ctl_mapper c) mem (ctl_allocator c) mem' (ctl_allocator c') \<and>
    (\<exists>fs. pages_mapped (ctl_mapper c) mem mem' start i fs \<and> distinct fs \<and>
       set fs \<subseteq> frames_between (ctl_allocator c) (ctl_allocator c') \<and> (\<forall>f\<in>set fs. handed_out (ctl_allocator c') f) \<and>
       length fs \<le> n \<and> (r = Inr () \<longrightarrow> length fs = n))"
  using assms
proof (induction n arbitrary: c mem i)
  case 0
  then show ?case by (auto simp: tables_grow_refl pages_mapped_def intro!: exI [of _ "[]"])
next
  case (Suc n)
  let ?m = "ctl_mapper c" and ?fa = "ctl_allocator c"
  obtain vaddr where va: "page_addr start i = Some vaddr" using Suc.prems(3) by (auto split: option.splits)
  show ?case
  proof (cases rule: allocate_frame_cases [of ?fa])
    case (none fa1)
    then have "c' = c\<lparr>ctl_allocator := fa1\<rparr>" "mem' = mem" "r = Inl ENOMEM" using Suc.prems(3) va by auto
    then show ?thesis using next_frame_grow [OF Suc.prems(1,2) none(2,3)]
      by (auto simp: pages_mapped_def intro!: exI [of _ "[]"])
  next
    case (some fa1)
    define f where "f = usable_frames ?fa ! next_frame ?fa"
    define mem1 where "mem1 = zero_page ?m mem f"
    note z = zero_frame_grow [OF Suc.prems(1,2) some(2,3,4) f_def, folded mem1_def]
    note t1 = tables_growD(1,2) [OF z(1)]
    obtain mem2 fa2 r2 where mp: "map_page ?m vaddr f user_flags mem1 fa1 = (mem2, fa2, r2)" by (metis prod_cases3)
    note ms = map_page_spec [OF t1 mp]
    note g2 = tables_grow_trans [OF z(1) ms(1)]
    note t2 = tables_growD(1,2) [OF g2]
    show ?thesis
    proof (cases r2)
      case (Inl e)
      then have "c' = c\<lparr>ctl_allocator := fa2\<rparr>" "mem' = mem2" "r = Inl ENOMEM"
        using Suc.prems(3) va some(1) mp by (auto simp: mem1_def f_def)
      then show ?thesis using g2 ms(3) Inl z(2) by (auto simp: pages_mapped_def intro!: exI [of _ "[]"])
    next
      case (Inr u)
      let ?c2 = "c\<lparr>ctl_allocator := fa2\<rparr>"
      have lp: "mmap_loop ?c2 mem2 start (i + 1) n = Some (c', mem', r)"
        using Suc.prems(3) va some(1) mp Inr by (simp add: mem1_def f_def)
      from Suc.IH [OF _ _ lp] t2 obtain fs where m': "ctl_mapper c' = ?m"
        and g': "tables_grow ?m mem2 fa2 mem' (ctl_allocator c')"
        and fs: "pages_mapped ?m mem2 mem' start (i + 1) fs" "distinct fs"
          "set fs \<subseteq> frames_between fa2 (ctl_allocator c')" "\<forall>f\<in>set fs. handed_out (ctl_allocator c') f"
          "length fs \<le> n" "r = Inr () \<longrightarrow> length fs = n" by auto
      have ok: "r2 = Inr ()" using Inr by simp
      have u: "usable_frames fa2 = usable_frames ?fa" "next_frame ?fa < next_frame fa2" "usable_frames fa1 = usable_frames ?fa"
        using ms(1) some by (auto simp: tables_grow_def)
      have ho: "handed_out fa2 f" using handed_out_grow [OF ms(1) z(4)] .
      have new: "f \<notin> set fs" using fs(3) ho by (auto simp: frames_between_def handed_out_def)
      have l2: "leaf ?m mem2 v = (if path v = path vaddr then Some (0, f OR user_flags OR PRESENT) else leaf ?m mem v)" for v
        using ms(3) [of v] z(2) ok by simp
      have none: "leaf ?m mem vaddr = None" using ms(2) ok z(2) by simp
      have other: "path va \<noteq> path vaddr" if "leaf ?m mem2 va = None" for va using that l2 [of va] by auto
      have "pages_mapped ?m mem mem' start i (f # fs)" unfolding pages_mapped_def
      proof (intro conjI allI impI ballI)
        fix k assume k: "k < length (f # fs)"
        show "\<exists>va. page_addr start (i + k) = Some va \<and> leaf ?m mem va = None \<and>
            leaf ?m mem' va = Some (0, (f # fs) ! k OR user_flags OR PRESENT)"
        proof (cases k)
          case 0
          have "path vaddr \<noteq> path va" if "k < length fs" "page_addr start (i + 1 + k) = Some va" for k va
          proof -
            have "leaf ?m mem2 va = None" using fs(1) that unfolding pages_mapped_def by (metis option.inject)
            then show ?thesis using other by metis
          qed
          then have "leaf ?m mem' vaddr = leaf ?m mem2 vaddr" using fs(1) unfolding pages_mapped_def by blast
          then show ?thesis using 0 va none l2 [of vaddr] by simp
        next
          case (Suc k1)
          then obtain va where "page_addr start (i + 1 + k1) = Some va" "leaf ?m mem2 va = None"
            "leaf ?m mem' va = Some (0, fs ! k1 OR user_flags OR PRESENT)"
            using fs(1) k unfolding pages_mapped_def by auto
          then show ?thesis using Suc l2 [of va] by (auto split: if_splits)
        qed
      next
        fix va' assume h: "\<forall>k<length (f # fs). \<forall>va. page_addr start (i + k) = Some va \<longrightarrow> path va' \<noteq> path va"
        have "path va' \<noteq> path vaddr" using h va by (auto dest: spec [of _ 0])
        moreover have "\<forall>k<length fs. \<forall>va. page_addr start (i + 1 + k) = Some va \<longrightarrow> path va' \<noteq> path va"
          using h by (auto dest: spec [of _ "Suc _"])
        ultimately show "leaf ?m mem' va' = leaf ?m mem va'" using fs(1) l2 [of va'] unfolding pages_mapped_def by simp
      next
        fix g assume "g \<in> set (f # fs)"
        then show "blank_page ?m mem' g"
          using fs(1) blank_page_grow [OF tables_grow_trans [OF ms(1) g'] z(3,4)] by (auto simp: pages_mapped_def)
      qed
      moreover have "set (f # fs) \<subseteq> frames_between ?fa (ctl_allocator c')"
        using fs(3) u some(4) g' by (fastforce simp: frames_between_def f_def tables_grow_def)
      moreover have "\<forall>g\<in>set (f # fs). handed_out (ctl_allocator c') g"
        using fs(4) handed_out_grow [OF g' ho] by simp
      ultimately show ?thesis
        using m' tables_grow_trans [OF g2 g'] fs new by (intro conjI exI [of _ "f # fs"]) auto
    qed
  qed
qed

lemma map_walk_frames:
  "map_walk m va flags l t mem fa = (mem', fa', r) \<Longrightarrow> next_frame fa' \<le> next_frame fa + (l - 1)"
proof (induction l arbitrary: t mem fa)
  case (Suc l)
  show ?case
  proof (cases l)
    case (Suc k)
    let ?v = "mem (entry m t (table_index va (Suc (Suc k))))"
    show ?thesis
    proof (cases "?v AND PRESENT = 0")
      case True
      then show ?thesis using Suc.prems Suc
        by (cases "nth_frame fa (next_frame fa)") (auto simp: Let_def allocate_frame_def dest!: Suc.IH [unfolded Suc])
    next
      case False
      then show ?thesis using Suc.prems Suc by (cases "?v AND HUGE = 0") (auto simp: Let_def dest!: Suc.IH [unfolded Suc])
    qed
  qed (use Suc.prems in simp)
qed simp

lemma map_page_frames:
  assumes "map_page m va frame flags mem fa = (mem', fa', r)"
  shows "next_frame fa' \<le> next_frame fa + 3"
proof -
  obtain mem1 fa1 r1 where mw: "map_walk m va flags 4 (root_table m) mem fa = (mem1, fa1, r1)" by (metis prod_cases3)
  then have "fa' = fa1" using assms by (auto simp: map_page_def Let_def split: sum.splits if_splits)
  then show ?thesis using map_walk_frames [OF mw] by simp
qed

lemma mmap_loop_succeeds:
  assumes "pt_tree (ctl_mapper c) mem" and "frames_ok (ctl_mapper c) mem (ctl_allocator c)"
    and "next_frame (ctl_allocator c) + 4 * n \<le> length (usable_frames (ctl_allocator c))"
    and "\<forall>k < n. \<exists>va. page_addr start (i + k) = Some va \<and> leaf (ctl_mapper c) mem va = None"
    and "\<forall>k < n. \<forall>k' < n. \<forall>va va'. page_addr start (i + k) = Some va \<and> page_addr start (i + k') = Some va' \<and> k \<noteq> k' \<longrightarrow> path va \<noteq> path va'"
  shows "\<exists>c' mem'. mmap_loop c mem start i n = Some (c', mem', Inr ())"
  using assms
proof (induction n arbitrary: c mem i)
  case (Suc n)
  let ?m = "ctl_mapper c" and ?fa = "ctl_allocator c"
  obtain vaddr where va: "page_addr start i = Some vaddr" "leaf ?m mem vaddr = None" using Suc.prems(4) by force
  show ?case
  proof (cases rule: allocate_frame_cases [of ?fa])
    case (none fa1)
    then show ?thesis using Suc.prems(3) by (auto simp: allocate_frame_def nth_frame_def Let_def split: if_splits)
  next
    case (some fa1)
    define f where "f = usable_frames ?fa ! next_frame ?fa"
    define mem1 where "mem1 = zero_page ?m mem f"
    note z = zero_frame_grow [OF Suc.prems(1,2) some(2,3,4) f_def, folded mem1_def]
    note t1 = tables_growD(1,2) [OF z(1)]
    obtain mem2 fa2 r2 where mp: "map_page ?m vaddr f user_flags mem1 fa1 = (mem2, fa2, r2)" by (metis prod_cases3)
    note ms = map_page_spec [OF t1 mp]
    note t2 = tables_growD(1,2) [OF tables_grow_trans [OF z(1) ms(1)]]
    have ok: "r2 = Inr ()" using ms(4) va(2) z(2) some(2,3) Suc.prems(3) by simp
    let ?c2 = "c\<lparr>ctl_allocator := fa2\<rparr>"
    have "usable_frames fa2 = usable_frames ?fa" "next_frame fa2 \<le> next_frame ?fa + 4"
      using ms(1) some map_page_frames [OF mp] by (auto simp: tables_grow_def)
    then have fr: "next_frame fa2 + 4 * n \<le> length (usable_frames fa2)" using Suc.prems(3) by simp
    have "\<exists>va. page_addr start (i + 1 + k) = Some va \<and> leaf ?m mem2 va = None" if k: "k < n" for k
    proof -
      obtain w where w: "page_addr start (i + Suc k) = Some w" "leaf ?m mem w = None" using Suc.prems(4) k by auto
      have "path w \<noteq> path vaddr" using Suc.prems(5) [rule_format, of "Suc k" 0 w vaddr] k w va by simp
      then show ?thesis using w ms(3) [of w] z(2) by simp
    qed
    moreover have "\<forall>k < n. \<forall>k' < n. \<forall>va va'. page_addr start (i + 1 + k) = Some va \<and> page_addr start (i + 1 + k') = Some va' \<and> k \<noteq> k' \<longrightarrow> path va \<noteq> path va'"
    proof (intro allI impI)
      fix k k' va va' assume "k < n" "k' < n"
        "page_addr start (i + 1 + k) = Some va \<and> page_addr start (i + 1 + k') = Some va' \<and> k \<noteq> k'"
      then show "path va \<noteq> path va'" using Suc.prems(5) [rule_format, of "Suc k" "Suc k'" va va'] by simp
    qed
    ultimately have "\<exists>c' mem'. mmap_loop ?c2 mem2 start (i + 1) n = Some (c', mem', Inr ())"
      using Suc.IH [of ?c2 mem2 "i + 1"] t2 fr by simp
    then show ?thesis using va(1) some(1) mp ok by (simp add: mem1_def f_def)
  qed
qed simp

lemma page_addr_value:
  assumes "page_addr start k = Some va" and "k < 2 ^ 52"
  shows "unat va = unat start + 4096 * k"
proof -
  have "unat (word_of_nat k :: u64) = k" using assms(2) by (simp add: unat_of_nat)
  then show ?thesis
    using assms(1) by (auto simp: page_addr_def checked_add_w_def checked_mul_w_def PAGE_SIZE_def unat_word_ariths split: option.splits if_splits)
qed

lemma mod_shift_neq:
  fixes a k k' N :: nat
  assumes "k < k'" and "k' < N"
  shows "(a + k) mod N \<noteq> (a + k') mod N"
proof
  assume "(a + k) mod N = (a + k') mod N"
  then have "N dvd (a + k') - (a + k)" using assms(1) by (metis add_le_cancel_left mod_eq_dvd_iff_nat order_less_imp_le)
  then show False using assms by (auto dest: dvd_imp_le)
qed

lemma page_addr_paths:
  assumes "page_addr start k = Some va" and "page_addr start k' = Some va'" and "k < 2 ^ 36" and "k' < 2 ^ 36" and "k \<noteq> k'"
  shows "path va \<noteq> path va'"
proof -
  have "unat va div 4096 = unat start div 4096 + k" "unat va' div 4096 = unat start div 4096 + k'"
    using page_addr_value [OF assms(1)] page_addr_value [OF assms(2)] assms(3,4) by simp_all
  then have "unat va div 4096 mod 2 ^ 36 \<noteq> unat va' div 4096 mod 2 ^ 36"
    using assms(3-5) mod_shift_neq [of k k' "2 ^ 36"] mod_shift_neq [of k' k "2 ^ 36"] by (metis linorder_neqE_nat)
  then show ?thesis by (simp add: path_page_number page_number_def)
qed

subsection \<open>Frames inside regions\<close>

lemma aligned_iff: "aligned t \<longleftrightarrow> unat t mod 4096 = 0 \<and> unat t < 2 ^ 52"
proof
  assume h: "unat t mod 4096 = 0 \<and> unat t < 2 ^ 52"
  have b: "12 \<le> n \<and> n < 52" if "bit t n" for n
  proof -
    have bn: "bit (unat t) n" using that by (simp add: bit_unsigned_iff)
    have "take_bit 12 (unat t) = 0" using h by (simp add: take_bit_eq_mod)
    then have "\<not> (n < 12 \<and> bit (unat t) n)" by (metis bit_take_bit_iff bit_0_eq bot_apply bot_bool_def)
    then show ?thesis using bn bit_nat_less [of "unat t" 52 n] h by (simp add: not_less)
  qed
  show "aligned t" unfolding aligned_def address_mask_eq
    by (rule bit_word_eqI) (auto simp: bit_and_iff bit_push_bit_iff bit_mask_iff dest: b)
qed (use aligned_unat [of t] in simp)

lemma user_flags_mask: "user_flags AND ADDRESS_MASK = 0"
  by (simp add: entry_bits)

lemma mmap_user_pages_spec:
  assumes "pt_tree (ctl_mapper c) mem" and "frames_ok (ctl_mapper c) mem (ctl_allocator c)"
    and "mmap_user_pages (Some c) mem start count = Some (ctl', mem', r)"
  shows "\<exists>c'. ctl' = Some c' \<and> ctl_mapper c' = ctl_mapper c \<and> pt_tree (ctl_mapper c) mem' \<and>
    frames_ok (ctl_mapper c) mem' (ctl_allocator c') \<and>
    (\<forall>va x. translate (ctl_mapper c) mem va = Some x \<longrightarrow> translate (ctl_mapper c) mem' va = Some x) \<and>
    (\<forall>a. r = Inr a \<longrightarrow> a = start \<and>
      (\<exists>fs. length fs = count \<and> distinct fs \<and> set fs \<subseteq> frames_between (ctl_allocator c) (ctl_allocator c') \<and>
        (\<forall>k < count. blank_page (ctl_mapper c) mem' (fs ! k) \<and>
           (\<exists>va. page_addr start k = Some va \<and> translate (ctl_mapper c) mem va = None \<and>
             (\<forall>va'. path va' = path va \<longrightarrow> translate (ctl_mapper c) mem' va' = Some (fs ! k + (va' AND 0xFFF)))))))"
proof -
  let ?m = "ctl_mapper c"
  obtain c' r' where lp: "mmap_loop c mem start 0 count = Some (c', mem', r')" "ctl' = Some c'"
    "\<And>a. r = Inr a \<Longrightarrow> r' = Inr () \<and> a = start"
    using assms(3) by (auto simp: mmap_user_pages_def split: option.splits sum.splits)
  from mmap_loop_spec [OF assms(1,2) lp(1)] obtain fs where
    g: "ctl_mapper c' = ?m" "tables_grow ?m mem (ctl_allocator c) mem' (ctl_allocator c')"
    and fs: "pages_mapped ?m mem mem' start 0 fs" "distinct fs" "set fs \<subseteq> frames_between (ctl_allocator c) (ctl_allocator c')"
      "r' = Inr () \<longrightarrow> length fs = count" by blast
  have keep: "leaf ?m mem' va = leaf ?m mem va" if "leaf ?m mem va \<noteq> None" for va
  proof -
    have "path va \<noteq> path w" if "k < length fs" "page_addr start (0 + k) = Some w" for k w
    proof -
      have "leaf ?m mem w = None" using fs(1) that unfolding pages_mapped_def by (metis option.inject)
      then show ?thesis using \<open>leaf ?m mem va \<noteq> None\<close> leaf_path by metis
    qed
    then show ?thesis using fs(1) unfolding pages_mapped_def by blast
  qed
  have new: "\<exists>va. page_addr start k = Some va \<and> translate ?m mem va = None \<and>
      (\<forall>va'. path va' = path va \<longrightarrow> translate ?m mem' va' = Some (fs ! k + (va' AND 0xFFF)))" if k: "k < length fs" for k
  proof -
    obtain va where va: "page_addr start k = Some va" "leaf ?m mem va = None"
      "leaf ?m mem' va = Some (0, fs ! k OR user_flags OR PRESENT)"
      using fs(1) k unfolding pages_mapped_def by auto
    have "aligned (fs ! k)" using fs(1) k nth_mem unfolding pages_mapped_def blank_page_def no_table_def by blast
    from leaf_entry_bits(1) [OF this user_flags_mask]
    have "translate ?m mem' va' = Some (fs ! k + (va' AND 0xFFF))" if "path va' = path va" for va'
      using va(3) leaf_path [OF that, of ?m mem'] by (simp add: translate_leaf low_12 [simplified])
    then show ?thesis using va by (auto simp: translate_leaf)
  qed
  have "translate ?m mem' va = Some x" if "translate ?m mem va = Some x" for va x
    using that keep [of va] by (auto simp: translate_leaf split: option.splits)
  moreover have "blank_page ?m mem' (fs ! k)" if "k < length fs" for k
    using fs(1) that nth_mem unfolding pages_mapped_def by blast
  ultimately show ?thesis
    using lp g tables_growD(1,2) [OF g(2)] fs(2-4) new by (intro exI [of _ c']) (auto intro!: exI [of _ fs])
qed

lemma mmap_user_pages_returns:
  assumes "pt_tree (ctl_mapper c) mem" and "frames_ok (ctl_mapper c) mem (ctl_allocator c)"
    and "count \<le> 2 ^ 36" and "frames_handed_out (ctl_allocator c) + 4 * count \<le> length (usable_frames (ctl_allocator c))"
    and "\<forall>k < count. \<exists>va. page_addr start k = Some va \<and> translate (ctl_mapper c) mem va = None"
  shows "\<exists>c' mem'. mmap_user_pages (Some c) mem start count = Some (Some c', mem', Inr start)"
proof -
  have "leaf (ctl_mapper c) mem va = None" if "translate (ctl_mapper c) mem va = None" for va
    using that by (auto simp: translate_leaf split: option.splits)
  then have "\<forall>k < count. \<exists>va. page_addr start (0 + k) = Some va \<and> leaf (ctl_mapper c) mem va = None" using assms(5) by fastforce
  moreover have "path va \<noteq> path va'" if "k < count" "k' < count"
    "page_addr start (0 + k) = Some va \<and> page_addr start (0 + k') = Some va' \<and> k \<noteq> k'" for k k' va va'
    using page_addr_paths [of start k va k' va'] that assms(3) by simp
  ultimately show ?thesis
    using mmap_loop_succeeds [OF assms(1,2), of count start 0] assms(4) by (auto simp: mmap_user_pages_def frames_handed_out_def)
qed

lemma unat_of_nat_small: "n < 2 ^ 64 \<Longrightarrow> unat (word_of_nat n :: u64) = n"
  by (simp add: unat_of_nat)

lemma region_frames_inside:
  assumes "f \<in> set (region_frames r)" and "unat (region_end r) \<le> 2 ^ 52"
  shows "aligned f" and "frame_inside r f"
proof -
  define s where "s = div_ceil (unat (region_start r)) 4096"
  obtain k where k: "k < (unat (region_end r) div 4096 * 4096 - s * 4096) div 4096" "f = word_of_nat (s * 4096 + 4096 * k)"
    using assms(1) by (auto simp: region_frames_def Let_def s_def)
  then have b: "s * 4096 + 4096 * k + 4096 \<le> unat (region_end r)" by auto
  then have u: "unat f = s * 4096 + 4096 * k" unfolding k(2) by (intro unat_of_nat_small) (use assms(2) in simp)
  then show "aligned f" using b assms(2) by (simp add: aligned_iff)
  have "unat (region_start r) \<le> s * 4096" unfolding s_def div_ceil_def by auto
  then show "frame_inside r f" using u b by (simp add: frame_inside_def word_le_nat_alt)
qed

lemma region_frames_distinct: "unat (region_end r) \<le> 2 ^ 52 \<Longrightarrow> distinct (region_frames r)"
  unfolding region_frames_def Let_def distinct_map
proof (intro conjI inj_onI)
  let ?s = "div_ceil (unat (region_start r)) 4096 * 4096" and ?e = "unat (region_end r) div 4096 * 4096"
  fix x y assume e: "unat (region_end r) \<le> 2 ^ 52"
    and xy: "x \<in> set [0..<(?e - ?s) div 4096]" "y \<in> set [0..<(?e - ?s) div 4096]"
    and eq: "word_of_nat (?s + 4096 * x) = (word_of_nat (?s + 4096 * y) :: u64)"
  have "?s + 4096 * x < 2 ^ 64" "?s + 4096 * y < 2 ^ 64" using e xy by auto
  then have "?s + 4096 * x = ?s + 4096 * y" using eq unat_of_nat_small by metis
  then show "x = y" by simp
qed simp

lemma frames_disjoint:
  assumes "frame_inside r f" and "frame_inside s f"
  shows "\<not> (region_end r \<le> region_start s \<or> region_end s \<le> region_start r)"
  using assms by (auto simp: frame_inside_def word_le_nat_alt)

lemma usable_frames_distinct:
  assumes "\<forall>r \<in> set rs. unat (region_end r) \<le> 2 ^ 52"
    and "sorted_wrt (\<lambda>r s. region_end r \<le> region_start s \<or> region_end s \<le> region_start r) rs"
  shows "distinct (concat (map region_frames rs))"
  using assms
proof (induction rs)
  case (Cons r rs)
  have "set (region_frames r) \<inter> set (concat (map region_frames rs)) = {}"
  proof (rule equals0I)
    fix f assume "f \<in> set (region_frames r) \<inter> set (concat (map region_frames rs))"
    then obtain s where s: "s \<in> set rs" "f \<in> set (region_frames s)" "f \<in> set (region_frames r)" by auto
    then show False
      using frames_disjoint [of r f s] region_frames_inside(2) [of f] Cons.prems by auto
  qed
  then show ?case using Cons by (simp add: region_frames_distinct)
qed simp

lemma contiguous_from_true:
  "contiguous_from fa first i n = Some True \<Longrightarrow> k < n \<Longrightarrow>
     nth_frame fa (next_frame fa + i + k) = Some (first + word_of_nat (i + k) * PAGE_SIZE)"
proof (induction fa first i n arbitrary: k rule: contiguous_from.induct)
  case (2 fa first i n)
  then show ?case by (cases k) (auto split: option.splits if_splits)
qed simp

lemma allocate_contiguous_spec:
  "allocate_contiguous fa n = (fa', Some f) \<Longrightarrow>
   next_frame fa + n \<le> next_frame fa' \<and> next_frame fa' \<le> length (usable_frames fa) \<and> regions fa' = regions fa \<and>
   (\<forall>i < n. usable_frames fa ! (next_frame fa' - n + i) = f + word_of_nat i * PAGE_SIZE)"
proof (induction fa n rule: allocate_contiguous.induct)
  case (1 fa n)
  from "1.prems" obtain first b where h: "n \<noteq> 0" "nth_frame fa (next_frame fa) = Some first"
    "contiguous_from fa first 1 (n - 1) = Some b"
    by (auto simp: allocate_contiguous.simps [of fa n] split: if_splits option.splits)
  show ?case
  proof (cases b)
    case False
    let ?fa = "fa\<lparr>next_frame := next_frame fa + 1\<rparr>"
    have "usable_frames ?fa = usable_frames fa" by (simp add: usable_frames_def)
    moreover have "allocate_contiguous ?fa n = (fa', Some f)"
      using "1.prems" h False by (subst (asm) allocate_contiguous.simps) simp
    ultimately show ?thesis using "1.IH" [OF h] False by fastforce
  next
    case True
    then have r: "fa' = fa\<lparr>next_frame := next_frame fa + n\<rparr>" "f = first"
      using "1.prems" h by (simp_all add: allocate_contiguous.simps [of fa n])
    have nth: "nth_frame fa (next_frame fa + i) = Some (first + word_of_nat i * PAGE_SIZE)" if "i < n" for i
      using contiguous_from_true [of fa first 1 "n - 1" "i - 1"] h True that by (cases i) auto
    from nth [of "n - 1"] have "next_frame fa + n \<le> length (usable_frames fa)"
      using h(1) by (auto simp: nth_frame_def Let_def split: if_splits)
    then show ?thesis using nth r by (auto simp: nth_frame_def Let_def)
  qed
qed

subsection \<open>A concrete machine\<close>

lemma blank_walk: "walk m (\<lambda>_. 0) t p = (if p = [] then Some t else None)"
  by (cases p) simp_all

lemma demo_usable_frames: "usable_frames demo_frames = [0x10000, 0x11000, 0x12000, 0x13000, 0x14000, 0x15000, 0x16000, 0x17000]"
  by (simp add: demo_frames_def usable_frames_def new_frame_allocator_def region_frames_def div_ceil_def upt_rec)

lemma demo_tree: "pt_tree demo_mapper (\<lambda>_. 0)"
  by (auto simp: pt_tree_def blank_walk demo_mapper_def aligned_def ADDRESS_MASK_def split: if_splits)

lemma demo_frames_ok: "frames_ok demo_mapper (\<lambda>_. 0) demo_frames"
proof -
  have "\<forall>f \<in> set (usable_frames demo_frames). aligned f \<and> f \<noteq> root_table demo_mapper"
    by (simp add: demo_usable_frames demo_mapper_def aligned_def ADDRESS_MASK_def)
  then have "\<forall>f \<in> set (usable_frames demo_frames). no_table demo_mapper (\<lambda>_. 0) f"
    by (auto simp: no_table_def blank_walk)
  moreover have "distinct (usable_frames demo_frames)" by (simp add: demo_usable_frames)
  ultimately show ?thesis using nth_mem by (auto simp: frames_ok_def)
qed

lemma demo_room: "frames_handed_out demo_frames + 4 \<le> length (usable_frames demo_frames)"
  by (simp add: demo_usable_frames) (simp add: frames_handed_out_def demo_frames_def new_frame_allocator_def)

lemma blank_leaf: "leaf m (\<lambda>_. 0) va = None"
  by (simp add: leaf_def path_def)

lemma blank_translate: "translate m (\<lambda>_. 0) va = None"
  by (simp add: translate_leaf blank_leaf)

lemma demo_map_spec:
  obtains mem fa where "demo_map = (mem, fa, Inr ())" "pt_tree demo_mapper mem" "frames_ok demo_mapper mem fa"
    "leaf demo_mapper mem 0x400000 = Some (0, 0x20007)"
proof -
  obtain mem fa r where d: "demo_map = (mem, fa, r)" by (metis prod_cases3)
  note ms = map_page_spec [OF demo_tree demo_frames_ok d [unfolded demo_map_def]]
  have r: "r = Inr ()" using ms(4) blank_leaf demo_room by (simp add: frames_handed_out_def)
  have "leaf demo_mapper mem 0x400000 = Some (0, 0x20007)" using ms(3) [of "0x400000"] r by (simp add: entry_bits)
  then show ?thesis using that d r tables_growD(1,2) [OF ms(1)] by simp
qed

lemma demo_page_aligned: "aligned 0x20000" "(PRESENT OR WRITABLE OR USER) AND ADDRESS_MASK = 0"
  by (simp_all add: aligned_def entry_bits)

lemma demo_page_addr: "page_addr 0x400000 k = Some va \<Longrightarrow> k < 1 \<Longrightarrow> va = 0x400000"
  by (simp add: page_addr_def checked_mul_w_def checked_add_w_def)

lemma demo_regions_ok: "regions_ok (regions demo_frames)"
  by (simp add: regions_ok_def demo_frames_def new_frame_allocator_def)

subsection \<open>Properties\<close>

text \<open>C8: on a tree of tables, with frames that are distinct and hold no table, mapping a page changes the translation
  of exactly that page: it now goes to the frame, and every other address, also one below a table that the call
  created, is translated as before. The page was not mapped; and an unmapped page with three free frames is always mapped.\<close>

theorem map_page_translates:
  assumes "pt_tree m mem" and "frames_ok m mem fa" and "aligned frame" and "flags AND ADDRESS_MASK = 0"
    and "map_page m va frame flags mem fa = (mem', fa', r)"
  shows "translate m mem' va' =
      (if r = Inr () \<and> path va' = path va then Some (frame + (va' AND 0xFFF)) else translate m mem va') \<and>
    (r = Inr () \<longrightarrow> translate m mem va = None) \<and>
    (translate m mem va = None \<and> frames_handed_out fa + 3 \<le> length (usable_frames fa) \<longrightarrow> r = Inr ()) \<and> pt_tree m mem' \<and> frames_ok m mem' fa'"
  using map_page_spec [OF assms(1,2,5)] tables_growD(1,2) [OF map_page_spec(1) [OF assms(1,2,5)]] leaf_entry_bits(1) [OF assms(3,4)]
  by (auto simp: translate_leaf frames_handed_out_def low_12 [simplified] split: option.splits)

theorem map_page_translates_witness:
  "snd (snd demo_map) = Inr () \<and> translate demo_mapper (fst demo_map) 0x400123 = Some 0x20123"
proof -
  obtain mem fa where d: "demo_map = (mem, fa, Inr ())" by (rule demo_map_spec)
  have p: "path 0x400123 = path 0x400000" by (simp add: path_page_number page_number_def)
  from map_page_translates [OF demo_tree demo_frames_ok demo_page_aligned d [unfolded demo_map_def], of "0x400123"] p
  show ?thesis by (simp add: d)
qed

text \<open>C24: unmapping takes away the translation of the page and of nothing else, and returns the frame the page was
  mapped to; it fails only for a page that is not mapped or that lies in a huge page, and then changes nothing.\<close>

theorem unmap_page_translates:
  assumes "pt_tree m mem" and "frames_ok m mem fa" and "unmap_page m va mem = (mem', r)"
  shows "(\<forall>f. r = Inr f \<longrightarrow> translate m mem va = Some (f + (va AND 0xFFF)) \<and> translate m mem' va = None) \<and>
    (r = Inl Not_Mapped \<longleftrightarrow> translate m mem va = None) \<and>
    (\<forall>va'. path va' \<noteq> path va \<longrightarrow> translate m mem' va' = translate m mem va') \<and>
    (\<forall>e. r = Inl e \<longrightarrow> mem' = mem \<and> (e = Not_Mapped \<or> e = Huge_Unmap_Unsupported \<and> (\<exists>k l. leaf m mem va = Some (Suc k, l)))) \<and>
    pt_tree m mem' \<and> frames_ok m mem' fa"
proof (cases "unmap_walk m mem va 4 (root_table m)")
  case (Inl e)
  then have "mem' = mem" "r = Inl e" using assms(3) by (simp_all add: unmap_page_def)
  then show ?thesis using assms(1,2) unmap_root_error [OF Inl] by (auto simp: translate_leaf)
next
  case (Inr u)
  then have w: "walk m mem (root_table m) (take 3 (path va)) = Some u" by (simp add: unmap_walk_root)
  let ?a = "entry m u (table_index va 1)"
  show ?thesis
  proof (cases "mem ?a AND PRESENT = 0")
    case True
    then have "mem' = mem" "r = Inl Not_Mapped" using assms(3) Inr by (simp_all add: unmap_page_def Let_def)
    then show ?thesis using assms(1,2) leaf_write_page(3) [OF assms(1) w refl] True by (simp add: translate_leaf Let_def)
  next
    case False
    then have m': "mem' = mem(?a := 0)" "r = Inr (mem ?a AND ADDRESS_MASK)"
      using assms(3) Inr by (simp_all add: unmap_page_def Let_def)
    note lw = leaf_write_page [OF assms(1) w m'(1)]
    have "leaf m mem va = Some (0, mem ?a)" using lw(3) False by (simp add: Let_def)
    moreover have "leaf m mem' v = (if path v = path va then None else leaf m mem v)" for v
      using lw(2) [of v] by simp
    moreover have "pt_tree m mem'" "frames_ok m mem' fa" using tables_growD(1,2) [OF lw(1) [OF assms(2)]] by auto
    ultimately show ?thesis using m'(2) by (simp add: translate_leaf low_12 [simplified])
  qed
qed

theorem unmap_page_translates_witness:
  "translate demo_mapper (fst (unmap_page demo_mapper 0x400000 (fst demo_map))) 0x400000 = None"
proof -
  obtain mem fa where d: "demo_map = (mem, fa, Inr ())" "pt_tree demo_mapper mem" "frames_ok demo_mapper mem fa"
    "leaf demo_mapper mem 0x400000 = Some (0, 0x20007)" by (rule demo_map_spec)
  obtain mem' r where u: "unmap_page demo_mapper 0x400000 mem = (mem', r)" by (metis prod.exhaust)
  note th = unmap_page_translates [OF d(2,3) u]
  have "translate demo_mapper mem 0x400000 = Some 0x20000" using d(4) by (simp add: translate_leaf entry_bits push_bit_eq_mult)
  then have "translate demo_mapper mem' 0x400000 = None" using th d(4) by (cases r) auto
  then show ?thesis by (simp add: d(1) u)
qed

text \<open>C13: a request of the user for pages succeeds when none of them is mapped and four frames per page are left;
  what it maps are distinct frames that were not handed out before, each page filled with zeros, no existing translation
  changes, also when the request fails half way, and the tables stay a tree.\<close>

theorem mmap_user_pages_maps:
  assumes "pt_tree (ctl_mapper c) mem" and "frames_ok (ctl_mapper c) mem (ctl_allocator c)"
  shows "(count \<le> 2 ^ 36 \<and> frames_handed_out (ctl_allocator c) + 4 * count \<le> length (usable_frames (ctl_allocator c)) \<and>
      (\<forall>k < count. \<exists>va. page_addr start k = Some va \<and> translate (ctl_mapper c) mem va = None) \<longrightarrow>
      (\<exists>c' mem'. mmap_user_pages (Some c) mem start count = Some (Some c', mem', Inr start))) \<and>
    (\<forall>ctl' mem' r. mmap_user_pages (Some c) mem start count = Some (ctl', mem', r) \<longrightarrow>
      (\<exists>c'. ctl' = Some c' \<and> ctl_mapper c' = ctl_mapper c \<and> pt_tree (ctl_mapper c) mem' \<and>
      frames_ok (ctl_mapper c) mem' (ctl_allocator c') \<and>
      (\<forall>va x. translate (ctl_mapper c) mem va = Some x \<longrightarrow> translate (ctl_mapper c) mem' va = Some x) \<and>
      (\<forall>a. r = Inr a \<longrightarrow> a = start \<and>
        (\<exists>fs. length fs = count \<and> distinct fs \<and> set fs \<subseteq> frames_between (ctl_allocator c) (ctl_allocator c') \<and>
          (\<forall>k < count. blank_page (ctl_mapper c) mem' (fs ! k) \<and>
             (\<exists>va. page_addr start k = Some va \<and> translate (ctl_mapper c) mem va = None \<and>
               (\<forall>va'. path va' = path va \<longrightarrow> translate (ctl_mapper c) mem' va' = Some (fs ! k + (va' AND 0xFFF)))))))))"
proof (intro conjI allI impI)
  assume "count \<le> 2 ^ 36 \<and> frames_handed_out (ctl_allocator c) + 4 * count \<le> length (usable_frames (ctl_allocator c)) \<and>
      (\<forall>k < count. \<exists>va. page_addr start k = Some va \<and> translate (ctl_mapper c) mem va = None)"
  then show "\<exists>c' mem'. mmap_user_pages (Some c) mem start count = Some (Some c', mem', Inr start)"
    using mmap_user_pages_returns [OF assms] by simp
qed (rule mmap_user_pages_spec [OF assms])

theorem mmap_user_pages_maps_witness:
  "\<exists>c mem. mmap_user_pages (Some \<lparr>ctl_mapper = demo_mapper, ctl_allocator = demo_frames\<rparr>) (\<lambda>_. 0) 0x400000 1 =
       Some (Some c, mem, Inr 0x400000) \<and> translate demo_mapper mem 0x400000 \<noteq> None"
proof -
  let ?c = "\<lparr>ctl_mapper = demo_mapper, ctl_allocator = demo_frames\<rparr>"
  have t: "pt_tree (ctl_mapper ?c) (\<lambda>_. 0)" "frames_ok (ctl_mapper ?c) (\<lambda>_. 0) (ctl_allocator ?c)"
    using demo_tree demo_frames_ok by simp_all
  have pa: "page_addr 0x400000 0 = Some 0x400000" by (simp add: page_addr_def checked_mul_w_def checked_add_w_def)
  note th = mmap_user_pages_maps [OF t, of 1 "0x400000"]
  have "\<exists>c' mem'. mmap_user_pages (Some ?c) (\<lambda>_. 0) 0x400000 1 = Some (Some c', mem', Inr 0x400000)"
    using th demo_room pa blank_translate by simp
  then obtain c' mem' where r: "mmap_user_pages (Some ?c) (\<lambda>_. 0) 0x400000 1 = Some (Some c', mem', Inr 0x400000)" by blast
  with th have "\<exists>f. \<forall>va'. path va' = path 0x400000 \<longrightarrow> translate demo_mapper mem' va' = Some (f + (va' AND 0xFFF))"
    using pa by fastforce
  then show ?thesis using r by auto
qed

text \<open>C21: for a memory map without overlaps, the frame allocator hands out each page-aligned frame inside a usable
  region at most once: a call takes the next frame of a list without repetitions, and a contiguous request takes
  consecutive frames of that list at consecutive addresses.\<close>

theorem frames_handed_out_once:
  assumes "regions_ok (regions fa)"
  shows "distinct (usable_frames fa) \<and>
    (\<forall>f \<in> set (usable_frames fa). aligned f \<and> (\<exists>r \<in> set (regions fa). usable r \<and> frame_inside r f)) \<and>
    (\<forall>fa' f. allocate_frame fa = (fa', Some f) \<longrightarrow>
      f = usable_frames fa ! frames_handed_out fa \<and> frames_handed_out fa' = frames_handed_out fa + 1 \<and> regions fa' = regions fa) \<and>
    (\<forall>n fa' f. allocate_contiguous fa n = (fa', Some f) \<longrightarrow>
      frames_handed_out fa + n \<le> frames_handed_out fa' \<and> frames_handed_out fa' \<le> length (usable_frames fa) \<and>
      regions fa' = regions fa \<and>
      (\<forall>i < n. usable_frames fa ! (frames_handed_out fa' - n + i) = f + word_of_nat i * PAGE_SIZE))"
proof -
  have "distinct (usable_frames fa)"
    using assms usable_frames_distinct [of "filter usable (regions fa)"] by (simp add: regions_ok_def usable_frames_def)
  moreover have "aligned f \<and> (\<exists>r \<in> set (regions fa). usable r \<and> frame_inside r f)" if "f \<in> set (usable_frames fa)" for f
    using that assms region_frames_inside [of f] by (auto simp: usable_frames_def regions_ok_def)
  moreover have "f = usable_frames fa ! next_frame fa \<and> next_frame fa' = next_frame fa + 1 \<and> regions fa' = regions fa"
    if "allocate_frame fa = (fa', Some f)" for fa' f
    using that by (auto simp: allocate_frame_def nth_frame_def Let_def split: if_splits)
  ultimately show ?thesis using allocate_contiguous_spec unfolding frames_handed_out_def by blast
qed

theorem frames_handed_out_once_witness:
  "distinct (usable_frames demo_frames) \<and> length (usable_frames demo_frames) = 8"
  using frames_handed_out_once [OF demo_regions_ok] by (simp add: demo_usable_frames)

text \<open>Changing the flags of a 4 KiB page sets them in its entry and changes no translation.\<close>

theorem update_flags_keeps_translation:
  assumes "pt_tree m mem" and "leaf m mem va = Some (0, e)" and "flags AND ADDRESS_MASK = 0"
    and "update_flags m va flags mem = (mem', r)"
  shows "r = Inr () \<and> leaf m mem' va = Some (0, (e AND ADDRESS_MASK) OR flags OR PRESENT) \<and>
    (\<forall>va'. translate m mem' va' = translate m mem va') \<and> (\<forall>va'. path va' \<noteq> path va \<longrightarrow> leaf m mem' va' = leaf m mem va')"
proof -
  obtain u where u: "walk m mem (root_table m) (take 3 (path va)) = Some u" "mem (entry m u (table_index va 1)) = e"
    "e AND PRESENT \<noteq> 0" using leaf_small [OF assms(2)] .
  have fw: "flags_walk m mem va (Suc l) t = Inr w" if "walk m mem t (butlast (path_down va (Suc l))) = Some w" for l t w
    using that
  proof (induction l arbitrary: t)
    case (Suc l)
    then show ?case by (auto simp: Let_def split: if_splits)
  qed simp
  have "flags_walk m mem va 4 (root_table m) = Inr u"
    using fw [of "root_table m" 3 u] u(1) butlast_path by simp
  then have m': "mem' = mem(entry m u (table_index va 1) := (e AND ADDRESS_MASK) OR flags OR PRESENT)" "r = Inr ()"
    using assms(4) u(2,3) by (simp_all add: update_flags_def Let_def)
  note lw = leaf_write_page [OF assms(1) u(1) m'(1)]
  note bits = leaf_entry_bits [OF aligned_mask assms(3), of e]
  have l': "leaf m mem' va' = (if path va' = path va then Some (0, (e AND ADDRESS_MASK) OR flags OR PRESENT) else leaf m mem va')" for va'
    using lw(2) [of va'] bits(2) by simp
  have "translate m mem' va' = translate m mem va'" for va'
    using l' [of va'] bits(1) assms(2) leaf_path [of va' va m mem] by (simp add: translate_leaf)
  then show ?thesis using l' m'(2) by simp
qed

theorem update_flags_keeps_translation_witness:
  "translate demo_mapper (fst (update_flags demo_mapper 0x400000 PRESENT (fst demo_map))) 0x400000 = Some 0x20000"
proof -
  obtain mem fa where d: "demo_map = (mem, fa, Inr ())" "pt_tree demo_mapper mem" "frames_ok demo_mapper mem fa"
    "leaf demo_mapper mem 0x400000 = Some (0, 0x20007)" by (rule demo_map_spec)
  obtain mem' r where u: "update_flags demo_mapper 0x400000 PRESENT mem = (mem', r)" by (metis prod.exhaust)
  have f: "PRESENT AND ADDRESS_MASK = 0" by (simp add: entry_bits)
  have "translate demo_mapper mem 0x400000 = Some 0x20000" using d(4) by (simp add: translate_leaf entry_bits push_bit_eq_mult)
  then have "translate demo_mapper mem' 0x400000 = Some 0x20000"
    using update_flags_keeps_translation [OF d(2,4) f u] by simp
  then show ?thesis by (simp add: d(1) u)
qed

text \<open>The restriction to 4 KiB pages matters: for an address inside a huge page, \<^verbatim>\<open>update_flags\<close> takes the
  page itself for a table, overwrites a word of its contents and reports success.\<close>

theorem update_flags_writes_into_huge_page:
  "translate demo_mapper huge_memory 0 = Some 0x200000 \<and>
   update_flags demo_mapper 0 (PRESENT OR USER) huge_memory = (huge_memory(0x200000 := 0x5), Inr ())"
proof -
  have i: "table_index 0 l = 0" for l by (simp add: table_index_def)
  have "flags_walk demo_mapper huge_memory 0 (Suc (Suc (Suc (Suc 0)))) 0x1000 = Inr 0x200000"
    by (simp add: i huge_memory_def demo_mapper_def entry_def virtual_of_def entry_bits)
  then have w: "flags_walk demo_mapper huge_memory 0 4 (root_table demo_mapper) = Inr 0x200000"
    by (simp add: numeral_eq_Suc demo_mapper_def)
  have "translate_from demo_mapper huge_memory (Suc (Suc (Suc (Suc 0)))) 0x1000 0 = Some 0x200000"
    by (simp add: i huge_memory_def demo_mapper_def entry_def virtual_of_def entry_bits)
  then have "translate demo_mapper huge_memory 0 = Some 0x200000" by (simp add: translate_def numeral_eq_Suc demo_mapper_def)
  moreover have "entry demo_mapper 0x200000 0 = 0x200000" by (simp add: entry_def virtual_of_def demo_mapper_def)
  ultimately show ?thesis using w by (simp add: update_flags_def i) (simp add: huge_memory_def entry_bits)
qed

text \<open>A register block that starts near the end of a page and reaches into the next one is reported as mapped
  although its second page is not.\<close>

theorem mmio_unaligned_range_unmapped:
  "\<exists>c mem. ensure_mmio_mapped (Some \<lparr>ctl_mapper = demo_mapper, ctl_allocator = demo_frames\<rparr>) (\<lambda>_. 0) 0x1FFC 8 =
       Some (Some c, mem, Inr 0x1FFC) \<and> translate demo_mapper mem (0x1FFC + 4) = None"
proof -
  let ?c = "\<lparr>ctl_mapper = demo_mapper, ctl_allocator = demo_frames\<rparr>"
  obtain mem fa r where mp: "map_page demo_mapper 0x1000 0x1000 (PRESENT OR WRITABLE) (\<lambda>_. 0) demo_frames = (mem, fa, r)"
    by (metis prod_cases3)
  note ms = map_page_spec [OF demo_tree demo_frames_ok mp]
  have r: "r = Inr ()" using ms(4) blank_leaf demo_room by (simp add: frames_handed_out_def)
  have "path 0x2000 \<noteq> path 0x1000" by (simp add: path_page_number page_number_def)
  then have "translate demo_mapper mem 0x2000 = None" using ms(3) [of "0x2000"] blank_leaf by (simp add: translate_leaf)
  moreover have "mmio_loop ?c (\<lambda>_. 0) 0x1FFC 0x1FFC 0 (Suc 0) = Some (?c\<lparr>ctl_allocator := fa\<rparr>, mem, Inr ())"
    using mp r by (simp add: page_addr_def checked_mul_w_def checked_add_w_def blank_translate)
  ultimately show ?thesis
    by (simp add: ensure_mmio_mapped_def checked_add_w_def demo_mapper_def div_ceil_def)
qed

end
