(* ===== verification/Elf_Loader.thy ===== *)
theory Elf_Loader
  imports Paging
begin

text \<open>
  Executable images: \<^verbatim>\<open>kernel/src/elf.rs\<close>.

  An image is a list of bytes. The parser reads the ELF64 header and the program headers at their
  offsets in the little-endian layout of \<^verbatim>\<open>repr(C)\<close>; every bounds check is a branch with the error of the
  source. The AArch64 loader writes to a byte-addressed physical memory; its cache maintenance has no effect
  in the model. The x86-64 loader is not modelled.
\<close>

subsection \<open>Constants, headers and errors\<close>

definition MAGIC :: "u8 list" where "MAGIC = [0x7F, 0x45, 0x4C, 0x46]"
definition CLASS_64 :: u8 where "CLASS_64 = 2"
definition DATA_2LSB :: u8 where "DATA_2LSB = 1"
definition MACHINE_X86_64 :: u16 where "MACHINE_X86_64 = 0x3E"
definition MACHINE_AARCH64 :: u16 where "MACHINE_AARCH64 = 0xB7"
definition ET_EXEC :: u16 where "ET_EXEC = 2"
definition ET_DYN :: u16 where "ET_DYN = 3"
definition PT_LOAD :: u32 where "PT_LOAD = 1"
definition PF_X :: u32 where "PF_X = 1"
definition PF_W :: u32 where "PF_W = 2"
definition PF_R :: u32 where "PF_R = 4"

datatype elf_error =
    Image_Too_Small | Bad_Magic | Not_64_Bit | Not_Little_Endian | Machine_Unsupported
  | Table_Overflow | Table_Truncated | Header_Offset_Overflow | Header_Out_Of_Image
  | Segment_Overflow | Segment_Out_Of_Image | File_Exceeds_Memory | No_Loadable_Segments
  | Wrong_Machine | Empty_Segment | Segment_End_Overflow | Program_No_Frames | Map_Failed paging_error
  | Outside_User_Space | Below_User_Area | Above_User_Area

definition checked_bounds :: "usize \<Rightarrow> usize \<Rightarrow> usize \<Rightarrow> elf_error \<Rightarrow> elf_error \<Rightarrow> elf_error + usize" where
  "checked_bounds offset len total_len overflow_msg out_of_bounds_msg =
     (case usize_add offset len of
        None \<Rightarrow> Inl overflow_msg
      | Some stop \<Rightarrow> if total_len < stop then Inl out_of_bounds_msg else Inr stop)"

definition checked_program_header_offset :: "usize \<Rightarrow> usize \<Rightarrow> usize \<Rightarrow> elf_error + usize" where
  "checked_program_header_offset ph_offset ph_size index =
     (case usize_mul index ph_size of
        None \<Rightarrow> Inl Header_Offset_Overflow
      | Some stride \<Rightarrow> ok_or Header_Offset_Overflow (usize_add ph_offset stride))"

record elf_header =
  identification :: "u8 list"
  file_type :: u16
  machine :: u16
  elf_version :: u32
  elf_entry :: u64
  program_header_offset :: u64
  section_header_offset :: u64
  header_flags :: u32
  header_size :: u16
  program_header_size :: u16
  program_header_count :: u16
  section_header_size :: u16
  section_header_count :: u16
  section_name_index :: u16

record program_header =
  segment_type :: u32
  segment_flags :: u32
  seg_offset :: u64
  virtual_address :: u64
  physical_address :: u64
  file_size :: u64
  memory_size :: u64
  alignment :: u64

record elf_info =
  info_entry :: u64
  info_machine :: u16
  is_pie :: bool
  min_vaddr :: u64
  max_vaddr :: u64
  total_memsz :: u64
  loadable_segments :: nat

text \<open>A field of \<open>n\<close> bytes at an offset.\<close>

definition read_le :: "nat \<Rightarrow> nat \<Rightarrow> u8 list \<Rightarrow> 'a::len word" where
  "read_le n at bs = le_word (slice_of at (at + n) bs)"

definition read_header :: "u8 list \<Rightarrow> elf_header" where
  "read_header bs =
     \<lparr>identification = slice_of 0 16 bs, file_type = read_le 2 16 bs, machine = read_le 2 18 bs,
      elf_version = read_le 4 20 bs, elf_entry = read_le 8 24 bs, program_header_offset = read_le 8 32 bs,
      section_header_offset = read_le 8 40 bs, header_flags = read_le 4 48 bs, header_size = read_le 2 52 bs,
      program_header_size = read_le 2 54 bs, program_header_count = read_le 2 56 bs,
      section_header_size = read_le 2 58 bs, section_header_count = read_le 2 60 bs,
      section_name_index = read_le 2 62 bs\<rparr>"

definition read_program_header :: "nat \<Rightarrow> u8 list \<Rightarrow> program_header" where
  "read_program_header at bs =
     \<lparr>segment_type = read_le 4 at bs, segment_flags = read_le 4 (at + 4) bs, seg_offset = read_le 8 (at + 8) bs,
      virtual_address = read_le 8 (at + 16) bs, physical_address = read_le 8 (at + 24) bs,
      file_size = read_le 8 (at + 32) bs, memory_size = read_le 8 (at + 40) bs, alignment = read_le 8 (at + 48) bs\<rparr>"

definition header_bytes :: nat where "header_bytes = 64"
definition program_header_bytes :: nat where "program_header_bytes = 56"

subsection \<open>Parsing\<close>

text \<open>The header of index \<open>i\<close>, checked to lie inside the image: the first lines of the three loops.\<close>

definition program_header_at :: "u8 list \<Rightarrow> elf_header \<Rightarrow> nat \<Rightarrow> elf_error + program_header" where
  "program_header_at img h i =
     (case checked_program_header_offset (unat (program_header_offset h)) (unat (program_header_size h)) i of
        Inl e \<Rightarrow> Inl e
      | Inr at \<Rightarrow>
          (case checked_bounds at program_header_bytes (length img) Header_Offset_Overflow Header_Out_Of_Image of
             Inl e \<Rightarrow> Inl e
           | Inr _ \<Rightarrow> Inr (read_program_header at img)))"

fun parse_headers :: "u8 list \<Rightarrow> elf_header \<Rightarrow> nat \<Rightarrow> nat \<Rightarrow> u64 \<times> u64 \<times> nat \<Rightarrow> elf_error + (u64 \<times> u64 \<times> nat)" where
  "parse_headers img h i 0 acc = Inr acc"
| "parse_headers img h i (Suc n) (min_v, max_v, count) =
     (case program_header_at img h i of
        Inl e \<Rightarrow> Inl e
      | Inr ph \<Rightarrow>
          if segment_type ph = PT_LOAD then
            (case checked_bounds (unat (seg_offset ph)) (unat (file_size ph)) (length img) Segment_Overflow Segment_Out_Of_Image of
               Inl e \<Rightarrow> Inl e
             | Inr _ \<Rightarrow>
                 if memory_size ph < file_size ph then Inl File_Exceeds_Memory
                 else
                   let start = virtual_address ph;
                       stop = saturating_add_w start (memory_size ph)
                   in parse_headers img h (i + 1) n
                        (if start < min_v then start else min_v, if max_v < stop then stop else max_v, count + 1))
          else parse_headers img h (i + 1) n (min_v, max_v, count))"

definition parse_elf :: "u8 list \<Rightarrow> elf_error + elf_info" where
  "parse_elf img =
     (if length img < header_bytes then Inl Image_Too_Small
      else
        let h = read_header img;
            ph_count = unat (program_header_count h)
        in if slice_of 0 4 (identification h) \<noteq> MAGIC then Inl Bad_Magic
           else if identification h ! 4 \<noteq> CLASS_64 then Inl Not_64_Bit
           else if identification h ! 5 \<noteq> DATA_2LSB then Inl Not_Little_Endian
           else if machine h \<noteq> MACHINE_X86_64 \<and> machine h \<noteq> MACHINE_AARCH64 then Inl Machine_Unsupported
           else
             case (if 0 < ph_count then
                     (case usize_mul ph_count (unat (program_header_size h)) of
                        None \<Rightarrow> Inl Table_Overflow
                      | Some table_len \<Rightarrow>
                          checked_bounds (unat (program_header_offset h)) table_len (length img) Table_Overflow Table_Truncated)
                   else Inr 0) of
               Inl e \<Rightarrow> Inl e
             | Inr _ \<Rightarrow>
                 (case parse_headers img h 0 ph_count (- 1, 0, 0) of
                    Inl e \<Rightarrow> Inl e
                  | Inr (min_v, max_v, count) \<Rightarrow>
                      if count = 0 then Inl No_Loadable_Segments
                      else
                        Inr \<lparr>info_entry = elf_entry h, info_machine = machine h, is_pie = (file_type h = ET_DYN),
                             min_vaddr = min_v, max_vaddr = max_v, total_memsz = saturating_sub_w max_v min_v,
                             loadable_segments = count\<rparr>))"

definition parse_entry :: "u8 list \<Rightarrow> u64 option" where
  "parse_entry img = (case parse_elf img of Inl _ \<Rightarrow> None | Inr info \<Rightarrow> Some (info_entry info))"

subsection \<open>Loading on AArch64\<close>

type_synonym byte_mem = "nat \<Rightarrow> u8"

definition USER_SPACE_VIRT :: u64 where "USER_SPACE_VIRT = 0x00400000"
definition USER_SPACE_PHYS :: u64 where "USER_SPACE_PHYS = 0x41000000"

definition fill_zero :: "nat \<Rightarrow> nat \<Rightarrow> byte_mem \<Rightarrow> byte_mem" where
  "fill_zero at n mem = (\<lambda>a. if at \<le> a \<and> a < at + n then 0 else mem a)"

definition copy_in :: "nat \<Rightarrow> u8 list \<Rightarrow> byte_mem \<Rightarrow> byte_mem" where
  "copy_in at bs mem = (\<lambda>a. if at \<le> a \<and> a < at + length bs then bs ! (a - at) else mem a)"

definition user_area_len :: nat where "user_area_len = 0x200000"

text \<open>The body of the loop for a loadable segment.\<close>

definition load_aarch64_segment :: "u8 list \<Rightarrow> program_header \<Rightarrow> byte_mem \<Rightarrow> byte_mem \<times> (elf_error + unit)" where
  "load_aarch64_segment img ph mem =
     (if virtual_address ph < USER_SPACE_VIRT then (mem, Inl Below_User_Area)
      else
        let offset_in_user = unat (virtual_address ph - USER_SPACE_VIRT);
            mem_sz = unat (memory_size ph);
            file_off = unat (seg_offset ph);
            file_sz = unat (file_size ph)
        in case usize_add offset_in_user mem_sz of
             None \<Rightarrow> (mem, Inl Segment_End_Overflow)
           | Some seg_end_in_user \<Rightarrow>
               if user_area_len < seg_end_in_user then (mem, Inl Above_User_Area)
               else
                 (case checked_bounds file_off file_sz (length img) Segment_Overflow Segment_Out_Of_Image of
                    Inl e \<Rightarrow> (mem, Inl e)
                  | Inr _ \<Rightarrow>
                      if mem_sz < file_sz then (mem, Inl File_Exceeds_Memory)
                      else
                        let paddr = unat USER_SPACE_PHYS + offset_in_user
                        in (copy_in paddr (slice_of file_off (file_off + file_sz) img) (fill_zero paddr mem_sz mem), Inr ())))"

fun load_aarch64_loop :: "u8 list \<Rightarrow> elf_header \<Rightarrow> nat \<Rightarrow> nat \<Rightarrow> byte_mem \<Rightarrow> byte_mem \<times> (elf_error + unit)" where
  "load_aarch64_loop img h i 0 mem = (mem, Inr ())"
| "load_aarch64_loop img h i (Suc n) mem =
     (case program_header_at img h i of
        Inl e \<Rightarrow> (mem, Inl e)
      | Inr ph \<Rightarrow>
          if segment_type ph = PT_LOAD then
            (case load_aarch64_segment img ph mem of
               (mem', Inl e) \<Rightarrow> (mem', Inl e)
             | (mem', Inr _) \<Rightarrow> load_aarch64_loop img h (i + 1) n mem')
          else load_aarch64_loop img h (i + 1) n mem)"

definition load_aarch64 :: "u8 list \<Rightarrow> byte_mem \<Rightarrow> byte_mem \<times> (elf_error + (u64 \<times> u64))" where
  "load_aarch64 img mem =
     (case parse_elf img of
        Inl e \<Rightarrow> (mem, Inl e)
      | Inr info \<Rightarrow>
          if info_machine info \<noteq> MACHINE_AARCH64 then (mem, Inl Wrong_Machine)
          else
            let user_limit = USER_SPACE_VIRT + 0x00200000
            in if min_vaddr info < USER_SPACE_VIRT \<or> user_limit < max_vaddr info then (mem, Inl Outside_User_Space)
               else
                 let h = read_header img
                 in case load_aarch64_loop img h 0 (unat (program_header_count h)) mem of
                      (mem', Inl e) \<Rightarrow> (mem', Inl e)
                    | (mem', Inr _) \<Rightarrow> (mem', Inr (elf_entry h, user_limit - 4096)))"

subsection \<open>Specification vocabulary\<close>

definition header_place :: "elf_header \<Rightarrow> nat \<Rightarrow> nat" where
  "header_place h i = unat (program_header_offset h) + i * unat (program_header_size h)"

definition program_headers :: "u8 list \<Rightarrow> program_header list" where
  "program_headers img =
     (let h = read_header img
      in map (\<lambda>i. read_program_header (header_place h i) img) [0..<unat (program_header_count h)])"

definition loadable :: "u8 list \<Rightarrow> program_header list" where
  "loadable img = filter (\<lambda>ph. segment_type ph = PT_LOAD) (program_headers img)"

definition segment_ok :: "u8 list \<Rightarrow> program_header \<Rightarrow> bool" where
  "segment_ok img ph \<longleftrightarrow> unat (seg_offset ph) + unat (file_size ph) \<le> length img \<and> file_size ph \<le> memory_size ph"

definition segment_end :: "program_header \<Rightarrow> u64" where
  "segment_end ph = word_of_nat (min (unat (virtual_address ph) + unat (memory_size ph)) (2 ^ 64 - 1))"

text \<open>The checks of the parser in unbounded arithmetic.\<close>

definition elf_wf :: "u8 list \<Rightarrow> bool" where
  "elf_wf img \<longleftrightarrow>
     (let h = read_header img; n = unat (program_header_count h)
      in 64 \<le> length img \<and> take 4 img = [0x7F, 0x45, 0x4C, 0x46] \<and> img ! 4 = 2 \<and> img ! 5 = 1 \<and>
         machine h \<in> {MACHINE_X86_64, MACHINE_AARCH64} \<and>
         (0 < n \<longrightarrow> header_place h n \<le> length img) \<and> (\<forall>i<n. header_place h i + 56 \<le> length img) \<and>
         (\<forall>ph \<in> set (loadable img). segment_ok img ph) \<and> loadable img \<noteq> [])"

definition elf_summary :: "u8 list \<Rightarrow> elf_info" where
  "elf_summary img =
     (let h = read_header img; lo = Min (virtual_address ` set (loadable img)); hi = Max (segment_end ` set (loadable img))
      in \<lparr>info_entry = elf_entry h, info_machine = machine h, is_pie = (file_type h = 3), min_vaddr = lo, max_vaddr = hi,
          total_memsz = word_of_nat (unat hi - unat lo), loadable_segments = length (loadable img)\<rparr>)"

definition header_good :: "u8 list \<Rightarrow> elf_header \<Rightarrow> nat \<Rightarrow> bool" where
  "header_good img h i \<longleftrightarrow> header_place h i + 56 \<le> length img \<and>
     (let ph = read_program_header (header_place h i) img in segment_type ph = PT_LOAD \<longrightarrow> segment_ok img ph)"

definition loadable_range :: "u8 list \<Rightarrow> elf_header \<Rightarrow> nat \<Rightarrow> nat \<Rightarrow> program_header list" where
  "loadable_range img h i n =
     filter (\<lambda>ph. segment_type ph = PT_LOAD) (map (\<lambda>i. read_program_header (header_place h i) img) [i..<i + n])"

definition seg_place :: "program_header \<Rightarrow> nat" where
  "seg_place ph = 0x41000000 + (unat (virtual_address ph) - 0x400000)"

definition covers :: "program_header \<Rightarrow> nat \<Rightarrow> bool" where
  "covers ph a \<longleftrightarrow> seg_place ph \<le> a \<and> a < seg_place ph + unat (memory_size ph)"

definition seg_byte :: "u8 list \<Rightarrow> program_header \<Rightarrow> nat \<Rightarrow> u8" where
  "seg_byte img ph i = (if i < unat (file_size ph) then img ! (unat (seg_offset ph) + i) else 0)"

definition in_user_area :: "program_header \<Rightarrow> bool" where
  "in_user_area ph \<longleftrightarrow> 0x400000 \<le> unat (virtual_address ph) \<and> unat (virtual_address ph) + unat (memory_size ph) \<le> 0x600000"

definition place :: "u8 list \<Rightarrow> program_header \<Rightarrow> byte_mem \<Rightarrow> byte_mem" where
  "place img ph mem = (\<lambda>a. if covers ph a then seg_byte img ph (a - seg_place ph) else mem a)"

definition aarch64_loadable :: "u8 list \<Rightarrow> bool" where
  "aarch64_loadable img \<longleftrightarrow> elf_wf img \<and> machine (read_header img) = MACHINE_AARCH64 \<and> (\<forall>ph \<in> set (loadable img). in_user_area ph)"

definition demo_image :: "u8 list" where
  "demo_image =
     [0x7F, 0x45, 0x4C, 0x46, 2, 1, 1, 0, 0, 0, 0, 0, 0, 0, 0, 0,
      2, 0, 0xB7, 0, 1, 0, 0, 0, 0, 0, 0x40, 0, 0, 0, 0, 0,
      64, 0, 0, 0, 0, 0, 0, 0, 0, 0, 0, 0, 0, 0, 0, 0,
      0, 0, 0, 0, 64, 0, 56, 0, 1, 0, 0, 0, 0, 0, 0, 0,
      1, 0, 0, 0, 5, 0, 0, 0, 120, 0, 0, 0, 0, 0, 0, 0,
      0, 0, 0x40, 0, 0, 0, 0, 0, 0, 0, 0x40, 0, 0, 0, 0, 0,
      4, 0, 0, 0, 0, 0, 0, 0, 8, 0, 0, 0, 0, 0, 0, 0, 0, 0x10, 0, 0, 0, 0, 0, 0,
      0xAA, 0xBB, 0xCC, 0xDD]"

subsection \<open>Parsing\<close>

lemma checked_bounds_Inr:
  "total_len < usize_limit \<Longrightarrow> checked_bounds a n total_len e e' = Inr x \<longleftrightarrow> x = a + n \<and> a + n \<le> total_len"
  by (auto simp: checked_bounds_def usize_add_def split: option.splits if_splits)

lemma checked_offset_Inr:
  "checked_program_header_offset a n i = Inr x \<longleftrightarrow> x = a + i * n \<and> a + i * n < usize_limit"
  by (auto simp: checked_program_header_offset_def usize_add_def usize_mul_def split: option.splits if_splits)

lemma program_header_at_Inr:
  assumes "length img < usize_limit"
  shows "program_header_at img h i = Inr ph \<longleftrightarrow>
    header_place h i + 56 \<le> length img \<and> ph = read_program_header (header_place h i) img"
proof (cases "checked_program_header_offset (unat (program_header_offset h)) (unat (program_header_size h)) i")
  case (Inl e)
  then have "usize_limit \<le> header_place h i"
    using checked_offset_Inr unfolding header_place_def by (metis Inl_Inr_False not_less)
  then show ?thesis using Inl assms by (simp add: program_header_at_def)
next
  case (Inr at)
  then have at: "at = header_place h i" by (simp add: checked_offset_Inr header_place_def)
  show ?thesis
  proof (cases "checked_bounds at program_header_bytes (length img) Header_Offset_Overflow Header_Out_Of_Image")
    case (Inl e)
    then have "\<not> at + 56 \<le> length img"
      using checked_bounds_Inr [OF assms] unfolding program_header_bytes_def by (metis Inl_Inr_False)
    then show ?thesis using Inl Inr at by (simp add: program_header_at_def)
  next
    case (Inr x)
    then have "at + 56 \<le> length img" using checked_bounds_Inr [OF assms] by (simp add: program_header_bytes_def)
    then show ?thesis using \<open>checked_program_header_offset _ _ i = Inr at\<close> at Inr
      by (auto simp: program_header_at_def)
  qed
qed

lemma segment_end_saturating: "saturating_add_w (virtual_address ph) (memory_size ph) = segment_end ph"
proof -
  have "unat (saturating_add_w (virtual_address ph) (memory_size ph)) = unat (segment_end ph)"
    by (simp add: unat_saturating_add_w segment_end_def unat_of_nat min_def)
  then show ?thesis by (simp add: word_unat_eq_iff)
qed

lemma loadable_range_Suc:
  "loadable_range img h i (Suc n) =
     (let ph = read_program_header (header_place h i) img
      in if segment_type ph = PT_LOAD then ph # loadable_range img h (i + 1) n else loadable_range img h (i + 1) n)"
  by (simp add: loadable_range_def upt_conv_Cons Let_def del: upt_Suc)

lemma all_less_shift: "(\<forall>j < Suc n. P (i + j)) \<longleftrightarrow> P i \<and> (\<forall>j < n. P (Suc i + j))"
  by (auto simp: All_less_Suc2)

lemma parse_headers_Inr:
  assumes "length img < usize_limit"
  shows "parse_headers img h i n (a, b, c) = Inr r \<longleftrightarrow>
    (\<forall>j<n. header_good img h (i + j)) \<and>
    r = (fold min (map virtual_address (loadable_range img h i n)) a,
         fold max (map segment_end (loadable_range img h i n)) b, c + length (loadable_range img h i n))"
proof (induction n arbitrary: i a b c)
  case 0
  then show ?case by (auto simp: loadable_range_def)
next
  case (Suc n)
  let ?ph = "read_program_header (header_place h i) img"
  have mm: "(if x < y then x else y) = min x y" "(if y < x then x else y) = max x y" for x y :: u64
    by (auto simp: min_def max_def)
  show ?case
  proof (cases "program_header_at img h i")
    case (Inl e)
    then have "\<not> header_good img h i"
      using program_header_at_Inr [OF assms, of h i ?ph] by (auto simp: header_good_def)
    then show ?thesis using Inl by (auto intro: exI [of _ 0])
  next
    case (Inr ph)
    then have ph: "ph = ?ph" "header_place h i + 56 \<le> length img" by (simp_all add: program_header_at_Inr [OF assms])
    show ?thesis
    proof (cases "segment_type ph = PT_LOAD")
      case False
      then show ?thesis using Inr ph Suc.IH [of "Suc i"]
        by (simp only: parse_headers.simps all_less_shift) (simp add: header_good_def Let_def loadable_range_Suc)
    next
      case True
      show ?thesis
      proof (cases "checked_bounds (unat (seg_offset ph)) (unat (file_size ph)) (length img) Segment_Overflow Segment_Out_Of_Image")
        case (Inl e)
        then have "\<not> header_good img h i"
          using checked_bounds_Inr [OF assms] ph True unfolding header_good_def segment_ok_def Let_def by (metis Inl_Inr_False)
        then show ?thesis using Inl Inr True by (auto intro: exI [of _ 0])
      next
        case (Inr x)
        then have "header_good img h i \<longleftrightarrow> file_size ph \<le> memory_size ph"
          using ph True checked_bounds_Inr [OF assms] by (auto simp: header_good_def segment_ok_def Let_def)
        then show ?thesis using \<open>program_header_at img h i = Inr ph\<close> Inr True ph Suc.IH [of "Suc i"]
          by (simp only: parse_headers.simps all_less_shift)
            (auto simp: Let_def loadable_range_Suc segment_end_saturating mm not_less min.commute max.commute)
      qed
    qed
  qed
qed

lemma fold_min_Min: "xs \<noteq> [] \<Longrightarrow> fold min xs (- 1 :: u64) = Min (set xs)"
proof -
  assume h: "xs \<noteq> []"
  have "fold min xs (- 1) = Min (insert (- 1) (set xs))" by (simp add: Min.set_eq_fold [symmetric] flip: set_simps(2))
  also have "\<dots> = min (- 1) (Min (set xs))" using h by (simp add: Min_insert)
  finally show ?thesis by (simp add: min_absorb2)
qed

lemma fold_max_Max: "xs \<noteq> [] \<Longrightarrow> fold max xs (0 :: u64) = Max (set xs)"
proof -
  assume h: "xs \<noteq> []"
  have "fold max xs 0 = Max (insert 0 (set xs))" by (simp add: Max.set_eq_fold [symmetric] flip: set_simps(2))
  also have "\<dots> = max 0 (Max (set xs))" using h by (simp add: Max_insert)
  finally show ?thesis by (simp add: max_absorb2)
qed

lemma loadable_range_all: "loadable_range img (read_header img) 0 (unat (program_header_count (read_header img))) = loadable img"
  by (simp add: loadable_range_def loadable_def program_headers_def Let_def)

lemma loadable_range_good:
  "(\<forall>j<n. header_good img h j) \<longleftrightarrow>
     (\<forall>j<n. header_place h j + 56 \<le> length img) \<and> (\<forall>ph \<in> set (loadable_range img h 0 n). segment_ok img ph)"
  by (auto simp: header_good_def loadable_range_def Let_def)

lemma table_check:
  assumes "length img < usize_limit"
  shows "(\<exists>x. (if 0 < n then
              (case usize_mul n s of None \<Rightarrow> Inl Table_Overflow
               | Some table_len \<Rightarrow> checked_bounds a table_len (length img) Table_Overflow Table_Truncated)
            else Inr 0) = Inr x) \<longleftrightarrow> (0 < n \<longrightarrow> a + n * s \<le> length img)"
  using assms by (auto simp: usize_mul_def checked_bounds_Inr)

lemma summary_saturating: "saturating_sub_w hi lo = (word_of_nat (unat hi - unat lo) :: u64)"
proof -
  have "unat hi - unat lo < 2 ^ 64" using unsigned_less [of hi, where 'a = nat] by (simp add: less_imp_diff_less)
  then have "unat (saturating_sub_w hi lo) = unat (word_of_nat (unat hi - unat lo) :: u64)"
    by (simp add: unat_saturating_sub_w unat_of_nat)
  then show ?thesis by (simp add: word_unat_eq_iff)
qed

lemma parse_elf_Inr:
  assumes "length img < usize_limit"
  shows "parse_elf img = Inr info \<longleftrightarrow> elf_wf img \<and> info = elf_summary img"
proof -
  define h where "h = read_header img"
  define n where "n = unat (program_header_count h)"
  define tbl where "tbl = (if 0 < n then
      (case usize_mul n (unat (program_header_size h)) of None \<Rightarrow> Inl Table_Overflow
       | Some table_len \<Rightarrow> checked_bounds (unat (program_header_offset h)) table_len (length img) Table_Overflow Table_Truncated)
    else Inr 0)"
  have tb: "(\<exists>x. tbl = Inr x) \<longleftrightarrow> (0 < n \<longrightarrow> header_place h n \<le> length img)"
    unfolding tbl_def header_place_def by (rule table_check [OF assms])
  have ident: "slice_of 0 4 (identification h) = take 4 img" "identification h ! 4 = img ! 4" "identification h ! 5 = img ! 5"
    if "64 \<le> length img" using that by (simp_all add: h_def read_header_def slice_of_def)
  define fixed where "fixed \<longleftrightarrow> 64 \<le> length img \<and> take 4 img = [0x7F, 0x45, 0x4C, 0x46] \<and> img ! 4 = 2 \<and> img ! 5 = 1 \<and>
    machine h \<in> {MACHINE_X86_64, MACHINE_AARCH64}"
  have unfold: "parse_elf img = Inr info \<longleftrightarrow> fixed \<and> (\<exists>x. tbl = Inr x) \<and>
      (\<exists>lo hi c. parse_headers img h 0 n (- 1, 0, 0) = Inr (lo, hi, c) \<and> c \<noteq> 0 \<and>
        info = \<lparr>info_entry = elf_entry h, info_machine = machine h, is_pie = (file_type h = ET_DYN),
          min_vaddr = lo, max_vaddr = hi, total_memsz = saturating_sub_w hi lo, loadable_segments = c\<rparr>)"
  proof (cases "64 \<le> length img")
    case True
    show ?thesis
      unfolding parse_elf_def Let_def h_def [symmetric] n_def [symmetric] tbl_def [symmetric]
      using True ident [OF True]
      by (auto simp: fixed_def header_bytes_def MAGIC_def CLASS_64_def DATA_2LSB_def split: if_splits sum.splits)
  qed (simp add: parse_elf_def header_bytes_def fixed_def)
  have ld: "loadable_range img h 0 n = loadable img" using loadable_range_all by (simp add: h_def n_def)
  have wf: "elf_wf img \<longleftrightarrow> fixed \<and> (\<exists>x. tbl = Inr x) \<and> (\<forall>j<n. header_good img h j) \<and> loadable img \<noteq> []"
    unfolding elf_wf_def tb loadable_range_good ld fixed_def Let_def h_def [symmetric] n_def [symmetric] by blast
  have ph: "parse_headers img h 0 n (- 1, 0, 0) = Inr (lo, hi, c) \<longleftrightarrow> (\<forall>j<n. header_good img h j) \<and>
      lo = fold min (map virtual_address (loadable img)) (- 1) \<and> hi = fold max (map segment_end (loadable img)) 0 \<and>
      c = length (loadable img)" for lo hi c
    using parse_headers_Inr [OF assms, of h 0 n] ld by simp
  show ?thesis unfolding unfold wf ph
    by (auto simp: elf_summary_def Let_def h_def summary_saturating fold_min_Min fold_max_Max ET_DYN_def)
qed

subsection \<open>Loading on AArch64\<close>

lemma user_offset:
  "USER_SPACE_VIRT \<le> v \<longleftrightarrow> 0x400000 \<le> unat v"
  "USER_SPACE_VIRT \<le> v \<Longrightarrow> unat (v - USER_SPACE_VIRT) = unat v - 0x400000"
  by (simp_all add: USER_SPACE_VIRT_def word_le_nat_alt unat_sub)

lemma load_segment_good:
  assumes "length img < usize_limit" and "segment_ok img ph" and "in_user_area ph"
  shows "load_aarch64_segment img ph mem = (place img ph mem, Inr ())"
proof -
  have v: "USER_SPACE_VIRT \<le> virtual_address ph" "unat (virtual_address ph - USER_SPACE_VIRT) = unat (virtual_address ph) - 0x400000"
    using assms(3) user_offset by (simp_all add: in_user_area_def)
  have e: "usize_add (unat (virtual_address ph) - 0x400000) (unat (memory_size ph)) =
      Some (unat (virtual_address ph) - 0x400000 + unat (memory_size ph))"
    "unat (virtual_address ph) - 0x400000 + unat (memory_size ph) \<le> user_area_len"
    using assms(3) by (auto simp: usize_add_def in_user_area_def user_area_len_def)
  have c: "checked_bounds (unat (seg_offset ph)) (unat (file_size ph)) (length img) Segment_Overflow Segment_Out_Of_Image =
      Inr (unat (seg_offset ph) + unat (file_size ph))" "unat (file_size ph) \<le> unat (memory_size ph)"
    using assms(1,2) by (simp_all add: checked_bounds_Inr segment_ok_def word_le_nat_alt)
  have "copy_in (seg_place ph) (slice_of (unat (seg_offset ph)) (unat (seg_offset ph) + unat (file_size ph)) img)
      (fill_zero (seg_place ph) (unat (memory_size ph)) mem) = place img ph mem"
    using assms(2) c(2)
    by (auto simp: fun_eq_iff copy_in_def fill_zero_def place_def covers_def seg_byte_def segment_ok_def)
  then show ?thesis using v e c
    by (simp add: load_aarch64_segment_def Let_def not_less seg_place_def USER_SPACE_PHYS_def)
qed

lemma load_loop_good:
  assumes "length img < usize_limit" and "\<forall>j<n. header_good img h (i + j)" and "\<forall>ph \<in> set (loadable_range img h i n). in_user_area ph"
  shows "load_aarch64_loop img h i n mem = (fold (place img) (loadable_range img h i n) mem, Inr ())"
  using assms(2,3)
proof (induction n arbitrary: i mem)
  case 0
  then show ?case by (simp add: loadable_range_def)
next
  case (Suc n)
  let ?ph = "read_program_header (header_place h i) img"
  have g: "header_good img h i" "\<forall>j<n. header_good img h (Suc i + j)" using Suc.prems(1) all_less_shift by blast+
  have p: "program_header_at img h i = Inr ?ph" using g(1) program_header_at_Inr [OF assms(1)] by (simp add: header_good_def)
  show ?case
  proof (cases "segment_type ?ph = PT_LOAD")
    case True
    then have "load_aarch64_segment img ?ph mem = (place img ?ph mem, Inr ())"
      using g(1) Suc.prems(2) load_segment_good [OF assms(1)] by (simp add: header_good_def loadable_range_Suc Let_def)
    then show ?thesis using True p Suc.IH [of "Suc i"] g(2) Suc.prems(2) by (simp add: loadable_range_Suc Let_def)
  next
    case False
    then show ?thesis using p Suc.IH [of "Suc i"] g(2) Suc.prems(2) by (simp add: loadable_range_Suc Let_def)
  qed
qed

lemma fold_place_other: "(\<forall>ph \<in> set ls. \<not> covers ph a) \<Longrightarrow> fold (place img) ls mem a = mem a"
  by (induction ls arbitrary: mem) (simp_all add: place_def)

lemma fold_place_covered:
  "ph \<in> set ls \<Longrightarrow> covers ph a \<Longrightarrow> (\<forall>q \<in> set ls. q = ph \<or> \<not> covers q a) \<Longrightarrow>
   fold (place img) ls mem a = seg_byte img ph (a - seg_place ph)"
proof (induction ls arbitrary: mem)
  case (Cons x ls)
  show ?case
  proof (cases "ph \<in> set ls")
    case True
    then show ?thesis using Cons by simp
  next
    case False
    then have x: "x = ph" using Cons.prems(1) by simp
    have "\<forall>q \<in> set ls. \<not> covers q a" using Cons.prems(3) False by auto
    then show ?thesis using x Cons.prems(2) by (simp add: fold_place_other) (simp add: place_def)
  qed
qed simp

lemma user_range:
  assumes "loadable img \<noteq> []"
  shows "USER_SPACE_VIRT \<le> min_vaddr (elf_summary img) \<and> max_vaddr (elf_summary img) \<le> USER_SPACE_VIRT + 0x00200000 \<longleftrightarrow>
    (\<forall>ph \<in> set (loadable img). in_user_area ph)"
proof -
  have fin: "finite (virtual_address ` set (loadable img))" "virtual_address ` set (loadable img) \<noteq> {}"
    "finite (segment_end ` set (loadable img))" "segment_end ` set (loadable img) \<noteq> {}" using assms by auto
  have e: "segment_end ph \<le> USER_SPACE_VIRT + 0x00200000 \<longleftrightarrow> unat (virtual_address ph) + unat (memory_size ph) \<le> 0x600000" for ph
    by (auto simp: segment_end_def word_le_nat_alt unat_of_nat USER_SPACE_VIRT_def min_def)
  show ?thesis
    using fin by (simp add: elf_summary_def Let_def in_user_area_def e user_offset(1) [symmetric] ball_conj_distrib)
qed

lemma load_aarch64_good:
  assumes "length img < usize_limit" and "aarch64_loadable img"
  shows "load_aarch64 img mem = (fold (place img) (loadable img) mem, Inr (elf_entry (read_header img), 0x5FF000))"
proof -
  have p: "parse_elf img = Inr (elf_summary img)" "loadable img \<noteq> []"
    using assms parse_elf_Inr [OF assms(1)] by (auto simp: aarch64_loadable_def elf_wf_def Let_def)
  define h where "h = read_header img"
  define n where "n = unat (program_header_count h)"
  have ld: "loadable_range img h 0 n = loadable img" using loadable_range_all by (simp add: h_def n_def)
  have "\<forall>j<n. header_good img h j"
    unfolding loadable_range_good ld using assms(2) by (auto simp: aarch64_loadable_def elf_wf_def Let_def h_def n_def)
  then have l: "load_aarch64_loop img h 0 n mem = (fold (place img) (loadable img) mem, Inr ())"
    using load_loop_good [OF assms(1), of n h 0 mem] assms(2) ld by (simp add: aarch64_loadable_def)
  have "\<not> (min_vaddr (elf_summary img) < USER_SPACE_VIRT \<or> USER_SPACE_VIRT + 0x00200000 < max_vaddr (elf_summary img))"
    using user_range [OF p(2)] assms(2) by (auto simp: aarch64_loadable_def not_less)
  moreover have "info_machine (elf_summary img) = MACHINE_AARCH64"
    using assms(2) by (simp add: elf_summary_def Let_def aarch64_loadable_def)
  ultimately show ?thesis using p(1) l
    by (simp add: load_aarch64_def Let_def h_def n_def USER_SPACE_VIRT_def)
qed

lemma load_aarch64_rejects:
  assumes "length img < usize_limit" and "\<not> aarch64_loadable img"
  shows "\<exists>e. load_aarch64 img mem = (mem, Inl e)"
proof (cases "parse_elf img")
  case (Inl e)
  then show ?thesis by (simp add: load_aarch64_def)
next
  case (Inr info)
  then have i: "elf_wf img" "info = elf_summary img" using parse_elf_Inr [OF assms(1)] by auto
  then have ne: "loadable img \<noteq> []" by (auto simp: elf_wf_def Let_def)
  have "info_machine info = machine (read_header img)" using i by (simp add: elf_summary_def Let_def)
  then have "info_machine info \<noteq> MACHINE_AARCH64 \<or> min_vaddr info < USER_SPACE_VIRT \<or> USER_SPACE_VIRT + 0x00200000 < max_vaddr info"
    using assms(2) i user_range [OF ne] by (auto simp: aarch64_loadable_def not_less)
  then show ?thesis using Inr by (auto simp: load_aarch64_def Let_def)
qed

subsection \<open>A concrete image\<close>

lemma demo_header:
  "read_header demo_image = \<lparr>identification = [0x7F, 0x45, 0x4C, 0x46, 2, 1, 1, 0, 0, 0, 0, 0, 0, 0, 0, 0],
     file_type = 2, machine = 0xB7, elf_version = 1, elf_entry = 0x400000, program_header_offset = 64,
     section_header_offset = 0, header_flags = 0, header_size = 64, program_header_size = 56,
     program_header_count = 1, section_header_size = 0, section_header_count = 0, section_name_index = 0\<rparr>"
  by (simp add: read_header_def read_le_def le_word_def slice_of_def demo_image_def)

lemma demo_segment:
  "read_program_header 64 demo_image = \<lparr>segment_type = 1, segment_flags = 5, seg_offset = 120, virtual_address = 0x400000,
     physical_address = 0x400000, file_size = 4, memory_size = 8, alignment = 0x1000\<rparr>"
  by (simp add: read_program_header_def read_le_def le_word_def slice_of_def demo_image_def)

lemma demo_length: "length demo_image = 124"
  by (simp add: demo_image_def)

lemma demo_loadable: "loadable demo_image = [read_program_header 64 demo_image]"
proof -
  have "program_headers demo_image = [read_program_header 64 demo_image]"
    by (simp add: program_headers_def demo_header header_place_def)
  then show ?thesis by (simp add: loadable_def demo_segment PT_LOAD_def)
qed

lemma demo_wf: "elf_wf demo_image"
proof -
  have "header_place (read_header demo_image) i = 64 + i * 56" for i by (simp add: header_place_def demo_header)
  then show ?thesis
    by (simp add: elf_wf_def demo_length demo_loadable demo_segment segment_ok_def demo_header MACHINE_AARCH64_def)
      (simp add: demo_image_def)
qed

subsection \<open>Properties\<close>

text \<open>C16: the parser accepts exactly the well-formed images: checked arithmetic on 64 bits decides the same as the
  unbounded reference, and what it reports is the summary of the loadable segments.\<close>

theorem parse_elf_reference:
  "length img < usize_limit \<Longrightarrow> parse_elf img = Inr info \<longleftrightarrow> elf_wf img \<and> info = elf_summary img"
  by (rule parse_elf_Inr)

theorem parse_elf_reference_witness:
  "\<exists>info. parse_elf demo_image = Inr info \<and> min_vaddr info = 0x400000 \<and> max_vaddr info = 0x400008 \<and> total_memsz info = 8"
proof -
  have "parse_elf demo_image = Inr (elf_summary demo_image)"
    using parse_elf_reference [of demo_image "elf_summary demo_image"] demo_wf by (simp add: demo_length)
  then show ?thesis by (simp add: elf_summary_def Let_def demo_loadable demo_segment segment_end_def)
qed

text \<open>C19: the AArch64 loader accepts exactly the images whose segments lie in the user area; it then writes the bytes of
  each segment, with zeros up to its size in memory, at the place of its address and nowhere else, and a rejected
  image changes no memory.\<close>

theorem load_aarch64_places:
  assumes "length img < usize_limit" and "load_aarch64 img mem = (mem', r)"
  shows "if aarch64_loadable img
    then r = Inr (elf_entry (read_header img), 0x5FF000) \<and>
      (\<forall>a. (\<forall>ph \<in> set (loadable img). \<not> covers ph a) \<longrightarrow> mem' a = mem a) \<and>
      (\<forall>a. \<not> (0x41000000 \<le> a \<and> a < 0x41200000) \<longrightarrow> mem' a = mem a) \<and>
      (\<forall>ph \<in> set (loadable img). \<forall>i < unat (memory_size ph).
         (\<forall>q \<in> set (loadable img). q = ph \<or> \<not> covers q (seg_place ph + i)) \<longrightarrow> mem' (seg_place ph + i) = seg_byte img ph i)
    else (\<exists>e. r = Inl e) \<and> mem' = mem"
proof (cases "aarch64_loadable img")
  case False
  then show ?thesis using load_aarch64_rejects [OF assms(1) False, of mem] assms(2) by auto
next
  case True
  then have m: "mem' = fold (place img) (loadable img) mem" "r = Inr (elf_entry (read_header img), 0x5FF000)"
    using load_aarch64_good [OF assms(1) True] assms(2) by auto
  have area: "0x41000000 \<le> a \<and> a < 0x41200000" if "ph \<in> set (loadable img)" "covers ph a" for ph a
    using that True by (auto simp: aarch64_loadable_def in_user_area_def covers_def seg_place_def dest!: bspec)
  have "mem' (seg_place ph + i) = seg_byte img ph i"
    if "ph \<in> set (loadable img)" "i < unat (memory_size ph)" "\<forall>q \<in> set (loadable img). q = ph \<or> \<not> covers q (seg_place ph + i)" for ph i
    using fold_place_covered [of ph "loadable img" "seg_place ph + i" img mem] that by (simp add: m(1) covers_def)
  moreover have "mem' a = mem a" if "\<forall>ph \<in> set (loadable img). \<not> covers ph a" for a
    using fold_place_other [OF that] by (simp add: m(1))
  moreover have "mem' a = mem a" if "\<not> (0x41000000 \<le> a \<and> a < 0x41200000)" for a
    using fold_place_other [of "loadable img" a img mem] area that by (auto simp: m(1))
  ultimately show ?thesis using True m(2) by simp
qed

theorem load_aarch64_places_witness:
  "\<forall>mem. fst (load_aarch64 demo_image mem) 0x41000001 = 0xBB \<and> fst (load_aarch64 demo_image mem) 0x41000005 = 0"
proof
  fix mem
  obtain mem' r where l: "load_aarch64 demo_image mem = (mem', r)" by (metis prod.exhaust)
  have ok: "aarch64_loadable demo_image"
    using demo_wf by (simp add: aarch64_loadable_def demo_loadable demo_segment in_user_area_def demo_header MACHINE_AARCH64_def)
  have "mem' (seg_place (read_program_header 64 demo_image) + i) = seg_byte demo_image (read_program_header 64 demo_image) i"
    if "i < 8" for i
    using load_aarch64_places [OF _ l] ok that by (simp add: demo_length demo_loadable) (simp add: demo_segment)
  from this [of 1] this [of 5] show "fst (load_aarch64 demo_image mem) 0x41000001 = 0xBB \<and> fst (load_aarch64 demo_image mem) 0x41000005 = 0"
    by (simp add: l demo_segment seg_place_def seg_byte_def) (simp add: demo_image_def)
qed

end
