(* ===== verification/Tar_Fs.thy ===== *)
theory Tar_Fs
  imports Rust_Strings
begin

text \<open>
  The read-only root file system: \<^verbatim>\<open>kernel/src/fs/tarfs.rs\<close>, \<^verbatim>\<open>kernel/src/fs/vfs.rs\<close> and
  \<^verbatim>\<open>kernel/src/fs/ramdisk.rs\<close>, over a slice in memory or the VirtIO block device.

  Strings are those of theory \<open>Rust_Strings\<close>. Slices have fewer than \<open>2 ^ 63\<close> bytes. An arithmetic overflow, and a buffer
  for sectors of the device that the heap cannot serve, stop the kernel: the result is then \<open>None\<close>. Copies of a slice of an archive in memory
  (\<open>into_owned\<close>, \<^verbatim>\<open>to_vec\<close>) are taken to succeed. The block device is a parameter: its
  capacity and the function that reads a sector.
\<close>

subsection \<open>Paths and headers\<close>

text \<open>The loop over the parts, with the components found so far in reverse.\<close>

fun resolve_parts :: "str list \<Rightarrow> str list \<Rightarrow> str list" where
  "resolve_parts components [] = components"
| "resolve_parts components (part # parts) =
     (if part = [] \<or> part = lit ''.'' then resolve_parts components parts
      else if part = lit ''..'' then resolve_parts (butlast components) parts
      else resolve_parts (components @ [part]) parts)"

definition normalize_path :: "str \<Rightarrow> str" where
  "normalize_path path =
     (let components = resolve_parts [] (split_on SLASH (trim_by is_whitespace path))
      in if components = [] then lit ''/'' else SLASH # join_with SLASH components)"

text \<open>\<open>b\<close> minus the digit zero cannot underflow in its range.\<close>

fun parse_octal_loop :: "usize \<Rightarrow> u8 list \<Rightarrow> usize" where
  "parse_octal_loop val [] = val"
| "parse_octal_loop val (b # bs) =
     (if 0x30 \<le> b \<and> b \<le> 0x37 then
        parse_octal_loop (saturating_add (saturating_mul val 8) (unat (b - 0x30))) bs
      else if b = 0 \<or> b = 0x20 then val
      else parse_octal_loop val bs)"

definition parse_octal :: "u8 list \<Rightarrow> usize" where
  "parse_octal bytes = parse_octal_loop 0 bytes"

text \<open>\<^verbatim>\<open>iter().position(|&b| b == 0).unwrap_or(len)\<close>.\<close>

definition field_end :: "u8 list \<Rightarrow> nat" where
  "field_end bs = length (takeWhile (\<lambda>b. b \<noteq> 0) bs)"

definition parse_header :: "u8 list \<Rightarrow> (str \<times> usize \<times> bool) option" where
  "parse_header header =
     (if length header < 512 then None
      else
        let name_end = field_end (slice_of 0 100 header)
        in if name_end = 0 then None
           else
             case from_utf8 (slice_of 0 name_end header) of
               None \<Rightarrow> None
             | Some name_str \<Rightarrow>
                 let sz = parse_octal (slice_of 124 136 header);
                     typeflag = header ! 156;
                     is_dir = (typeflag = 0x35 \<or> name_str \<noteq> [] \<and> last name_str = SLASH);
                     prefix_end = field_end (slice_of 345 500 header);
                     full_path =
                       (if 0 < prefix_end then
                          (case from_utf8 (slice_of 345 (345 + prefix_end) header) of
                             Some prefix_str \<Rightarrow> prefix_str @ SLASH # name_str
                           | None \<Rightarrow> name_str)
                        else name_str)
                 in Some (normalize_path full_path, sz, is_dir))"

subsection \<open>Indexing an archive\<close>

datatype fs_error = NotFound | NotAFile | NotADirectory | IoError | AlreadyOpen | InvalidPath | NoFileSystemMounted

datatype tar_backing = Memory "u8 list" | BlockDevice

record tar_entry =
  entry_path :: str
  entry_size :: usize
  entry_is_dir :: bool
  sector_or_offset :: usize

record tar_fs =
  backing :: tar_backing
  entries :: "tar_entry list"

text \<open>The loop of \<open>from_memory\<close>; the guard adds 512 to the offset, which could overflow.\<close>

function index_memory :: "u8 list \<Rightarrow> usize \<Rightarrow> tar_entry list \<Rightarrow> (fs_error + tar_entry list) option" where
  "index_memory data offset found =
     (case usize_add offset 512 of
        None \<Rightarrow> None
      | Some data_offset \<Rightarrow>
          if length data < data_offset then Some (Inr found)
          else
            let header = slice_of offset data_offset data
            in if list_all (\<lambda>b. b = 0) header then Some (Inr found)
               else
                 case parse_header header of
                   Some (path, sz, is_dir) \<Rightarrow>
                     (case usize_mul (div_ceil sz 512) 512 of
                        None \<Rightarrow> Some (Inl IoError)
                      | Some block_bytes \<Rightarrow>
                          (case usize_add data_offset block_bytes of
                             None \<Rightarrow> Some (Inl IoError)
                           | Some offset' \<Rightarrow>
                               index_memory data offset'
                                 (found @ [\<lparr>entry_path = path, entry_size = sz, entry_is_dir = is_dir,
                                            sector_or_offset = data_offset\<rparr>])))
                 | None \<Rightarrow> index_memory data data_offset found)"
  by pat_completeness auto
termination
  by (relation "measure (\<lambda>(data, offset, _). length data - offset)")
    (auto simp: usize_add_def usize_mul_def split: if_splits)

definition from_memory :: "u8 list \<Rightarrow> (fs_error + tar_fs) option" where
  "from_memory data =
     (case index_memory data 0 [] of
        None \<Rightarrow> None
      | Some (Inl e) \<Rightarrow> Some (Inl e)
      | Some (Inr es) \<Rightarrow> Some (Inr \<lparr>backing = Memory data, entries = es\<rparr>))"

text \<open>The block device: \<open>read_sector\<close> is the hardware, which fails or fills 512 bytes.\<close>

record block_device =
  capacity_sectors :: u64
  read_sector :: "u64 \<Rightarrow> u8 list option"

text \<open>\<open>None\<close>: the sector number overflowed; \<open>Some None\<close>: the device failed.\<close>

fun read_chunks :: "block_device \<Rightarrow> u64 \<Rightarrow> nat \<Rightarrow> nat \<Rightarrow> u8 list option option" where
  "read_chunks dev start i 0 = Some (Some [])"
| "read_chunks dev start i (Suc n) =
     (case checked_add_w start (word_of_nat i) of
        None \<Rightarrow> None
      | Some sector \<Rightarrow>
          (case read_sector dev sector of
             None \<Rightarrow> Some None
           | Some bs \<Rightarrow> map_option (map_option ((@) bs)) (read_chunks dev start (i + 1) n)))"

definition read_blocks :: "block_device option \<Rightarrow> u64 \<Rightarrow> nat \<Rightarrow> u8 list option option" where
  "read_blocks device start len =
     (case device of
        None \<Rightarrow> Some None
      | Some dev \<Rightarrow> if len mod 512 \<noteq> 0 then Some None else read_chunks dev start 0 (len div 512))"

function index_device :: "block_device \<Rightarrow> u64 \<Rightarrow> u64 \<Rightarrow> tar_entry list \<Rightarrow> (fs_error + tar_entry list) option" where
  "index_device dev max_sectors sector found =
     (if max_sectors \<le> sector then Some (Inr found)
      else
        case read_blocks (Some dev) sector 512 of
          None \<Rightarrow> None
        | Some None \<Rightarrow> Some (Inr found)
        | Some (Some header) \<Rightarrow>
            if list_all (\<lambda>b. b = 0) header then Some (Inr found)
            else
              case parse_header header of
                Some (path, sz, is_dir) \<Rightarrow>
                  (case checked_add_w sector 1 of
                     None \<Rightarrow> None
                   | Some data_sector \<Rightarrow>
                       (case checked_add_w data_sector (word_of_nat (div_ceil sz 512)) of
                          None \<Rightarrow> Some (Inl IoError)
                        | Some sector' \<Rightarrow>
                            index_device dev max_sectors sector'
                              (found @ [\<lparr>entry_path = path, entry_size = sz, entry_is_dir = is_dir,
                                         sector_or_offset = unat data_sector\<rparr>])))
              | None \<Rightarrow>
                  (case checked_add_w sector 1 of
                     None \<Rightarrow> None
                   | Some sector' \<Rightarrow> index_device dev max_sectors sector' found))"
  by pat_completeness auto
termination
  by (relation "measure (\<lambda>(_, max_sectors, sector, _). unat max_sectors - unat sector)")
    (auto simp: checked_add_w_Some not_le word_less_nat_alt)

definition from_block_device :: "block_device option \<Rightarrow> (fs_error + tar_fs) option" where
  "from_block_device device =
     (case device of
        None \<Rightarrow> Some (Inl IoError)
      | Some dev \<Rightarrow>
          (case index_device dev (capacity_sectors dev) 0 [] of
             None \<Rightarrow> None
           | Some (Inl e) \<Rightarrow> Some (Inl e)
           | Some (Inr es) \<Rightarrow> Some (Inr \<lparr>backing = BlockDevice, entries = es\<rparr>)))"

subsection \<open>Lookup, reading and listing\<close>

definition find_entry :: "tar_fs \<Rightarrow> str \<Rightarrow> tar_entry option" where
  "find_entry fs path = (let norm = normalize_path path in find (\<lambda>e. entry_path e = norm) (entries fs))"

datatype cow = Borrowed "u8 list" | Owned "u8 list"

fun into_owned :: "cow \<Rightarrow> u8 list" where
  "into_owned (Borrowed bs) = bs"
| "into_owned (Owned bs) = bs"

text \<open>What the file system is mounted on: the device and the largest block the heap can still serve.\<close>

record fs_env =
  device :: "block_device option"
  heap_room :: nat

definition read_file_cow :: "fs_env \<Rightarrow> tar_fs \<Rightarrow> tar_entry \<Rightarrow> (fs_error + cow) option" where
  "read_file_cow env fs e =
     (if entry_is_dir e then Some (Inl NotAFile)
      else
        case backing fs of
          Memory data \<Rightarrow>
            (let start = sector_or_offset e
             in case usize_add start (entry_size e) of
                  None \<Rightarrow> Some (Inl IoError)
                | Some stop \<Rightarrow>
                    if stop \<le> length data then Some (Inr (Borrowed (slice_of start stop data))) else Some (Inl IoError))
        | BlockDevice \<Rightarrow>
            (case usize_mul (div_ceil (entry_size e) 512) 512 of
               None \<Rightarrow> Some (Inl IoError)
             | Some byte_len \<Rightarrow>
                 if heap_room env < byte_len then None
                 else
                   (case read_blocks (device env) (word_of_nat (sector_or_offset e)) byte_len of
                      None \<Rightarrow> None
                    | Some None \<Rightarrow> Some (Inl IoError)
                    | Some (Some raw) \<Rightarrow> Some (Inr (Owned (take (entry_size e) raw))))))"

definition read_file :: "fs_env \<Rightarrow> tar_fs \<Rightarrow> tar_entry \<Rightarrow> (fs_error + u8 list) option" where
  "read_file env fs e = map_option (map_sum id into_owned) (read_file_cow env fs e)"

record file_info =
  info_path :: str
  info_size :: usize
  info_is_dir :: bool

definition fs_stat :: "tar_fs \<Rightarrow> str \<Rightarrow> fs_error + file_info" where
  "fs_stat fs path =
     (case find_entry fs path of
        None \<Rightarrow> Inl NotFound
      | Some e \<Rightarrow> Inr \<lparr>info_path = entry_path e, info_size = entry_size e, info_is_dir = entry_is_dir e\<rparr>)"

record dir_entry =
  dir_name :: str
  dir_is_dir :: bool
  dir_size :: usize

fun list_loop :: "str \<Rightarrow> str \<Rightarrow> tar_entry list \<Rightarrow> dir_entry list \<Rightarrow> dir_entry list" where
  "list_loop norm_dir prefix [] results = results"
| "list_loop norm_dir prefix (e # es) results =
     (if starts_with (entry_path e) prefix \<and> entry_path e \<noteq> norm_dir then
        let remainder = drop (length prefix) (entry_path e)
        in if SLASH \<notin> set remainder \<or> entry_is_dir e \<and> length (filter (\<lambda>c. c = SLASH) remainder) = 0 then
             let name = trim_by (\<lambda>c. c = SLASH) remainder
             in if name \<noteq> [] \<and> \<not> list_ex (\<lambda>r. dir_name r = name) results then
                  list_loop norm_dir prefix es
                    (results @ [\<lparr>dir_name = name, dir_is_dir = entry_is_dir e, dir_size = entry_size e\<rparr>])
                else list_loop norm_dir prefix es results
           else list_loop norm_dir prefix es results
      else list_loop norm_dir prefix es results)"

definition fs_list_dir :: "tar_fs \<Rightarrow> str \<Rightarrow> dir_entry list" where
  "fs_list_dir fs dir_path =
     (let norm_dir = normalize_path dir_path;
          prefix = (if norm_dir = lit ''/'' then lit ''/'' else norm_dir @ [SLASH])
      in list_loop norm_dir prefix (entries fs) [])"

definition entry_count :: "tar_fs \<Rightarrow> nat" where
  "entry_count fs = length (entries fs)"

definition all_entries :: "tar_fs \<Rightarrow> tar_entry list" where
  "all_entries fs = entries fs"

declare index_memory.simps [simp del] index_device.simps [simp del]

subsection \<open>Specification vocabulary\<close>

definition clean_component :: "str \<Rightarrow> bool" where
  "clean_component c \<longleftrightarrow> c \<noteq> [] \<and> c \<noteq> lit ''.'' \<and> c \<noteq> lit ''..'' \<and> SLASH \<notin> set c"

text \<open>The absolute path with the given components.\<close>

definition abs_path :: "str list \<Rightarrow> str" where
  "abs_path cs = (if cs = [] then lit ''/'' else SLASH # join_with SLASH cs)"

definition path_components :: "str \<Rightarrow> str list" where
  "path_components p = resolve_parts [] (split_on SLASH (trim_by is_whitespace p))"

text \<open>One entry after another: the blocks of an entry end before the header of the next.\<close>

fun chained :: "nat \<Rightarrow> tar_entry list \<Rightarrow> nat \<Rightarrow> bool" where
  "chained from [] len \<longleftrightarrow> True"
| "chained from (e # es) len \<longleftrightarrow>
     from + 512 \<le> sector_or_offset e \<and> sector_or_offset e \<le> len \<and> sector_or_offset e mod 512 = 0 \<and> entry_size e < 2 ^ 36 \<and>
     chained (sector_or_offset e + entry_size e) es len"

fun octal :: "nat \<Rightarrow> nat \<Rightarrow> u8 list" where
  "octal 0 n = []"
| "octal (Suc k) n = octal k (n div 8) @ [0x30 + word_of_nat (n mod 8)]"

definition name_field :: "u8 list \<Rightarrow> u8 list" where
  "name_field name = name @ replicate (100 - length name) 0"

definition tar_header :: "u8 list \<Rightarrow> nat \<Rightarrow> u8 list" where
  "tar_header name n = name_field name @ replicate 24 0 @ (octal 11 n @ [0]) @ replicate 20 0 @ [0x30] @ replicate 100 0 @
     [0x75, 0x73, 0x74, 0x61, 0x72, 0, 0x30, 0x30] @ replicate 247 0"

definition tar_file :: "u8 list \<times> u8 list \<Rightarrow> u8 list" where
  "tar_file f = tar_header (fst f) (length (snd f)) @ snd f @ replicate (div_ceil (length (snd f)) 512 * 512 - length (snd f)) 0"

definition tar_archive :: "(u8 list \<times> u8 list) list \<Rightarrow> u8 list" where
  "tar_archive files = concat (map tar_file files) @ replicate 1024 0"

definition valid_file :: "u8 list \<times> u8 list \<Rightarrow> bool" where
  "valid_file f \<longleftrightarrow> fst f \<noteq> [] \<and> length (fst f) \<le> 100 \<and> list_all (\<lambda>b. 0 < b \<and> b < 0x80) (fst f) \<and>
     last (fst f) \<noteq> 0x2F \<and> length (snd f) < 8 ^ 11"

definition file_name :: "u8 list \<times> u8 list \<Rightarrow> str" where
  "file_name f = map unat (fst f)"

text \<open>The entries that an index of the files finds, the first header standing at an offset.\<close>

fun file_entries :: "nat \<Rightarrow> (u8 list \<times> u8 list) list \<Rightarrow> tar_entry list" where
  "file_entries at [] = []"
| "file_entries at (f # fs) =
     \<lparr>entry_path = normalize_path (file_name f), entry_size = length (snd f), entry_is_dir = False, sector_or_offset = at + 512\<rparr> #
     file_entries (at + length (tar_file f)) fs"

definition holds :: "block_device \<Rightarrow> u8 list \<Rightarrow> bool" where
  "holds dev data \<longleftrightarrow> length data = 512 * unat (capacity_sectors dev) \<and> length data < 2 ^ 63 \<and>
     (\<forall>s. read_sector dev s =
        (if s < capacity_sectors dev then Some (slice_of (512 * unat s) (512 * unat s + 512) data) else None))"

definition to_sector :: "tar_entry \<Rightarrow> tar_entry" where
  "to_sector e = e\<lparr>sector_or_offset := sector_or_offset e div 512\<rparr>"

definition dir_prefix :: "str \<Rightarrow> str" where
  "dir_prefix d = (if d = lit ''/'' then lit ''/'' else d @ [SLASH])"

text \<open>What a listing shows of a child: the first entry of that name.\<close>

definition shows_child :: "str \<Rightarrow> tar_entry list \<Rightarrow> dir_entry \<Rightarrow> bool" where
  "shows_child p es r \<longleftrightarrow> dir_name r \<noteq> [] \<and> SLASH \<notin> set (dir_name r) \<and>
     (\<exists>e. find (\<lambda>e. entry_path e = p @ dir_name r) es = Some e \<and>
        r = \<lparr>dir_name = dir_name r, dir_is_dir = entry_is_dir e, dir_size = entry_size e\<rparr>)"

definition listed :: "str \<Rightarrow> str \<Rightarrow> tar_entry \<Rightarrow> str \<Rightarrow> bool" where
  "listed d p e name \<longleftrightarrow> entry_path e = p @ name \<and> name \<noteq> [] \<and> SLASH \<notin> set name"

definition demo_files :: "(u8 list \<times> u8 list) list" where
  "demo_files = [([0x61], [1, 2, 3]), ([0x62, 0x2F, 0x63], [])]"

definition demo_disk :: block_device where
  "demo_disk = \<lparr>capacity_sectors = 5, read_sector =
     (\<lambda>s. if s < 5 then Some (slice_of (512 * unat s) (512 * unat s + 512) (tar_archive demo_files)) else None)\<rparr>"

subsection \<open>Paths\<close>

lemma split_on_nonempty [simp]: "split_on c s \<noteq> []"
  by (induction s) (auto split: list.splits)

lemma split_on_parts: "p \<in> set (split_on c s) \<Longrightarrow> c \<notin> set p"
  by (induction s arbitrary: p) (auto split: list.splits if_splits)

lemma split_on_sep: "c \<notin> set p \<Longrightarrow> split_on c (p @ c # s) = p # split_on c s"
  by (induction p) (auto split: list.splits)

lemma split_on_single: "c \<notin> set p \<Longrightarrow> split_on c p = [p]"
  by (induction p) auto

lemma split_join: "ps \<noteq> [] \<Longrightarrow> \<forall>p \<in> set ps. c \<notin> set p \<Longrightarrow> split_on c (join_with c ps) = ps"
  by (induction ps rule: join_with.induct) (auto simp: split_on_sep split_on_single)

lemma resolve_parts_clean:
  "\<forall>p \<in> set parts. SLASH \<notin> set p \<Longrightarrow> \<forall>c \<in> set cs. clean_component c \<Longrightarrow> \<forall>c \<in> set (resolve_parts cs parts). clean_component c"
proof (induction parts arbitrary: cs)
  case (Cons p ps)
  have ps: "\<forall>q \<in> set ps. SLASH \<notin> set q" using Cons.prems(1) by simp
  consider "p = [] \<or> p = lit ''.''" | "\<not> (p = [] \<or> p = lit ''.'')" "p = lit ''..''"
    | "\<not> (p = [] \<or> p = lit ''.'')" "p \<noteq> lit ''..''" by blast
  then show ?case
  proof cases
    case 1
    then have "resolve_parts cs (p # ps) = resolve_parts cs ps" by simp
    then show ?thesis using Cons.IH [OF ps Cons.prems(2)] by argo
  next
    case 2
    then have "resolve_parts cs (p # ps) = resolve_parts (butlast cs) ps" by simp
    moreover have "\<forall>c \<in> set (butlast cs). clean_component c" using Cons.prems(2) in_set_butlastD by metis
    ultimately show ?thesis using Cons.IH [OF ps, of "butlast cs"] by argo
  next
    case 3
    then have "resolve_parts cs (p # ps) = resolve_parts (cs @ [p]) ps" by simp
    moreover have "\<forall>c \<in> set (cs @ [p]). clean_component c" using 3 Cons.prems by (simp add: clean_component_def)
    ultimately show ?thesis using Cons.IH [OF ps, of "cs @ [p]"] by argo
  qed
qed simp

lemma resolve_parts_id: "\<forall>c \<in> set ps. clean_component c \<Longrightarrow> resolve_parts cs ps = cs @ ps"
  by (induction cs ps rule: resolve_parts.induct) (auto simp: clean_component_def)

lemma normalize_components: "normalize_path p = abs_path (path_components p)"
  by (simp add: normalize_path_def abs_path_def path_components_def Let_def)

lemma path_components_clean: "c \<in> set (path_components p) \<Longrightarrow> clean_component c"
  using resolve_parts_clean [of "split_on SLASH (trim_by is_whitespace p)" "[]"] split_on_parts
  by (auto simp: path_components_def)

lemma dropWhile_hd: "s \<noteq> [] \<Longrightarrow> \<not> p (hd s) \<Longrightarrow> dropWhile p s = s"
  by (cases s) auto

lemma trim_id: "s \<noteq> [] \<Longrightarrow> \<not> p (hd s) \<Longrightarrow> \<not> p (last s) \<Longrightarrow> trim_by p s = s"
  by (simp add: trim_by_def dropWhile_hd hd_rev)

lemma slash_visible: "\<not> is_whitespace SLASH"
  by (simp add: is_whitespace_def SLASH_def)

lemma abs_path_hd: "abs_path cs \<noteq> []" "hd (abs_path cs) = SLASH"
  by (simp_all add: abs_path_def lit_def SLASH_def)

lemma normalize_abs_path:
  assumes "\<forall>c \<in> set cs. clean_component c" and "\<not> is_whitespace (last (abs_path cs))"
  shows "normalize_path (abs_path cs) = abs_path cs"
proof -
  have t: "trim_by is_whitespace (abs_path cs) = abs_path cs"
    using abs_path_hd assms(2) slash_visible by (intro trim_id) simp_all
  have "path_components (abs_path cs) = cs"
  proof (cases "cs = []")
    case True
    then show ?thesis unfolding path_components_def t by (simp add: abs_path_def lit_def SLASH_def)
  next
    case False
    have "split_on SLASH (abs_path cs) = [] # cs"
      using False assms(1) split_join [of cs SLASH] split_on_sep [of SLASH "[]"]
      by (simp add: abs_path_def clean_component_def)
    then show ?thesis unfolding path_components_def t using resolve_parts_id [OF assms(1), of "[]"] by simp
  qed
  then show ?thesis by (simp add: normalize_components)
qed

lemma demo_path: "normalize_path (lit ''../a/./b/../c'') = lit ''/a/c''"
  by (simp add: normalize_path_def trim_by_def lit_def SLASH_def is_whitespace_def Let_def)

subsection \<open>Indexing\<close>

lemma parse_octal_bound: "val < 8 ^ k \<Longrightarrow> parse_octal_loop val bs < 8 ^ (k + length bs)"
proof (induction val bs arbitrary: k rule: parse_octal_loop.induct)
  case (2 val b bs)
  have up: "val < 8 ^ (k + length (b # bs))"
    using "2.prems" by (meson le_add1 less_le_trans one_le_numeral power_increasing)
  show ?case
  proof (cases "0x30 \<le> b \<and> b \<le> 0x37")
    case True
    then have "unat (b - 0x30) \<le> 7" by (auto simp: unat_sub word_le_nat_alt)
    then have "val * 8 + unat (b - 0x30) < 8 ^ Suc k" using "2.prems" by simp
    then have "saturating_add (saturating_mul val 8) (unat (b - 0x30)) < 8 ^ Suc k"
      by (simp add: saturating_add_def saturating_mul_def min_def)
    then show ?thesis using "2.IH"(1) [OF True, of "Suc k"] True by simp
  next
    case False
    have "parse_octal_loop val bs < 8 ^ (k + length (b # bs))" if "b \<noteq> 0" "b \<noteq> 0x20"
    proof -
      have "parse_octal_loop val bs < 8 ^ (k + length bs)" using "2.IH"(2) [OF False _ "2.prems"] that by simp
      also have "\<dots> \<le> 8 ^ (k + length (b # bs))" by (simp add: power_increasing)
      finally show ?thesis .
    qed
    then show ?thesis using False up by auto
  qed
qed simp

lemma parse_header_size: "parse_header h = Some (p, sz, d) \<Longrightarrow> sz < 2 ^ 36"
  using parse_octal_bound [of 0 0 "slice_of 124 136 h"]
  by (auto simp: parse_header_def parse_octal_def Let_def min_def split: if_splits option.splits)

lemma chained_mono: "from \<le> from' \<Longrightarrow> chained from' es len \<Longrightarrow> chained from es len"
  by (cases es) auto

lemma block_bytes: "sz < 2 ^ 36 \<Longrightarrow> div_ceil sz 512 * 512 < 2 ^ 36 + 512" "sz \<le> div_ceil sz 512 * 512"
  using div_ceil_mult_less [of 512 sz] div_ceil_mult_ge [of 512 sz] by auto

lemma index_memory_step:
  assumes "length data < 2 ^ 63" and "offset < 2 ^ 63 + 2 ^ 37"
  shows "index_memory data offset found =
    (if length data < offset + 512 \<or> list_all (\<lambda>b. b = 0) (slice_of offset (offset + 512) data) then Some (Inr found)
     else case parse_header (slice_of offset (offset + 512) data) of
       Some (path, sz, is_dir) \<Rightarrow> index_memory data (offset + 512 + div_ceil sz 512 * 512)
         (found @ [\<lparr>entry_path = path, entry_size = sz, entry_is_dir = is_dir, sector_or_offset = offset + 512\<rparr>])
     | None \<Rightarrow> index_memory data (offset + 512) found)"
proof -
  have a: "usize_add offset 512 = Some (offset + 512)" using assms(2) by (simp add: usize_add_def)
  have b: "usize_mul (div_ceil sz 512) 512 = Some (div_ceil sz 512 * 512)"
    "usize_add (offset + 512) (div_ceil sz 512 * 512) = Some (offset + 512 + div_ceil sz 512 * 512)"
    if "parse_header hd = Some (p, sz, d)" "\<not> length data < offset + 512" for hd p sz d
    using block_bytes(1) [OF parse_header_size [OF that(1)]] that(2) assms(1) by (simp_all add: usize_add_def usize_mul_def)
  show ?thesis
    by (subst index_memory.simps) (auto simp: a b Let_def split: option.splits)
qed

lemma index_memory_total:
  assumes "length data < 2 ^ 63" and "offset < 2 ^ 63 + 2 ^ 37" and "offset mod 512 = 0"
  shows "\<exists>es. index_memory data offset found = Some (Inr (found @ es)) \<and> chained offset es (length data)"
  using assms(2,3)
proof (induction "length data - offset" arbitrary: offset found rule: less_induct)
  case less
  note step = index_memory_step [OF assms(1) less.prems(1), of found]
  show ?case
  proof (cases "length data < offset + 512 \<or> list_all (\<lambda>b. b = 0) (slice_of offset (offset + 512) data)")
    case True
    then have "index_memory data offset found = Some (Inr (found @ []))" using step by simp
    moreover have "chained offset [] (length data)" by simp
    ultimately show ?thesis by blast
  next
    case False
    then have lt: "offset + 512 \<le> length data" "length data - (offset + 512 + k) < length data - offset" for k by auto
    show ?thesis
    proof (cases "parse_header (slice_of offset (offset + 512) data)")
      case None
      obtain es where es: "index_memory data (offset + 512) found = Some (Inr (found @ es))" "chained (offset + 512) es (length data)"
        using less.hyps [of "offset + 512" found] lt(1) lt(2) [of 0] less.prems assms(1) by auto
      moreover have "chained offset es (length data)" using es(2) by (rule chained_mono [rotated]) simp
      ultimately show ?thesis using step False None by auto
    next
      case (Some t)
      obtain path sz d where t: "t = (path, sz, d)" by (metis prod_cases3)
      define e where "e = \<lparr>entry_path = path, entry_size = sz, entry_is_dir = d, sector_or_offset = offset + 512\<rparr>"
      have sz: "sz < 2 ^ 36" using parse_header_size Some t by simp
      have bb: "div_ceil sz 512 * 512 < 2 ^ 36 + 512" "sz \<le> div_ceil sz 512 * 512" using block_bytes sz by blast+
      have "(offset + 512 + div_ceil sz 512 * 512) mod 512 = 0" using less.prems(2) by (simp add: mod_add_eq)
      moreover have "offset + 512 + div_ceil sz 512 * 512 < 2 ^ 63 + 2 ^ 37" using lt bb(1) assms(1) by simp
      ultimately obtain es where es: "index_memory data (offset + 512 + div_ceil sz 512 * 512) (found @ [e]) = Some (Inr ((found @ [e]) @ es))"
        "chained (offset + 512 + div_ceil sz 512 * 512) es (length data)"
        using less.hyps [of "offset + 512 + div_ceil sz 512 * 512" "found @ [e]"] lt(2) by auto
      have "chained offset (e # es) (length data)"
        using lt less.prems(2) sz chained_mono [OF _ es(2)] bb(2) by (simp add: e_def)
      moreover have "index_memory data offset found = Some (Inr (found @ (e # es)))"
        using step False Some t es(1) by (simp add: e_def)
      ultimately show ?thesis by blast
    qed
  qed
qed

subsection \<open>Archives as a writer makes them\<close>

lemma length_octal [simp]: "length (octal k n) = k"
  by (induction k arbitrary: n) auto

lemma parse_octal_octal:
  "n < 8 ^ k \<Longrightarrow> v * 8 ^ k + n < 2 ^ 63 \<Longrightarrow> parse_octal_loop v (octal k n @ rest) = parse_octal_loop (v * 8 ^ k + n) rest"
proof (induction k arbitrary: n rest)
  case (Suc k)
  let ?d = "0x30 + word_of_nat (n mod 8) :: u8"
  have m: "unat (word_of_nat (n mod 8) :: u8) = n mod 8" by (simp add: unat_of_nat)
  have d: "0x30 \<le> ?d \<and> ?d \<le> 0x37" "unat (?d - 0x30) = n mod 8"
    using m by (auto simp: word_le_nat_alt unat_word_ariths)
  have lt: "(v * 8 ^ k + n div 8) * 8 + n mod 8 = v * 8 ^ Suc k + n" by simp
  have b: "n div 8 < 8 ^ k" "v * 8 ^ k + n div 8 < 2 ^ 63" using Suc.prems lt by auto
  have "parse_octal_loop v (octal (Suc k) n @ rest) = parse_octal_loop (v * 8 ^ k + n div 8) (?d # rest)"
    using Suc.IH [OF b, of "?d # rest"] by simp
  also have "\<dots> = parse_octal_loop ((v * 8 ^ k + n div 8) * 8 + n mod 8) rest"
  proof -
    define w where "w = v * 8 ^ k + n div 8"
    have "w * 8 + n mod 8 < 2 ^ 63" using Suc.prems(2) lt by (simp add: w_def)
    then have "saturating_add (saturating_mul w 8) (n mod 8) = w * 8 + n mod 8"
      by (simp add: saturating_add_def saturating_mul_def)
    then show ?thesis using d by (simp flip: w_def)
  qed
  finally show ?case unfolding lt .
qed simp

lemma parse_octal_field: "n < 8 ^ 11 \<Longrightarrow> parse_octal (octal 11 n @ [0]) = n"
  using parse_octal_octal [of n 11 0 "[0]"] by (simp add: parse_octal_def)

lemma slice_skip: "length xs \<le> a \<Longrightarrow> slice_of a b (xs @ ys) = slice_of (a - length xs) (b - length xs) ys"
  by (simp add: slice_of_def)

lemma slice_front: "b \<le> length xs \<Longrightarrow> slice_of a b (xs @ ys) = slice_of a b xs"
  by (cases "a \<le> b") (simp_all add: slice_of_def)

lemma length_name_field [simp]: "length name \<le> 100 \<Longrightarrow> length (name_field name) = 100"
  by (simp add: name_field_def)

lemma length_tar_header: "length name \<le> 100 \<Longrightarrow> length (tar_header name n) = 512"
  by (simp add: tar_header_def)

lemma takeWhile_nonzero: "list_all (\<lambda>b. 0 < b \<and> b < 0x80) bs \<Longrightarrow> takeWhile (\<lambda>b. b \<noteq> 0) (bs @ replicate k 0) = (bs :: u8 list)"
  by (induction bs) (auto simp: takeWhile_replicate)

lemma parse_tar_header:
  assumes "valid_file f"
  shows "parse_header (tar_header (fst f) (length (snd f))) = Some (normalize_path (file_name f), length (snd f), False)"
proof -
  define n where "n = length (snd f)"
  obtain name where f: "fst f = name" by simp
  have v: "name \<noteq> []" "length name \<le> 100" "list_all (\<lambda>b. 0 < b \<and> b < 0x80) name" "last name \<noteq> 0x2F" "n < 8 ^ 11"
    using assms by (auto simp: valid_file_def f n_def)
  let ?h = "tar_header name n"
  have s1: "slice_of 0 100 ?h = name_field name" using v(2) unfolding tar_header_def by (subst slice_front) (simp_all add: slice_of_def)
  have e1: "field_end (name_field name) = length name" using takeWhile_nonzero [OF v(3)] by (simp add: field_end_def name_field_def)
  have s2: "slice_of 0 (length name) ?h = name" using v(2) unfolding tar_header_def name_field_def by (simp add: slice_of_def)
  have s3: "slice_of 124 136 ?h = octal 11 n @ [0]" using v(2) unfolding tar_header_def
    by (simp add: slice_skip del: append_assoc) (simp add: slice_of_def)
  have s4: "?h ! 156 = 0x30" using v(2) unfolding tar_header_def by (simp add: nth_append)
  have s5: "slice_of 345 500 ?h = replicate 155 0" using v(2) unfolding tar_header_def
    by (simp add: slice_skip) (simp add: slice_of_def)
  have last: "last (map unat name) \<noteq> SLASH"
  proof -
    have "last (map unat name) = unat (last name)" using v(1) by (simp add: last_map)
    moreover have "unat (last name) \<noteq> unat (0x2F :: u8)" using v(4) by (simp only: word_unat_eq_iff not_False_eq_True)
    ultimately show ?thesis by (simp add: SLASH_def)
  qed
  have "field_end (replicate 155 0) = 0" by (simp add: field_end_def takeWhile_replicate)
  then show ?thesis
    using v last length_tar_header [OF v(2), of n] s4 parse_octal_field [OF v(5)] from_utf8_ascii [OF v(3)]
    by (simp add: parse_header_def Let_def s1 e1 s2 s3 s5 f file_name_def flip: n_def)
qed

lemma length_tar_file:
  "valid_file f \<Longrightarrow> length (tar_file f) = 512 + div_ceil (length (snd f)) 512 * 512"
  using block_bytes(2) [of "length (snd f)"] by (simp add: tar_file_def length_tar_header valid_file_def)

lemma slice_at: "slice_of (length xs) (length xs + length ys) (xs @ ys @ zs) = ys"
  by (simp add: slice_of_def)

lemma header_nonzero: "valid_file f \<Longrightarrow> \<not> list_all (\<lambda>b. b = 0) (tar_header (fst f) n)"
  by (cases "fst f") (auto simp: valid_file_def tar_header_def name_field_def)

lemma index_files:
  assumes "\<forall>f \<in> set files. valid_file f" and "length (pre @ tar_archive files) < 2 ^ 63"
  shows "index_memory (pre @ tar_archive files) (length pre) found = Some (Inr (found @ file_entries (length pre) files))"
  using assms
proof (induction files arbitrary: pre found)
  case Nil
  have "list_all (\<lambda>b. b = 0) (slice_of (length pre) (length pre + 512) (pre @ replicate 1024 0))"
    by (simp add: slice_of_def list_all_iff)
  then show ?case using Nil index_memory_step [of "pre @ tar_archive []" "length pre" found] by (simp add: tar_archive_def)
next
  case (Cons f files)
  let ?data = "pre @ tar_archive (f # files)" and ?h = "tar_header (fst f) (length (snd f))"
  have v: "valid_file f" using Cons.prems(1) by simp
  have lh: "length ?h = 512" using v by (simp add: length_tar_header valid_file_def)
  have arch: "tar_archive (f # files) = tar_file f @ tar_archive files" by (simp add: tar_archive_def)
  have h: "slice_of (length pre) (length pre + 512) ?data = ?h"
    using slice_at [of pre ?h] unfolding arch tar_file_def lh by simp
  have len: "\<not> length ?data < length pre + 512" using lh by (simp add: arch tar_file_def)
  note step = index_memory_step [of ?data "length pre" found]
  have off: "length pre + 512 + div_ceil (length (snd f)) 512 * 512 = length (pre @ tar_file f)" using length_tar_file [OF v] by simp
  have d: "?data = (pre @ tar_file f) @ tar_archive files" using arch by simp
  define e where "e = \<lparr>entry_path = normalize_path (file_name f), entry_size = length (snd f), entry_is_dir = False,
    sector_or_offset = length pre + 512\<rparr>"
  have "index_memory ?data (length pre) found = index_memory ?data (length (pre @ tar_file f)) (found @ [e])"
    using step Cons.prems(2) h len header_nonzero [OF v] parse_tar_header [OF v] unfolding off [symmetric] e_def by simp
  also have "\<dots> = Some (Inr ((found @ [e]) @ file_entries (length (pre @ tar_file f)) files))"
    unfolding d using Cons.IH [of "pre @ tar_file f" "found @ [e]"] Cons.prems d by simp
  finally show ?case by (simp add: e_def)
qed

lemma file_entry_data:
  assumes "\<forall>f \<in> set files. valid_file f" and "i < length files"
  shows "entry_path (file_entries (length pre) files ! i) = normalize_path (file_name (files ! i)) \<and>
    \<not> entry_is_dir (file_entries (length pre) files ! i) \<and>
    (let e = file_entries (length pre) files ! i; data = pre @ tar_archive files
     in sector_or_offset e + entry_size e \<le> length data \<and> slice_of (sector_or_offset e) (sector_or_offset e + entry_size e) data = snd (files ! i))"
  using assms
proof (induction files arbitrary: pre i)
  case (Cons f files)
  have v: "valid_file f" using Cons.prems(1) by simp
  have arch: "pre @ tar_archive (f # files) = (pre @ tar_file f) @ tar_archive files" by (simp add: tar_archive_def)
  show ?case
  proof (cases i)
    case 0
    have lh: "length (tar_header (fst f) (length (snd f))) = 512" using v by (simp add: length_tar_header valid_file_def)
    then have "slice_of (length pre + 512) (length pre + 512 + length (snd f)) ((pre @ tar_file f) @ tar_archive files) = snd f"
      using slice_at [of "pre @ tar_header (fst f) (length (snd f))" "snd f"] by (simp add: tar_file_def)
    then show ?thesis unfolding arch using 0 lh by (simp add: Let_def tar_file_def)
  next
    case (Suc j)
    then show ?thesis unfolding arch using Cons.IH [of j "pre @ tar_file f"] Cons.prems by (simp add: Let_def)
  qed
qed simp

lemma length_file_entries [simp]: "length (file_entries at files) = length files"
  by (induction files arbitrary: at) auto

subsection \<open>The same archive on a block device\<close>

lemma slice_append: "a \<le> b \<Longrightarrow> b \<le> c \<Longrightarrow> slice_of a b xs @ slice_of b c xs = slice_of a c xs"
proof -
  assume h: "a \<le> b" "b \<le> c"
  have "take (b - a) (drop a xs) @ take (c - b) (drop (b - a) (drop a xs)) = take (b - a + (c - b)) (drop a xs)"
    by (simp only: take_add)
  then show ?thesis using h by (simp add: slice_of_def)
qed

lemma read_chunks_holds:
  assumes "holds dev data"
  shows "unat start + i + n < 2 ^ 64 \<Longrightarrow> read_chunks dev start i n =
    Some (if n = 0 \<or> unat start + i + n \<le> unat (capacity_sectors dev)
          then Some (slice_of (512 * (unat start + i)) (512 * (unat start + i + n)) data) else None)"
proof (induction n arbitrary: i)
  case 0
  then show ?case by (simp add: slice_of_def)
next
  case (Suc n)
  have i: "unat (word_of_nat i :: u64) = i" using Suc.prems by (simp add: unat_of_nat)
  then obtain s where s: "checked_add_w start (word_of_nat i) = Some s" "unat s = unat start + i"
    using Suc.prems by (simp add: checked_add_w_def unat_plus_no_overflow)
  have rs: "read_sector dev s = (if unat start + i < unat (capacity_sectors dev)
      then Some (slice_of (512 * (unat start + i)) (512 * (unat start + i) + 512) data) else None)"
    using assms s(2) by (simp add: holds_def word_less_nat_alt)
  have ih: "read_chunks dev start (i + 1) n =
    Some (if n = 0 \<or> unat start + i + Suc n \<le> unat (capacity_sectors dev)
          then Some (slice_of (512 * (unat start + i) + 512) (512 * (unat start + i + Suc n)) data) else None)"
    using Suc.IH [of "i + 1"] Suc.prems by (simp add: algebra_simps)
  have ap: "slice_of (512 * (unat start + i)) (512 * (unat start + i) + 512) data @
      slice_of (512 * (unat start + i) + 512) (512 * (unat start + i + Suc n)) data =
      slice_of (512 * (unat start + i)) (512 * (unat start + i + Suc n)) data"
    by (rule slice_append) simp_all
  show ?case using s(1) rs ih ap by (auto simp: Let_def split: if_splits)
qed

lemma index_device_holds:
  assumes "holds dev data" and "512 * unat s < 2 ^ 63 + 2 ^ 37"
  shows "index_device dev (capacity_sectors dev) s (map to_sector found) =
    map_option (map_sum id (map to_sector)) (index_memory data (512 * unat s) found)"
  using assms(2)
proof (induction "unat (capacity_sectors dev) - unat s" arbitrary: s found rule: less_induct)
  case less
  let ?cap = "capacity_sectors dev"
  have len: "length data = 512 * unat ?cap" "length data < 2 ^ 63" using assms(1) by (auto simp: holds_def)
  note step = index_memory_step [OF len(2) less.prems, of found]
  show ?case
  proof (cases "?cap \<le> s")
    case True
    then show ?thesis using step len by (simp add: index_device.simps word_le_nat_alt)
  next
    case False
    then have lt: "unat s < unat ?cap" "512 * unat s + 512 \<le> length data" using len by (simp_all add: word_less_nat_alt not_le)
    define h where "h = slice_of (512 * unat s) (512 * unat s + 512) data"
    have rb: "read_blocks (Some dev) s 512 = Some (Some h)"
      using read_chunks_holds [OF assms(1), of s 0 1] lt len less.prems by (simp add: read_blocks_def h_def algebra_simps)
    have one: "checked_add_w s 1 = Some (s + 1)" "unat (s + 1) = unat s + 1"
      using lt len(1,2) by (simp_all add: checked_add_w_def unat_plus_no_overflow)
    show ?thesis
    proof (cases "list_all (\<lambda>b. b = 0) h")
      case True
      then show ?thesis using False rb lt step by (simp add: index_device.simps [of dev ?cap s] h_def)
    next
      case nz: False
      show ?thesis
      proof (cases "parse_header h")
        case None
        have "index_device dev ?cap (s + 1) (map to_sector found) =
            map_option (map_sum id (map to_sector)) (index_memory data (512 * unat (s + 1)) found)"
          using less.hyps [of "s + 1" found] lt one(2) less.prems len by simp
        then show ?thesis using False nz None rb lt step one
          by (simp add: index_device.simps [of dev ?cap s] h_def add.commute)
      next
        case (Some t)
        obtain path sz d where t: "t = (path, sz, d)" by (metis prod_cases3)
        define e where "e = \<lparr>entry_path = path, entry_size = sz, entry_is_dir = d, sector_or_offset = 512 * unat s + 512\<rparr>"
        have sz: "sz < 2 ^ 36" using parse_header_size Some t by simp
        have bb: "div_ceil sz 512 * 512 < 2 ^ 36 + 512" using block_bytes(1) [OF sz] .
        have c: "unat (word_of_nat (div_ceil sz 512) :: u64) = div_ceil sz 512" using bb by (simp add: unat_of_nat)
        let ?s = "s + 1 + word_of_nat (div_ceil sz 512)"
        have s': "checked_add_w (s + 1) (word_of_nat (div_ceil sz 512)) = Some ?s" "unat ?s = unat s + 1 + div_ceil sz 512"
          using one(2) c bb lt len by (simp_all add: checked_add_w_def unat_plus_no_overflow)
        have "index_device dev ?cap ?s (map to_sector (found @ [e])) =
            map_option (map_sum id (map to_sector)) (index_memory data (512 * unat ?s) (found @ [e]))"
          using less.hyps [of ?s "found @ [e]"] lt s'(2) bb len by simp
        moreover have "to_sector e = \<lparr>entry_path = path, entry_size = sz, entry_is_dir = d, sector_or_offset = unat (s + 1)\<rparr>"
          using one(2) by (simp add: to_sector_def e_def)
        moreover have "512 * unat ?s = 512 * unat s + 512 + div_ceil sz 512 * 512" using s'(2) by simp
        ultimately show ?thesis using False nz Some t rb lt step one s'(1)
          by (simp add: index_device.simps [of dev ?cap s] h_def e_def)
      qed
    qed
  qed
qed

lemma to_sector_simps [simp]:
  "entry_path (to_sector e) = entry_path e" "entry_size (to_sector e) = entry_size e" "entry_is_dir (to_sector e) = entry_is_dir e"
  "sector_or_offset (to_sector e) = sector_or_offset e div 512"
  by (simp_all add: to_sector_def)

lemma list_loop_to_sector: "list_loop d p (map to_sector es) r = list_loop d p es r"
  by (induction es arbitrary: r) (simp_all only: list.map list_loop.simps to_sector_simps)

lemma find_to_sector: "find (\<lambda>e. entry_path e = q) (map to_sector es) = map_option to_sector (find (\<lambda>e. entry_path e = q) es)"
  by (induction es) auto

lemma chained_member:
  "chained from es len \<Longrightarrow> e \<in> set es \<Longrightarrow> sector_or_offset e \<le> len \<and> sector_or_offset e mod 512 = 0 \<and> entry_size e < 2 ^ 36"
  by (induction es arbitrary: "from") auto

lemma aligned_fits:
  fixes a c k :: nat
  assumes "a mod 512 = 0" and "a \<le> 512 * k"
  shows "a + c \<le> 512 * k \<longleftrightarrow> a div 512 + div_ceil c 512 \<le> k"
proof -
  obtain q where q: "a = 512 * q" using assms(1) by auto
  define d r where "d = c div 512" and "r = c mod 512"
  have c: "c = 512 * d + r" "r < 512" by (simp_all add: d_def r_def)
  have "div_ceil c 512 = d + (if r = 0 then 0 else 1)" by (simp add: div_ceil_def d_def r_def)
  then show ?thesis using c by (auto simp: q)
qed

lemma read_file_holds:
  assumes "holds dev data" and "device env = Some dev" and "sector_or_offset e \<le> length data" and "sector_or_offset e mod 512 = 0"
    and "entry_size e < 2 ^ 36" and "div_ceil (entry_size e) 512 * 512 \<le> heap_room env"
  shows "read_file env \<lparr>backing = BlockDevice, entries = es'\<rparr> (to_sector e) = read_file env \<lparr>backing = Memory data, entries = es\<rparr> e"
proof (cases "entry_is_dir e")
  case True
  then show ?thesis by (simp add: read_file_def read_file_cow_def)
next
  case False
  define k where "k = unat (capacity_sectors dev)"
  define q where "q = sector_or_offset e div 512"
  define n where "n = div_ceil (entry_size e) 512"
  have len: "length data = 512 * k" "length data < 2 ^ 63" using assms(1) by (auto simp: holds_def k_def)
  have off: "sector_or_offset e = 512 * q" using assms(4) mult_div_mod_eq [of 512 "sector_or_offset e"] by (simp add: q_def)
  have n: "n * 512 < 2 ^ 36 + 512" "entry_size e \<le> n * 512" using block_bytes [of "entry_size e"] assms(5) by (simp_all add: n_def)
  have uq: "unat (word_of_nat q :: u64) = q" using off assms(3) len by (simp add: unat_of_nat)
  have fits: "sector_or_offset e + entry_size e \<le> length data \<longleftrightarrow> q + n \<le> k"
    using aligned_fits [OF assms(4), of k "entry_size e"] assms(3) by (simp add: len q_def n_def)
  have zero: "n = 0 \<Longrightarrow> q + n \<le> k" using off assms(3) len by simp
  have "read_blocks (Some dev) (word_of_nat q) (n * 512) =
      Some (if q + n \<le> k then Some (slice_of (512 * q) (512 * q + 512 * n) data) else None)"
    using read_chunks_holds [OF assms(1), of "word_of_nat q" 0 n] uq n(1) off assms(3) len zero
    by (auto simp: read_blocks_def k_def algebra_simps)
  moreover have "take (entry_size e) (slice_of (512 * q) (512 * q + 512 * n) data) = slice_of (512 * q) (512 * q + entry_size e) data"
    using n(2) by (simp add: slice_of_def min_def)
  ultimately show ?thesis
    using False fits assms(2,3,5,6) off n(1) len(2)
    by (auto simp: read_file_def read_file_cow_def Let_def usize_mul_def usize_add_def simp flip: n_def q_def)
qed

subsection \<open>Listing a directory\<close>

lemma starts_with_iff: "starts_with s p \<longleftrightarrow> (\<exists>t. s = p @ t)"
  by (induction s p rule: starts_with.induct) auto

lemma list_loop_step:
  assumes "p = dir_prefix d"
  shows "list_loop d p (e # es) rs =
    (if \<exists>name. listed d p e name \<and> name \<notin> dir_name ` set rs
     then list_loop d p es (rs @ [\<lparr>dir_name = drop (length p) (entry_path e), dir_is_dir = entry_is_dir e, dir_size = entry_size e\<rparr>])
     else list_loop d p es rs)"
proof -
  have ne: "entry_path e \<noteq> d" if "listed d p e name" for name
    using that assms by (auto simp: listed_def dir_prefix_def lit_def split: if_splits)
  have trim: "trim_by (\<lambda>c. c = SLASH) name = name" if "SLASH \<notin> set name" for name
  proof (cases "name = []")
    case False
    have "hd name \<noteq> SLASH" "last name \<noteq> SLASH" using that hd_in_set [OF False] last_in_set [OF False] by metis+
    then show ?thesis using False by (simp add: trim_id)
  qed (simp add: trim_by_def)
  have ex: "list_ex (\<lambda>r. dir_name r = n) rs \<longleftrightarrow> n \<in> dir_name ` set rs" for n by (auto simp: list_ex_iff)
  show ?thesis
  proof (cases "starts_with (entry_path e) p")
    case True
    then obtain t where t: "entry_path e = p @ t" by (auto simp: starts_with_iff)
    have cond: "(SLASH \<notin> set t \<or> entry_is_dir e \<and> length (filter (\<lambda>c. c = SLASH) t) = 0) \<longleftrightarrow> SLASH \<notin> set t"
      by (auto simp: filter_empty_conv)
    have li: "listed d p e name \<longleftrightarrow> name = t \<and> t \<noteq> [] \<and> SLASH \<notin> set t" for name by (auto simp: listed_def t)
    have dr: "drop (length p) (entry_path e) = t" by (simp add: t)
    have un: "list_loop d p (e # es) rs =
      (if entry_path e \<noteq> d \<and> SLASH \<notin> set t \<and> trim_by (\<lambda>c. c = SLASH) t \<noteq> [] \<and> trim_by (\<lambda>c. c = SLASH) t \<notin> dir_name ` set rs
       then list_loop d p es (rs @ [\<lparr>dir_name = trim_by (\<lambda>c. c = SLASH) t, dir_is_dir = entry_is_dir e, dir_size = entry_size e\<rparr>])
       else list_loop d p es rs)"
      using True unfolding list_loop.simps Let_def dr cond ex by simp
    show ?thesis
    proof (cases "t \<noteq> [] \<and> SLASH \<notin> set t")
      case True
      then have "entry_path e \<noteq> d" using ne li by blast
      then show ?thesis unfolding un li using True trim [of t] t by simp
    next
      case False
      then have "\<not> (SLASH \<notin> set t \<and> trim_by (\<lambda>c. c = SLASH) t \<noteq> [])" by (auto simp: trim_by_def)
      then show ?thesis unfolding un li using False by auto
    qed
  qed (auto simp: starts_with_iff listed_def)
qed

lemma list_loop_spec:
  assumes "p = dir_prefix d" and "distinct (map dir_name rs)"
  shows "distinct (map dir_name (list_loop d p es rs)) \<and>
    (\<forall>r. r \<in> set (list_loop d p es rs) \<longleftrightarrow> r \<in> set rs \<or> dir_name r \<notin> dir_name ` set rs \<and> shows_child p es r)"
  using assms(2)
proof (induction es arbitrary: rs)
  case Nil
  then show ?case by (auto simp: shows_child_def)
next
  case (Cons e es)
  show ?case
  proof (cases "\<exists>name. listed d p e name \<and> name \<notin> dir_name ` set rs")
    case True
    then obtain name where n: "listed d p e name" "name \<notin> dir_name ` set rs" by blast
    let ?r = "\<lparr>dir_name = name, dir_is_dir = entry_is_dir e, dir_size = entry_size e\<rparr>"
    have st: "list_loop d p (e # es) rs = list_loop d p es (rs @ [?r])"
      using True n(1) by (simp only: list_loop_step [OF assms(1)] if_True) (simp add: listed_def)
    have "shows_child p (e # es) r \<longleftrightarrow> r = ?r \<or> dir_name r \<noteq> name \<and> shows_child p es r" for r
      using n(1) by (cases r) (auto simp: shows_child_def listed_def)
    then show ?thesis using Cons.IH [of "rs @ [?r]"] Cons.prems n(2) unfolding st by auto
  next
    case False
    then have st: "list_loop d p (e # es) rs = list_loop d p es rs" by (simp only: list_loop_step [OF assms(1)] if_False)
    have "shows_child p (e # es) r \<longleftrightarrow> shows_child p es r" if "dir_name r \<notin> dir_name ` set rs" for r
      using False that by (auto simp: shows_child_def listed_def)
    then show ?thesis using Cons.IH [OF Cons.prems] unfolding st by blast
  qed
qed

subsection \<open>A concrete archive\<close>

lemma demo_valid: "\<forall>f \<in> set demo_files. valid_file f"
  by (simp add: demo_files_def valid_file_def)

lemma demo_archive_length: "length (tar_archive demo_files) = 2560"
  using demo_valid by (simp add: tar_archive_def demo_files_def length_tar_file div_ceil_def)

lemma demo_names:
  "file_name ([0x61], c) = lit ''a''" "file_name ([0x62, 0x2F, 0x63], c) = lit ''b/c''"
  "normalize_path (lit ''a'') = lit ''/a''" "normalize_path (lit ''b/c'') = lit ''/b/c''"
  by (simp_all add: file_name_def lit_def normalize_path_def trim_by_def SLASH_def is_whitespace_def Let_def)

lemma demo_distinct: "distinct (map (\<lambda>f. normalize_path (file_name f)) demo_files)"
  by (simp add: demo_files_def demo_names) (simp add: lit_def)

lemma demo_index: "from_memory (tar_archive demo_files) = Some (Inr \<lparr>backing = Memory (tar_archive demo_files), entries = file_entries 0 demo_files\<rparr>)"
  using index_files [OF demo_valid, of "[]" "[]"] by (simp add: from_memory_def demo_archive_length)

lemma demo_holds: "holds demo_disk (tar_archive demo_files)"
  by (simp add: holds_def demo_disk_def demo_archive_length)

subsection \<open>Properties\<close>

text \<open>C29: every slice is indexed without an error and without an overflow, whatever it holds: the sizes in headers are
  below \<open>2 ^ 36\<close>, the contents of the entries start at sector boundaries inside the slice and follow one another without overlap.\<close>

theorem from_memory_total:
  "length data < 2 ^ 63 \<Longrightarrow>
   \<exists>fs. from_memory data = Some (Inr fs) \<and> backing fs = Memory data \<and> chained 0 (all_entries fs) (length data)"
  using index_memory_total [of data 0 "[]"] by (auto simp: from_memory_def all_entries_def)

theorem from_memory_total_witness:
  "\<exists>fs. from_memory (tar_archive demo_files) = Some (Inr fs) \<and> chained 0 (all_entries fs) 2560"
  using from_memory_total [of "tar_archive demo_files"] by (auto simp: demo_archive_length)

text \<open>C31: a normalised path is absolute, and no component of it is empty, a single or a double dot: nothing escapes
  the root. Normalising twice changes nothing, unless the path ends in white space.\<close>

theorem normalize_path_canonical:
  "\<exists>cs. normalize_path p = abs_path cs \<and> (\<forall>c \<in> set cs. clean_component c) \<and>
     (\<not> is_whitespace (last (normalize_path p)) \<longrightarrow> normalize_path (normalize_path p) = normalize_path p)"
  using normalize_abs_path [of "path_components p"] path_components_clean [of _ p]
  by (intro exI [of _ "path_components p"]) (auto simp: normalize_components [of p])

theorem normalize_path_canonical_witness: "normalize_path (normalize_path (lit ''../a/./b/../c'')) = lit ''/a/c''"
proof -
  have "\<not> is_whitespace (last (normalize_path (lit ''../a/./b/../c'')))"
    by (simp only: demo_path) (simp add: lit_def is_whitespace_def)
  then show ?thesis using normalize_path_canonical [of "lit ''../a/./b/../c''"] demo_path by metis
qed

text \<open>C32: a listing has each child of the directory exactly once, by its first entry in the archive, and nothing else.\<close>

theorem list_dir_children:
  "distinct (map dir_name (fs_list_dir fs path)) \<and>
   (\<forall>r. r \<in> set (fs_list_dir fs path) \<longleftrightarrow> shows_child (dir_prefix (normalize_path path)) (all_entries fs) r)"
  using list_loop_spec [OF refl, of "[]" "normalize_path path" "entries fs"]
  by (simp add: fs_list_dir_def dir_prefix_def all_entries_def Let_def)

text \<open>The exception is visible: a directory whose name ends in a space is listed under that name, but looking
  it up under the listed name does not find it.\<close>

theorem trailing_space_directory_lost:
  "let fs = \<lparr>backing = Memory [], entries = [\<lparr>entry_path = normalize_path (lit ''a /''), entry_size = 0, entry_is_dir = True, sector_or_offset = 512\<rparr>]\<rparr>
   in map dir_name (fs_list_dir fs (lit ''/'')) = [lit ''a ''] \<and> fs_stat fs (lit ''/a '') = Inl NotFound"
  by (simp add: Let_def fs_list_dir_def fs_stat_def find_entry_def normalize_path_def trim_by_def lit_def SLASH_def is_whitespace_def)

end
