(* ===== verification/Vfs.thy ===== *)
theory Vfs
  imports Tar_Fs
begin

text \<open>
  The file operations over the mounted file system, \<^verbatim>\<open>kernel/src/fs/vfs.rs\<close>, and the live ramdisk
  that mounts it, \<^verbatim>\<open>kernel/src/fs/ramdisk.rs\<close>. The global \<^verbatim>\<open>VFS\<close> is the argument of type
  \<^typ>\<open>tar_fs option\<close>; \<open>None\<close> as the outer result is a panic.
\<close>

subsection \<open>File handles\<close>

record file_handle =
  handle_path :: str
  handle_size :: usize
  cursor :: usize
  handle_data :: cow

definition handle_new :: "str \<Rightarrow> u8 list \<Rightarrow> file_handle" where
  "handle_new path bs = \<lparr>handle_path = path, handle_size = length bs, cursor = 0, handle_data = Owned bs\<rparr>"

definition from_borrowed :: "str \<Rightarrow> u8 list \<Rightarrow> file_handle" where
  "from_borrowed path bs = \<lparr>handle_path = path, handle_size = length bs, cursor = 0, handle_data = Borrowed bs\<rparr>"

definition from_cow :: "str \<Rightarrow> cow \<Rightarrow> file_handle" where
  "from_cow path c = \<lparr>handle_path = path, handle_size = length (into_owned c), cursor = 0, handle_data = c\<rparr>"

definition is_borrowed :: "file_handle \<Rightarrow> bool" where
  "is_borrowed h = (case handle_data h of Borrowed _ \<Rightarrow> True | Owned _ \<Rightarrow> False)"

definition data_of :: "file_handle \<Rightarrow> u8 list" where
  "data_of h = into_owned (handle_data h)"

definition handle_read :: "file_handle \<Rightarrow> u8 list \<Rightarrow> (file_handle \<times> u8 list \<times> usize) option" where
  "handle_read h buf =
     (if handle_size h \<le> cursor h then Some (h, buf, 0)
      else
        let remaining = handle_size h - cursor h;
            to_copy = min remaining (length buf)
        in if length (data_of h) < cursor h + to_copy then None
           else Some (h\<lparr>cursor := cursor h + to_copy\<rparr>,
                      slice_of (cursor h) (cursor h + to_copy) (data_of h) @ drop to_copy buf, to_copy))"

definition rewind :: "file_handle \<Rightarrow> file_handle" where
  "rewind h = h\<lparr>cursor := 0\<rparr>"

subsection \<open>Operations on the mounted file system\<close>

type_synonym vfs = "tar_fs option"

definition mount_root :: "tar_fs \<Rightarrow> vfs \<Rightarrow> vfs" where
  "mount_root fs v = Some fs"

definition is_mounted :: "vfs \<Rightarrow> bool" where
  "is_mounted v \<longleftrightarrow> v \<noteq> None"

definition vfs_open :: "fs_env \<Rightarrow> vfs \<Rightarrow> str \<Rightarrow> (fs_error + file_handle) option" where
  "vfs_open env v path =
     (case v of
        None \<Rightarrow> Some (Inl NoFileSystemMounted)
      | Some fs \<Rightarrow>
          (case find_entry fs path of
             None \<Rightarrow> Some (Inl NotFound)
           | Some e \<Rightarrow>
               if entry_is_dir e then Some (Inl NotAFile)
               else map_option (map_sum id (from_cow (entry_path e))) (read_file_cow env fs e)))"

definition vfs_read :: "file_handle \<Rightarrow> u8 list \<Rightarrow> (file_handle \<times> u8 list \<times> (fs_error + usize)) option" where
  "vfs_read h buf = map_option (\<lambda>(h', buf', n). (h', buf', Inr n)) (handle_read h buf)"

definition read_all_cow :: "fs_env \<Rightarrow> vfs \<Rightarrow> str \<Rightarrow> (fs_error + cow) option" where
  "read_all_cow env v path =
     (case v of
        None \<Rightarrow> Some (Inl NoFileSystemMounted)
      | Some fs \<Rightarrow>
          (case find_entry fs path of
             None \<Rightarrow> Some (Inl NotFound)
           | Some e \<Rightarrow> read_file_cow env fs e))"

definition read_all :: "fs_env \<Rightarrow> vfs \<Rightarrow> str \<Rightarrow> (fs_error + u8 list) option" where
  "read_all env v path = map_option (map_sum id into_owned) (read_all_cow env v path)"

definition read_to_string :: "fs_env \<Rightarrow> vfs \<Rightarrow> str \<Rightarrow> (fs_error + str) option" where
  "read_to_string env v path =
     (case read_all env v path of
        None \<Rightarrow> None
      | Some (Inl e) \<Rightarrow> Some (Inl e)
      | Some (Inr bs) \<Rightarrow> Some (ok_or IoError (from_utf8 bs)))"

definition vfs_stat :: "vfs \<Rightarrow> str \<Rightarrow> fs_error + file_info" where
  "vfs_stat v path = (case v of None \<Rightarrow> Inl NoFileSystemMounted | Some fs \<Rightarrow> fs_stat fs path)"

definition vfs_list_dir :: "vfs \<Rightarrow> str \<Rightarrow> fs_error + dir_entry list" where
  "vfs_list_dir v path = (case v of None \<Rightarrow> Inl NoFileSystemMounted | Some fs \<Rightarrow> Inr (fs_list_dir fs path))"

subsection \<open>The ramdisk\<close>

record ramdisk =
  rd_data :: "u8 list"
  rd_entry_count :: usize
  rd_total_size :: usize

definition ascii :: "string \<Rightarrow> u8 list" where
  "ascii s = map of_char s"

definition is_valid_archive :: "u8 list \<Rightarrow> bool" where
  "is_valid_archive data \<longleftrightarrow>
     \<not> length data < 512 \<and>
     (slice_of 257 262 data = ascii ''ustar'' \<or>
      slice_of 0 6 data = ascii ''070701'' \<or> slice_of 0 6 data = ascii ''070702'')"

definition ramdisk_new :: "u8 list \<Rightarrow> (fs_error + ramdisk) option" where
  "ramdisk_new data =
     (if \<not> is_valid_archive data then Some (Inl InvalidPath)
      else
        (case from_memory data of
           None \<Rightarrow> None
         | Some (Inl e) \<Rightarrow> Some (Inl e)
         | Some (Inr temp_fs) \<Rightarrow>
             Some (Inr \<lparr>rd_data = data, rd_entry_count = entry_count temp_fs, rd_total_size = length data\<rparr>)))"

definition mount_as_root :: "ramdisk \<Rightarrow> vfs \<Rightarrow> (vfs \<times> (fs_error + unit)) option" where
  "mount_as_root rd v =
     (case from_memory (rd_data rd) of
        None \<Rightarrow> None
      | Some (Inl e) \<Rightarrow> Some (v, Inl e)
      | Some (Inr fs) \<Rightarrow> Some (mount_root fs v, Inr ()))"

definition has_init :: "ramdisk \<Rightarrow> bool option" where
  "has_init rd =
     (case from_memory (rd_data rd) of
        None \<Rightarrow> None
      | Some (Inl _) \<Rightarrow> Some False
      | Some (Inr fs) \<Rightarrow> Some (find_entry fs (lit ''/bin/init'') \<noteq> None \<or> find_entry fs (lit ''/sbin/init'') \<noteq> None))"

definition init_live_rootfs :: "u8 list \<Rightarrow> vfs \<Rightarrow> (vfs \<times> (fs_error + ramdisk)) option" where
  "init_live_rootfs data v =
     (case ramdisk_new data of
        None \<Rightarrow> None
      | Some (Inl e) \<Rightarrow> Some (v, Inl e)
      | Some (Inr rd) \<Rightarrow>
          (case mount_as_root rd v of
             None \<Rightarrow> None
           | Some (v', Inl e) \<Rightarrow> Some (v', Inl e)
           | Some (v', Inr _) \<Rightarrow> Some (v', Inr rd)))"

subsection \<open>Specification vocabulary\<close>

definition handle_ok :: "file_handle \<Rightarrow> bool" where
  "handle_ok h \<longleftrightarrow> handle_size h = length (data_of h)"

text \<open>Reads into buffers of the given sizes, one after the other, and what they deliver.\<close>

fun read_run :: "file_handle \<Rightarrow> nat list \<Rightarrow> (file_handle \<times> u8 list) option" where
  "read_run h [] = Some (h, [])"
| "read_run h (n # ns) =
     (case vfs_read h (replicate n 0) of
        Some (h', buf, Inr k) \<Rightarrow> map_option (\<lambda>(h'', bs). (h'', take k buf @ bs)) (read_run h' ns)
      | _ \<Rightarrow> None)"

definition demo_env :: fs_env where
  "demo_env = \<lparr>device = Some demo_disk, heap_room = 1024\<rparr>"

subsection \<open>Reading a file piece by piece\<close>

lemma find_distinct:
  "distinct (map g xs) \<Longrightarrow> i < length xs \<Longrightarrow> find (\<lambda>x. g x = g (xs ! i)) xs = Some (xs ! i)"
  by (auto simp: find_Some_iff nth_eq_iff_index_eq distinct_conv_nth)

lemma vfs_read_spec:
  assumes "handle_ok h"
  shows "\<exists>h'. vfs_read h buf = Some (h', take (length buf) (drop (cursor h) (data_of h)) @ drop (min (handle_size h - cursor h) (length buf)) buf,
       Inr (min (handle_size h - cursor h) (length buf))) \<and>
    handle_ok h' \<and> data_of h' = data_of h \<and> drop (cursor h') (data_of h') = drop (length buf) (drop (cursor h) (data_of h))"
proof (cases "handle_size h \<le> cursor h")
  case True
  then show ?thesis using assms by (simp add: vfs_read_def handle_read_def handle_ok_def)
next
  case False
  define k where "k = min (handle_size h - cursor h) (length buf)"
  have k: "k \<le> length (data_of h) - cursor h" "cursor h + k \<le> length (data_of h)" using assms False by (auto simp: k_def handle_ok_def)
  have "slice_of (cursor h) (cursor h + k) (data_of h) = take (length buf) (drop (cursor h) (data_of h))"
    using assms by (auto simp: slice_of_def k_def handle_ok_def min_def)
  moreover have "drop (cursor h + k) (data_of h) = drop (cursor h + length buf) (data_of h)"
    using assms by (auto simp: k_def handle_ok_def min_def)
  moreover have "handle_read h buf = Some (h\<lparr>cursor := cursor h + k\<rparr>, slice_of (cursor h) (cursor h + k) (data_of h) @ drop k buf, k)"
    using False k(2) by (simp add: handle_read_def Let_def k_def)
  moreover have "handle_ok (h\<lparr>cursor := cursor h + k\<rparr>)" "data_of (h\<lparr>cursor := cursor h + k\<rparr>) = data_of h"
    using assms by (simp_all add: handle_ok_def data_of_def)
  ultimately show ?thesis by (simp add: vfs_read_def add.commute flip: k_def)
qed

lemma read_run_spec:
  "handle_ok h \<Longrightarrow> \<exists>h'. read_run h ns = Some (h', take (sum_list ns) (drop (cursor h) (data_of h)))"
proof (induction ns arbitrary: h)
  case (Cons n ns)
  let ?rest = "drop (cursor h) (data_of h)" and ?k = "min (handle_size h - cursor h) n"
  obtain h' where h': "vfs_read h (replicate n 0) = Some (h', take n ?rest @ drop ?k (replicate n 0), Inr ?k)"
    "handle_ok h'" "drop (cursor h') (data_of h') = drop n ?rest"
    using vfs_read_spec [OF Cons.prems, of "replicate n 0"] by auto
  have "length (take n ?rest) = ?k" using Cons.prems by (auto simp: handle_ok_def)
  then have t: "take ?k (take n ?rest @ drop ?k (replicate n 0)) = take n ?rest" by (metis append_eq_conv_conj)
  obtain h'' where "read_run h' ns = Some (h'', take (sum_list ns) (drop n ?rest))" using Cons.IH [OF h'(2)] h'(3) by auto
  then have "read_run h (n # ns) = Some (h'', take n ?rest @ take (sum_list ns) (drop n ?rest))" using h'(1) t by simp
  moreover have "take n ?rest @ take (sum_list ns) (drop n ?rest) = take (sum_list (n # ns)) ?rest" by (simp only: take_add sum_list.Cons)
  ultimately show ?case by auto
qed simp

lemma archive_reads:
  assumes "\<forall>f \<in> set files. valid_file f" and "distinct (map (\<lambda>f. normalize_path (file_name f)) files)"
    and "length (tar_archive files) < 2 ^ 63"
  shows "from_memory (tar_archive files) = Some (Inr \<lparr>backing = Memory (tar_archive files), entries = file_entries 0 files\<rparr>)"
    and "f \<in> set files \<Longrightarrow>
      read_all env (Some \<lparr>backing = Memory (tar_archive files), entries = file_entries 0 files\<rparr>) (file_name f) = Some (Inr (snd f))"
proof -
  let ?es = "file_entries 0 files"
  let ?fs = "\<lparr>backing = Memory (tar_archive files), entries = ?es\<rparr>"
  show "from_memory (tar_archive files) = Some (Inr ?fs)"
    using index_files [OF assms(1), of "[]" "[]"] assms(3) by (simp add: from_memory_def)
  show "read_all env (Some ?fs) (file_name f) = Some (Inr (snd f))" if f: "f \<in> set files"
  proof -
    obtain i where i: "i < length files" "files ! i = f" using f by (auto simp: in_set_conv_nth)
    note d = file_entry_data [OF assms(1) i(1), of "[]", simplified, unfolded i(2) Let_def]
    have "map entry_path ?es = map (\<lambda>f. normalize_path (file_name f)) files"
      using file_entry_data [OF assms(1), of _ "[]"] by (auto intro!: nth_equalityI)
    then have "find (\<lambda>e. entry_path e = normalize_path (file_name f)) ?es = Some (?es ! i)"
      using find_distinct [of entry_path ?es i] assms(2) i(1) d by simp
    then show ?thesis using d assms(3)
      by (auto simp: read_all_def read_all_cow_def find_entry_def read_file_cow_def Let_def usize_add_def)
  qed
qed

subsection \<open>Properties\<close>

text \<open>C10: files written into an archive come back: for valid names with distinct normalised paths, mounting the archive
  gives one entry per file, and reading each name gives its bytes.\<close>

theorem archive_round_trip:
  assumes "\<forall>f \<in> set files. valid_file f" and "distinct (map (\<lambda>f. normalize_path (file_name f)) files)"
    and "length (tar_archive files) < 2 ^ 63"
  shows "\<exists>fs. from_memory (tar_archive files) = Some (Inr fs) \<and> entry_count fs = length files \<and>
    (\<forall>f \<in> set files. read_all env (mount_root fs v) (file_name f) = Some (Inr (snd f)))"
  using archive_reads [OF assms] by (simp add: entry_count_def mount_root_def)

theorem archive_round_trip_witness:
  "\<exists>fs. from_memory (tar_archive demo_files) = Some (Inr fs) \<and> read_all demo_env (Some fs) (lit ''a'') = Some (Inr [1, 2, 3])"
  using archive_round_trip [OF demo_valid demo_distinct, of demo_env None]
  by (auto simp: demo_archive_length mount_root_def) (simp add: demo_files_def demo_names)

text \<open>C22: the two backings are equivalent: an archive on a block device answers every query, listing and read exactly
  like the same archive in memory, when the heap has room for its files.\<close>

theorem block_device_agrees:
  assumes "holds dev data" and "device env = Some dev"
    and "\<forall>fs. from_memory data = Some (Inr fs) \<longrightarrow> (\<forall>e \<in> set (all_entries fs). div_ceil (entry_size e) 512 * 512 \<le> heap_room env)"
  shows "\<exists>fs fd. from_memory data = Some (Inr fs) \<and> from_block_device (device env) = Some (Inr fd) \<and>
    (\<forall>path. fs_stat fd path = fs_stat fs path \<and> fs_list_dir fd path = fs_list_dir fs path \<and>
       read_all env (Some fd) path = read_all env (Some fs) path)"
proof -
  have len: "length data < 2 ^ 63" using assms(1) by (simp add: holds_def)
  obtain es where es: "index_memory data 0 [] = Some (Inr es)" "chained 0 es (length data)"
    using index_memory_total [OF len, of 0 "[]"] by auto
  let ?fs = "\<lparr>backing = Memory data, entries = es\<rparr>" and ?fd = "\<lparr>backing = BlockDevice, entries = map to_sector es\<rparr>"
  have m: "from_memory data = Some (Inr ?fs)" using es(1) by (simp add: from_memory_def)
  have d: "from_block_device (device env) = Some (Inr ?fd)"
    using index_device_holds [OF assms(1), of 0 "[]"] es(1) assms(2) by (simp add: from_block_device_def)
  have room: "\<forall>e \<in> set es. div_ceil (entry_size e) 512 * 512 \<le> heap_room env" using assms(3) m by (simp add: all_entries_def)
  have "read_all env (Some ?fd) path = read_all env (Some ?fs) path" for path
  proof (cases "find (\<lambda>e. entry_path e = normalize_path path) es")
    case (Some e)
    then have e: "e \<in> set es" by (auto simp: find_Some_iff)
    have "sector_or_offset e \<le> length data" "sector_or_offset e mod 512 = 0" "entry_size e < 2 ^ 36"
      using chained_member [OF es(2) e] by auto
    from read_file_holds [OF assms(1,2) this] room e
    have "read_file env ?fd (to_sector e) = read_file env ?fs e" by simp
    then show ?thesis using Some by (simp add: read_all_def read_all_cow_def find_entry_def find_to_sector read_file_def)
  qed (simp add: read_all_def read_all_cow_def find_entry_def find_to_sector)
  moreover have "fs_stat ?fd path = fs_stat ?fs path" for path
    by (cases "find (\<lambda>e. entry_path e = normalize_path path) es") (simp_all add: fs_stat_def find_entry_def find_to_sector)
  moreover have "fs_list_dir ?fd path = fs_list_dir ?fs path" for path by (simp add: fs_list_dir_def list_loop_to_sector Let_def)
  ultimately show ?thesis using m d by blast
qed

theorem block_device_agrees_witness:
  "\<exists>fs fd. from_memory (tar_archive demo_files) = Some (Inr fs) \<and> from_block_device (Some demo_disk) = Some (Inr fd) \<and>
     fs_stat fd (lit ''/a'') = fs_stat fs (lit ''/a'')"
proof -
  have env: "device demo_env = Some demo_disk" by (simp add: demo_env_def)
  have "\<forall>fs. from_memory (tar_archive demo_files) = Some (Inr fs) \<longrightarrow>
      (\<forall>e \<in> set (all_entries fs). div_ceil (entry_size e) 512 * 512 \<le> heap_room demo_env)"
    by (simp add: demo_index) (simp add: all_entries_def demo_files_def demo_env_def div_ceil_def)
  from block_device_agrees [OF demo_holds env this] show ?thesis unfolding env by metis
qed

text \<open>C33: reads into buffers of any sizes, one after the other, deliver the file from its start, without a gap and
  without a panic; rewinding starts again.\<close>

theorem reads_deliver_the_file:
  assumes "vfs_open env v path = Some (Inr h)"
  shows "\<exists>bs. read_all env v path = Some (Inr bs) \<and> handle_size h = length bs \<and>
    (\<exists>h'. read_run h ns = Some (h', take (sum_list ns) bs)) \<and> (\<exists>h'. read_run (rewind h) ns = Some (h', take (sum_list ns) bs))"
proof -
  obtain fs e where v: "v = Some fs" "find_entry fs path = Some e"
    "map_option (map_sum id (from_cow (entry_path e))) (read_file_cow env fs e) = Some (Inr h)"
    using assms by (auto simp: vfs_open_def split: option.splits if_splits)
  then obtain r where r: "read_file_cow env fs e = Some r" "map_sum id (from_cow (entry_path e)) r = Inr h" by auto
  then obtain c where "r = Inr c" "h = from_cow (entry_path e) c" by (cases r) auto
  then have c: "v = Some fs" "find_entry fs path = Some e" "read_file_cow env fs e = Some (Inr c)" "h = from_cow (entry_path e) c"
    using v r by simp_all
  have h: "handle_ok h" "data_of h = into_owned c" "cursor h = 0" "handle_size h = length (into_owned c)" "rewind h = h"
    by (simp_all add: c(4) from_cow_def handle_ok_def data_of_def rewind_def)
  have "read_all env v path = Some (Inr (into_owned c))" using c by (simp add: read_all_def read_all_cow_def)
  then show ?thesis using read_run_spec [OF h(1), of ns] h by simp
qed

theorem reads_deliver_the_file_witness:
  "\<exists>h h'. vfs_open demo_env (Some \<lparr>backing = Memory [9, 8, 7], entries = [\<lparr>entry_path = lit ''/a'', entry_size = 2, entry_is_dir = False, sector_or_offset = 1\<rparr>]\<rparr>)
       (lit ''a'') = Some (Inr h) \<and> read_run h [1, 5] = Some (h', [8, 7])"
proof -
  let ?v = "Some \<lparr>backing = Memory [9, 8, 7], entries = [\<lparr>entry_path = lit ''/a'', entry_size = 2, entry_is_dir = False, sector_or_offset = 1\<rparr>]\<rparr>"
  have o: "vfs_open demo_env ?v (lit ''a'') = Some (Inr (from_cow (lit ''/a'') (Borrowed [8, 7])))"
    by (simp add: vfs_open_def find_entry_def demo_names read_file_cow_def usize_add_def slice_of_def)
  have r: "read_all demo_env ?v (lit ''a'') = Some (Inr [8, 7])"
    by (simp add: read_all_def read_all_cow_def find_entry_def demo_names read_file_cow_def usize_add_def slice_of_def)
  from reads_deliver_the_file [OF o, of "[1, 5]"] r o show ?thesis by auto
qed

end
