(* ===== verification/User_Memory.thy ===== *)
theory User_Memory
  imports Paging
begin

text \<open>
  The memory of user programs as ring 0 reaches it through the page tables, for the slices that the system call handlers
  make from user pointers (\<^verbatim>\<open>core::slice::from_raw_parts\<close> in \<^verbatim>\<open>kernel/src/arch/x86_64/userspace.rs\<close>).

  A byte at a virtual address is a byte of the 64-bit word at its translation, in the window of theory \<open>Paging\<close>; an access
  to an address without translation, or a write to a read-only page, is \<open>None\<close>: the page fault that the handler of
  \<^verbatim>\<open>kernel/src/arch/x86_64/interrupts.rs\<close> turns into a panic when it happens in ring 0. The lemmas show that writes through
  user addresses leave every table alone and are read back, and that \<^verbatim>\<open>mmap_user_pages\<close> and \<^verbatim>\<open>munmap_user_pages\<close> keep user
  space apart from the tables. The locale states this contract for the clients.
\<close>

subsection \<open>Bytes behind virtual addresses\<close>

definition byte_of :: "u64 \<Rightarrow> nat \<Rightarrow> u8" where
  "byte_of w i = ucast (drop_bit (8 * i) w)"

definition set_byte_of :: "u64 \<Rightarrow> nat \<Rightarrow> u8 \<Rightarrow> u64" where
  "set_byte_of w i b = (w AND NOT (push_bit (8 * i) 0xFF)) OR push_bit (8 * i) (ucast b)"

definition word_place :: "mapper \<Rightarrow> u64 \<Rightarrow> u64" where
  "word_place m pa = virtual_of m (pa AND NOT 7)"

definition byte_index :: "u64 \<Rightarrow> nat" where
  "byte_index pa = unat (pa AND 7)"

definition read_byte :: "mapper \<Rightarrow> mem \<Rightarrow> u64 \<Rightarrow> u8" where
  "read_byte m mem pa = byte_of (mem (word_place m pa)) (byte_index pa)"

definition write_byte :: "mapper \<Rightarrow> u64 \<Rightarrow> u8 \<Rightarrow> mem \<Rightarrow> mem" where
  "write_byte m pa b mem =
     mem(word_place m pa := set_byte_of (mem (word_place m pa)) (byte_index pa) b)"

text \<open>A write needs the writable bit in every entry on the way: both boot loaders hand over with write protection on in ring 0.\<close>

fun writable_from :: "mapper \<Rightarrow> mem \<Rightarrow> nat \<Rightarrow> u64 \<Rightarrow> u64 \<Rightarrow> bool" where
  "writable_from m mem 0 table va = True"
| "writable_from m mem (Suc l) table va =
     (let e = mem (entry m table (table_index va (Suc l)))
      in e AND PRESENT \<noteq> 0 \<and> e AND WRITABLE \<noteq> 0 \<and>
         (0 < l \<and> e AND HUGE \<noteq> 0 \<or> writable_from m mem l (e AND ADDRESS_MASK) va))"

definition writable :: "mapper \<Rightarrow> mem \<Rightarrow> u64 \<Rightarrow> bool" where
  "writable m mem va = writable_from m mem 4 (root_table m) va"

definition load_byte :: "mapper \<Rightarrow> mem \<Rightarrow> u64 \<Rightarrow> u8 option" where
  "load_byte m mem va = map_option (read_byte m mem) (translate m mem va)"

definition store_byte :: "mapper \<Rightarrow> u64 \<Rightarrow> u8 \<Rightarrow> mem \<Rightarrow> mem option" where
  "store_byte m va b mem =
     (if writable m mem va then map_option (\<lambda>pa. write_byte m pa b mem) (translate m mem va) else None)"

fun load_bytes :: "mapper \<Rightarrow> mem \<Rightarrow> u64 \<Rightarrow> nat \<Rightarrow> u8 list option" where
  "load_bytes m mem va 0 = Some []"
| "load_bytes m mem va (Suc n) =
     (case load_byte m mem va of
        None \<Rightarrow> None
      | Some b \<Rightarrow> map_option ((#) b) (load_bytes m mem (va + 1) n))"

fun store_bytes :: "mapper \<Rightarrow> u64 \<Rightarrow> u8 list \<Rightarrow> mem \<Rightarrow> mem option" where
  "store_bytes m va [] mem = Some mem"
| "store_bytes m va (b # bs) mem =
     (case store_byte m va b mem of
        None \<Rightarrow> None
      | Some mem' \<Rightarrow> store_bytes m (va + 1) bs mem')"

subsection \<open>Specification vocabulary\<close>

text \<open>The frame of a physical address, and the index of its word there.\<close>

definition frame_of :: "u64 \<Rightarrow> u64" where
  "frame_of pa = pa AND NOT 0xFFF"

definition slot_of :: "u64 \<Rightarrow> nat" where
  "slot_of pa = unat (pa AND 0xFFF) div 8"

text \<open>No user address reaches a page table or a free frame, and no two user addresses reach the same byte.\<close>

definition user_space_ok :: "mapper \<Rightarrow> mem \<Rightarrow> frame_allocator \<Rightarrow> bool" where
  "user_space_ok m mem fa \<longleftrightarrow>
     (\<forall>va pa. va < USER_ADDRESS_LIMIT \<longrightarrow> translate m mem va = Some pa \<longrightarrow>
        no_table m mem (frame_of pa) \<and> handed_out fa (frame_of pa)) \<and>
     (\<forall>va va' pa. va < USER_ADDRESS_LIMIT \<longrightarrow> va' < USER_ADDRESS_LIMIT \<longrightarrow>
        translate m mem va = Some pa \<longrightarrow> translate m mem va' = Some pa \<longrightarrow> va = va')"

definition user_range :: "u64 \<Rightarrow> nat \<Rightarrow> bool" where
  "user_range va n \<longleftrightarrow> unat va + n \<le> unat USER_ADDRESS_LIMIT"

text \<open>The tables say the same in both memories.\<close>

definition same_space :: "mapper \<Rightarrow> mem \<Rightarrow> mem \<Rightarrow> bool" where
  "same_space m mem mem' \<longleftrightarrow> pt_tree m mem' \<and>
     (\<forall>g. no_table m mem' g = no_table m mem g) \<and> (\<forall>va. leaf m mem' va = leaf m mem va) \<and>
     (\<forall>va. writable m mem' va = writable m mem va)"

text \<open>The tables through which user addresses are reached can all be written through.\<close>

definition inner_writable :: "mapper \<Rightarrow> mem \<Rightarrow> bool" where
  "inner_writable m mem \<longleftrightarrow>
     (\<forall>q i x. length q \<le> 2 \<longrightarrow> indices_ok (q @ [i]) \<longrightarrow> hd (q @ [i]) < 2 \<longrightarrow> walk m mem (root_table m) q = Some x \<longrightarrow>
        mem (entry m x i) AND PRESENT \<noteq> 0 \<longrightarrow> mem (entry m x i) AND HUGE = 0 \<longrightarrow> mem (entry m x i) AND WRITABLE \<noteq> 0)"

definition apart :: "u64 \<Rightarrow> nat \<Rightarrow> u64 \<Rightarrow> nat \<Rightarrow> bool" where
  "apart p n q k \<longleftrightarrow> unat p + n \<le> unat q \<or> unat q + k \<le> unat p"

text \<open>User space under a mapper, with the frames handed out by an allocator.\<close>

definition space_ok :: "mapper \<Rightarrow> frame_allocator \<Rightarrow> mem \<Rightarrow> bool" where
  "space_ok m fa mem \<longleftrightarrow> pt_tree m mem \<and> user_space_ok m mem fa \<and> inner_writable m mem"

definition may_write :: "mapper \<Rightarrow> mem \<Rightarrow> u64 \<Rightarrow> nat \<Rightarrow> bool" where
  "may_write m mem p n \<longleftrightarrow> (\<forall>k<n. writable m mem (p + word_of_nat k) \<and> translate m mem (p + word_of_nat k) \<noteq> None)"

subsection \<open>Bytes of a word\<close>

lemma bit_byte_of: "bit (byte_of w i) n \<longleftrightarrow> n < 8 \<and> bit w (8 * i + n)"
  by (auto simp: byte_of_def bit_ucast_iff bit_drop_bit_eq)

lemma low_mask: "(0xFF :: u64) = mask 8" "(7 :: u64) = mask 3" "(0xFFF :: u64) = mask 12"
  by (simp_all add: mask_eq_exp_minus_1)

lemma bit_set_byte_of:
  "bit (set_byte_of w i b) n \<longleftrightarrow> (if 8 * i \<le> n \<and> n < 8 * i + 8 then n < 64 \<and> bit b (n - 8 * i) else bit w n)"
proof -
  have b: "bit b k \<Longrightarrow> k < 8" for k using bit_imp_le_length [of b k] by simp
  moreover have "bit w n \<Longrightarrow> n < 64" using bit_imp_le_length [of w n] by simp
  ultimately show ?thesis
    unfolding set_byte_of_def low_mask(1)
    by (auto simp: bit_simps bit_mask_iff bit_ucast_iff dest: b)
qed

lemma byte_of_set: "i < 8 \<Longrightarrow> j < 8 \<Longrightarrow> byte_of (set_byte_of w i b) j = (if i = j then b else byte_of w j)"
  by (rule bit_word_eqI) (auto simp: bit_byte_of bit_set_byte_of)

lemma unat_low: "unat (pa AND mask k :: u64) = unat pa mod 2 ^ k"
proof -
  have "pa AND mask k = take_bit k pa" by (simp add: take_bit_eq_mask)
  then show ?thesis by (simp only: unsigned_take_bit_eq) (rule take_bit_eq_mod)
qed

lemma unat_high: "unat (pa AND NOT (mask k) :: u64) = unat pa div 2 ^ k * 2 ^ k"
proof -
  have "(pa AND NOT (mask k)) + (pa AND mask k) = (pa AND NOT (mask k)) OR (pa AND mask k)"
    by (rule disjunctive_add) (auto simp: bit_simps)
  also have "\<dots> = pa" by (rule bit_word_eqI) (auto simp: bit_simps)
  finally have "pa AND NOT (mask k) = pa - (pa AND mask k)" by (simp add: eq_diff_eq)
  moreover have "pa AND mask k \<le> pa" by (simp add: word_and_le2)
  ultimately have "unat (pa AND NOT (mask k)) = unat pa - unat pa mod 2 ^ k"
    by (simp add: unat_sub unat_low)
  then show ?thesis by (simp add: minus_mod_eq_div_mult)
qed

lemma byte_index_mod: "byte_index pa = unat pa mod 8"
  unfolding byte_index_def low_mask(2) unat_low by simp

lemma byte_index_less [simp]: "byte_index pa < 8"
  by (simp add: byte_index_mod)

lemma word_place_eq: "word_place m pa = word_place m pa' \<longleftrightarrow> unat pa div 8 = unat pa' div 8"
proof -
  have "word_place m pa = word_place m pa' \<longleftrightarrow> pa AND NOT 7 = pa' AND NOT 7"
    by (simp only: word_place_def virtual_of_def add_right_cancel)
  also have "\<dots> \<longleftrightarrow> unat (pa AND NOT 7) = unat (pa' AND NOT 7)" by (rule word_unat_eq_iff)
  finally have "word_place m pa = word_place m pa' \<longleftrightarrow> unat (pa AND NOT 7) = unat (pa' AND NOT 7)" .
  then show ?thesis unfolding low_mask(2) unat_high by simp
qed

lemma read_write_byte:
  "read_byte m (write_byte m pa b mem) pa' = (if pa = pa' then b else read_byte m mem pa')"
proof (cases "unat pa div 8 = unat pa' div 8")
  case True
  have "pa = pa' \<longleftrightarrow> byte_index pa = byte_index pa'"
    using True by (metis byte_index_mod div_mult_mod_eq word_unat_eq_iff)
  moreover have "word_place m pa' = word_place m pa" using True by (simp add: word_place_eq)
  ultimately show ?thesis by (simp add: read_byte_def write_byte_def byte_of_set)
next
  case False
  then have "word_place m pa \<noteq> word_place m pa'" "pa \<noteq> pa'" by (auto simp: word_place_eq)
  then show ?thesis by (simp add: read_byte_def write_byte_def)
qed

lemma slot_of_less [simp]: "slot_of pa < 512"
  unfolding slot_of_def low_mask(3) unat_low by simp

lemma word_place_entry: "word_place m pa = entry m (frame_of pa) (slot_of pa)"
proof -
  have split: "n div 4096 * 4096 + 8 * (n mod 4096 div 8) = n div 8 * 8" for n :: nat
  proof -
    have "n mod 4096 mod 8 = n mod 8" by (simp add: mod_mod_cancel)
    then show ?thesis
      using div_mult_mod_eq [of n 4096] div_mult_mod_eq [of "n mod 4096" 8] div_mult_mod_eq [of n 8] by linarith
  qed
  have "unat (frame_of pa) + 8 * slot_of pa = unat (pa AND NOT 7)"
    unfolding frame_of_def slot_of_def low_mask(2,3) unat_low unat_high
    using split [of "unat pa"] by simp
  moreover have "unat (8 * word_of_nat (slot_of pa) :: u64) = 8 * slot_of pa" by (rule unat_index) simp
  moreover have "unat (pa AND NOT 7) < 2 ^ 64" using unsigned_less [of "pa AND NOT 7"] by simp
  ultimately have "unat (frame_of pa + 8 * word_of_nat (slot_of pa)) = unat (pa AND NOT 7)"
    by (simp add: unat_word_ariths)
  then have "frame_of pa + 8 * word_of_nat (slot_of pa) = pa AND NOT 7" by (simp add: word_unat_eq_iff)
  then show ?thesis by (simp add: word_place_def entry_def virtual_of_def algebra_simps)
qed

subsection \<open>Writes outside the tables\<close>

lemma write_byte_elsewhere:
  assumes "aligned (frame_of pa)" and "aligned t" and "t \<noteq> frame_of pa" and "i < 512"
  shows "write_byte m pa b mem (entry m t i) = mem (entry m t i)"
  using assms by (simp add: write_byte_def word_place_entry entry_inj)

lemma write_byte_walk:
  assumes tree: "pt_tree m mem" and f: "no_table m mem (frame_of pa)"
    and q: "length q \<le> 4" "indices_ok q"
  shows "walk m (write_byte m pa b mem) (root_table m) q = walk m mem (root_table m) q \<and>
    leaf_at m (write_byte m pa b mem) (root_table m) q = leaf_at m mem (root_table m) q"
proof (rule same_walk)
  fix k x assume k: "k < length q" and w: "walk m mem (root_table m) (take k q) = Some x"
  have "indices_ok (take k q)" "length (take k q) \<le> 3" using q k by (auto intro: indices_ok_take)
  then have "x \<noteq> frame_of pa" using f w by (auto simp: no_table_def)
  moreover have "aligned x" using walk_table [OF tree w] .
  moreover have "aligned (frame_of pa)" using f by (simp add: no_table_def)
  moreover have "q ! k < 512" using q(2) k by (rule indices_ok_nth)
  ultimately show "write_byte m pa b mem (entry m x (q ! k)) = mem (entry m x (q ! k))"
    by (simp add: write_byte_elsewhere)
qed

lemma write_byte_keeps:
  assumes tree: "pt_tree m mem" and f: "no_table m mem (frame_of pa)"
  shows "pt_tree m (write_byte m pa b mem)" and "no_table m (write_byte m pa b mem) g \<longleftrightarrow> no_table m mem g"
    and "frames_ok m (write_byte m pa b mem) fa \<longleftrightarrow> frames_ok m mem fa"
    and "leaf m (write_byte m pa b mem) va = leaf m mem va"
    and "translate m (write_byte m pa b mem) va = translate m mem va"
proof -
  have w: "walk m (write_byte m pa b mem) (root_table m) q = walk m mem (root_table m) q" if "length q \<le> 3" "indices_ok q" for q
    using write_byte_walk [OF assms, of q] that by simp
  show "pt_tree m (write_byte m pa b mem)" using tree w by (simp add: pt_tree_def)
  show n: "no_table m (write_byte m pa b mem) g \<longleftrightarrow> no_table m mem g" for g using w by (simp add: no_table_def)
  show "frames_ok m (write_byte m pa b mem) fa \<longleftrightarrow> frames_ok m mem fa" by (simp add: frames_ok_def n)
  show l: "leaf m (write_byte m pa b mem) va = leaf m mem va"
    using write_byte_walk [OF assms, of "path va"] by (simp add: leaf_def)
  show "translate m (write_byte m pa b mem) va = translate m mem va" by (simp add: translate_leaf l)
qed

lemma writable_from_same:
  assumes "\<And>k x. k < l \<Longrightarrow> walk m mem t (take k (path_down va l)) = Some x \<Longrightarrow>
      mem' (entry m x (path_down va l ! k)) = mem (entry m x (path_down va l ! k))"
  shows "writable_from m mem' l t va = writable_from m mem l t va"
  using assms
proof (induction l arbitrary: t)
  case (Suc l)
  let ?e = "mem (entry m t (table_index va (Suc l)))"
  have e: "mem' (entry m t (table_index va (Suc l))) = ?e" using Suc.prems [of 0 t] by simp
  show ?case
  proof (cases "?e AND PRESENT \<noteq> 0 \<and> ?e AND HUGE = 0")
    case True
    have "writable_from m mem' l (?e AND ADDRESS_MASK) va = writable_from m mem l (?e AND ADDRESS_MASK) va"
    proof (rule Suc.IH)
      fix k x assume "k < l" "walk m mem (?e AND ADDRESS_MASK) (take k (path_down va l)) = Some x"
      then show "mem' (entry m x (path_down va l ! k)) = mem (entry m x (path_down va l ! k))"
        using Suc.prems [of "Suc k" x] True by (simp add: Let_def)
    qed
    then show ?thesis using e by (simp add: Let_def)
  next
    case False
    then show ?thesis using e by (cases "l = 0") (auto simp: Let_def)
  qed
qed simp

lemma write_byte_writable:
  assumes "pt_tree m mem" and "no_table m mem (frame_of pa)"
  shows "writable m (write_byte m pa b mem) va = writable m mem va"
  unfolding writable_def
proof (rule writable_from_same)
  fix k x assume k: "k < 4" and w: "walk m mem (root_table m) (take k (path_down va 4)) = Some x"
  have q: "indices_ok (path_down va 4)" using path_simps(2) [of va] by (simp add: path_path_down)
  have "x \<noteq> frame_of pa"
    using assms(2) w k indices_ok_take [OF q, of k] by (auto simp: no_table_def)
  moreover have "aligned x" using walk_table [OF assms(1) w] .
  ultimately show "write_byte m pa b mem (entry m x (path_down va 4 ! k)) = mem (entry m x (path_down va 4 ! k))"
    using assms(2) indices_ok_nth [OF q, of k] k by (simp add: write_byte_elsewhere no_table_def)
qed

lemma user_space_ok_write:
  assumes "pt_tree m mem" and "no_table m mem (frame_of pa)"
  shows "user_space_ok m (write_byte m pa b mem) fa \<longleftrightarrow> user_space_ok m mem fa"
  by (simp add: user_space_ok_def write_byte_keeps [OF assms])

subsection \<open>Runs of bytes\<close>

lemma same_spaceD:
  assumes "same_space m mem mem'"
  shows "pt_tree m mem'" and "translate m mem' va = translate m mem va" and "writable m mem' va = writable m mem va"
    and "frames_ok m mem' fa = frames_ok m mem fa" and "user_space_ok m mem' fa = user_space_ok m mem fa"
    and "leaf m mem' va = leaf m mem va" and "no_table m mem' g = no_table m mem g"
  using assms by (simp_all add: same_space_def translate_leaf frames_ok_def user_space_ok_def)

lemma same_space_refl: "pt_tree m mem \<Longrightarrow> same_space m mem mem"
  by (simp add: same_space_def)

lemma same_space_trans: "same_space m mem mem' \<Longrightarrow> same_space m mem' mem'' \<Longrightarrow> same_space m mem mem''"
  by (simp add: same_space_def)

lemma write_byte_space:
  "pt_tree m mem \<Longrightarrow> no_table m mem (frame_of pa) \<Longrightarrow> same_space m mem (write_byte m pa b mem)"
  by (simp add: same_space_def write_byte_keeps write_byte_writable)

lemma store_byte_spec:
  assumes "store_byte m va b mem = Some mem'" and "pt_tree m mem" and "user_space_ok m mem fa" and "va < USER_ADDRESS_LIMIT"
  obtains pa where "translate m mem va = Some pa" "mem' = write_byte m pa b mem" "same_space m mem mem'"
proof -
  obtain pa where pa: "translate m mem va = Some pa" "mem' = write_byte m pa b mem"
    using assms(1) by (auto simp: store_byte_def split: if_splits)
  have "no_table m mem (frame_of pa)" using assms(3,4) pa(1) by (simp add: user_space_ok_def)
  with pa that assms(2) write_byte_space show thesis by blast
qed

lemma user_range_Suc:
  assumes "user_range va (Suc n)"
  shows "va < USER_ADDRESS_LIMIT" and "user_range (va + 1) n" and "unat (va + 1) = Suc (unat va)"
proof -
  have l: "unat USER_ADDRESS_LIMIT = 2 ^ 40" by (simp add: USER_ADDRESS_LIMIT_def)
  show u: "unat (va + 1) = Suc (unat va)" using assms l by (simp add: user_range_def unat_word_ariths)
  show "va < USER_ADDRESS_LIMIT" using assms by (simp add: user_range_def word_less_nat_alt)
  show "user_range (va + 1) n" using assms u by (simp add: user_range_def)
qed

lemma user_range_nth:
  assumes "user_range va n" and "k < n"
  shows "va + word_of_nat k < USER_ADDRESS_LIMIT" and "unat (va + word_of_nat k) = unat va + k"
proof -
  have l: "unat USER_ADDRESS_LIMIT = 2 ^ 40" by (simp add: USER_ADDRESS_LIMIT_def)
  have k: "unat va + k < 2 ^ 40" using assms l by (simp add: user_range_def)
  then show u: "unat (va + word_of_nat k) = unat va + k" by (simp add: unat_word_ariths unat_of_nat)
  show "va + word_of_nat k < USER_ADDRESS_LIMIT" using u k l by (simp add: word_less_nat_alt)
qed

lemma user_space_inj:
  "user_space_ok m mem fa \<Longrightarrow> va < USER_ADDRESS_LIMIT \<Longrightarrow> va' < USER_ADDRESS_LIMIT \<Longrightarrow>
   translate m mem va = Some pa \<Longrightarrow> translate m mem va' = Some pa \<Longrightarrow> va = va'"
  by (simp add: user_space_ok_def)

lemma store_bytes_spec:
  assumes "store_bytes m va bs mem = Some mem'" and "pt_tree m mem" and "user_space_ok m mem fa"
    and "user_range va (length bs)"
  shows "same_space m mem mem'"
    and "(\<And>k. k < length bs \<Longrightarrow> translate m mem (va + word_of_nat k) \<noteq> Some pa) \<Longrightarrow> read_byte m mem' pa = read_byte m mem pa"
    and "k < length bs \<Longrightarrow> load_byte m mem' (va + word_of_nat k) = Some (bs ! k)"
proof -
  have "same_space m mem mem' \<and>
    (\<forall>pa. (\<forall>k < length bs. translate m mem (va + word_of_nat k) \<noteq> Some pa) \<longrightarrow> read_byte m mem' pa = read_byte m mem pa) \<and>
    (\<forall>k < length bs. load_byte m mem' (va + word_of_nat k) = Some (bs ! k))"
    using assms
  proof (induction bs arbitrary: va mem)
    case (Cons b bs)
    obtain mem1 where s: "store_byte m va b mem = Some mem1" "store_bytes m (va + 1) bs mem1 = Some mem'"
      using Cons.prems(1) by (auto split: option.splits)
    have r: "va < USER_ADDRESS_LIMIT" "user_range (va + 1) (length bs)"
      using user_range_Suc [of va "length bs"] Cons.prems(4) by simp_all
    obtain pa where pa: "translate m mem va = Some pa" "mem1 = write_byte m pa b mem" and sp: "same_space m mem mem1"
      using store_byte_spec [OF s(1) Cons.prems(2,3) r(1)] .
    note [simp] = same_spaceD(2-) [OF sp]
    have IH: "same_space m mem1 mem'"
      "\<And>pa. (\<forall>k < length bs. translate m mem (va + 1 + word_of_nat k) \<noteq> Some pa) \<Longrightarrow> read_byte m mem' pa = read_byte m mem1 pa"
      "\<And>k. k < length bs \<Longrightarrow> load_byte m mem' (va + 1 + word_of_nat k) = Some (bs ! k)"
      using Cons.IH [OF s(2) same_spaceD(1) [OF sp]] Cons.prems(3) r(2) by simp_all
    have later: "translate m mem (va + 1 + word_of_nat k) \<noteq> Some pa" if "k < length bs" for k
    proof
      assume t: "translate m mem (va + 1 + word_of_nat k) = Some pa"
      have "va + 1 + word_of_nat k = va"
        using user_space_inj [OF Cons.prems(3) user_range_nth(1) [OF r(2) that] r(1) t pa(1)] .
      then have "unat (va + 1 + word_of_nat k) = unat va" by (rule arg_cong)
      then show False using user_range_nth(2) [OF r(2) that] user_range_Suc(3) [of va "length bs"] Cons.prems(4) by simp
    qed
    have "translate m mem' va = Some pa" using same_spaceD(2) [OF IH(1), of va] pa(1) by simp
    moreover have "read_byte m mem' pa = b" using IH(2) [of pa] later pa(2) by (simp add: read_write_byte)
    ultimately have "load_byte m mem' va = Some b" by (simp add: load_byte_def)
    moreover have step: "va + 1 + word_of_nat k = va + word_of_nat (Suc k)" for k by (simp add: algebra_simps)
    ultimately have "load_byte m mem' (va + word_of_nat k) = Some ((b # bs) ! k)" if "k < length (b # bs)" for k
      using that IH(3) by (cases k) (simp_all add: add.assoc)
    moreover have "read_byte m mem' p = read_byte m mem p"
      if "\<forall>k < length (b # bs). translate m mem (va + word_of_nat k) \<noteq> Some p" for p
    proof -
      have "p \<noteq> pa" using that [rule_format, of 0] pa(1) by auto
      moreover have "translate m mem (va + 1 + word_of_nat k) \<noteq> Some p" if "k < length bs" for k
        using \<open>\<forall>k < length (b # bs). _ k\<close> [rule_format, of "Suc k"] that by (simp add: add.assoc)
      ultimately show ?thesis using IH(2) [of p] pa(2) by (simp add: read_write_byte)
    qed
    ultimately show ?case using same_space_trans [OF sp IH(1)] by blast
  qed (simp add: same_space_refl)
  then show "same_space m mem mem'"
    and "(\<And>k. k < length bs \<Longrightarrow> translate m mem (va + word_of_nat k) \<noteq> Some pa) \<Longrightarrow> read_byte m mem' pa = read_byte m mem pa"
    and "k < length bs \<Longrightarrow> load_byte m mem' (va + word_of_nat k) = Some (bs ! k)"
    by blast+
qed

lemma store_bytes_succeeds:
  assumes "pt_tree m mem" and "user_space_ok m mem fa" and "user_range va (length bs)"
    and "\<And>k. k < length bs \<Longrightarrow> writable m mem (va + word_of_nat k) \<and> translate m mem (va + word_of_nat k) \<noteq> None"
  shows "\<exists>mem'. store_bytes m va bs mem = Some mem'"
  using assms
proof (induction bs arbitrary: va mem)
  case (Cons b bs)
  obtain pa where "translate m mem va = Some pa" and "writable m mem va" using Cons.prems(4) [of 0] by auto
  then obtain mem1 where s: "store_byte m va b mem = Some mem1" by (simp add: store_byte_def)
  have r: "va < USER_ADDRESS_LIMIT" "user_range (va + 1) (length bs)"
    using user_range_Suc [of va "length bs"] Cons.prems(3) by simp_all
  have sp: "same_space m mem mem1" using store_byte_spec [OF s Cons.prems(1,2) r(1)] by blast
  have "\<exists>mem'. store_bytes m (va + 1) bs mem1 = Some mem'"
  proof (rule Cons.IH)
    fix k assume "k < length bs"
    then show "writable m mem1 (va + 1 + word_of_nat k) \<and> translate m mem1 (va + 1 + word_of_nat k) \<noteq> None"
      using Cons.prems(4) [of "Suc k"] by (simp add: same_spaceD [OF sp] algebra_simps)
  qed (use Cons.prems sp r in \<open>simp_all add: same_spaceD\<close>)
  then show ?case using s by simp
qed simp

lemma load_bytes_conv:
  "load_bytes m mem va n =
     (if \<forall>k<n. load_byte m mem (va + word_of_nat k) \<noteq> None
      then Some (map (\<lambda>k. the (load_byte m mem (va + word_of_nat k))) [0..<n]) else None)"
proof (induction n arbitrary: va)
  case (Suc n)
  have step: "va + 1 + word_of_nat k = va + word_of_nat (Suc k)" for k by (simp add: algebra_simps)
  have all: "(\<forall>k<Suc n. load_byte m mem (va + word_of_nat k) \<noteq> None) \<longleftrightarrow>
      load_byte m mem va \<noteq> None \<and> (\<forall>k<n. load_byte m mem (va + 1 + word_of_nat k) \<noteq> None)"
    unfolding step by (auto simp: less_Suc_eq_0_disj)
  have m: "map (\<lambda>k. the (load_byte m mem (va + word_of_nat k))) [0..<Suc n] =
      the (load_byte m mem va) # map (\<lambda>k. the (load_byte m mem (va + 1 + word_of_nat k))) [0..<n]"
    unfolding step by (simp add: upt_conv_Cons map_Suc_upt [symmetric] del: upt_Suc)
  show ?case
    unfolding all m by (simp add: Suc split: option.splits)
qed simp

lemma load_bytes_cong:
  assumes "\<And>i. i < n \<Longrightarrow> load_byte m mem' (va + word_of_nat i) = load_byte m mem (va + word_of_nat i)"
  shows "load_bytes m mem' va n = load_bytes m mem va n"
proof -
  have "map (\<lambda>k. the (load_byte m mem' (va + word_of_nat k))) [0..<n] = map (\<lambda>k. the (load_byte m mem (va + word_of_nat k))) [0..<n]"
    by (rule map_cong) (simp_all add: assms)
  then show ?thesis unfolding load_bytes_conv by (simp only: assms cong: all_cong)
qed

lemma length_load_bytes: "load_bytes m mem va n = Some bs \<Longrightarrow> length bs = n"
  by (auto simp: load_bytes_conv split: if_splits)

lemma load_stored:
  assumes "store_bytes m va bs mem = Some mem'" and "pt_tree m mem" and "user_space_ok m mem fa"
    and "user_range va (length bs)"
  shows "load_bytes m mem' va (length bs) = Some bs"
proof -
  note k = store_bytes_spec(3) [OF assms]
  have "map (\<lambda>k. the (load_byte m mem' (va + word_of_nat k))) [0..<length bs] = map (\<lambda>k. bs ! k) [0..<length bs]"
    by (rule map_cong) (simp_all add: k)
  then have "map (\<lambda>k. the (load_byte m mem' (va + word_of_nat k))) [0..<length bs] = bs" by (simp only: map_nth)
  moreover have "\<forall>k<length bs. load_byte m mem' (va + word_of_nat k) \<noteq> None" by (simp add: k)
  ultimately show ?thesis unfolding load_bytes_conv by simp
qed

lemma load_elsewhere:
  assumes "store_bytes m va bs mem = Some mem'" and "pt_tree m mem" and "user_space_ok m mem fa"
    and "user_range va (length bs)" and "user_range va' n"
    and "unat va + length bs \<le> unat va' \<or> unat va' + n \<le> unat va"
  shows "load_bytes m mem' va' n = load_bytes m mem va' n"
proof -
  have "load_byte m mem' (va' + word_of_nat k) = load_byte m mem (va' + word_of_nat k)" if "k < n" for k
  proof (cases "translate m mem (va' + word_of_nat k)")
    case (Some pa)
    have "translate m mem (va + word_of_nat j) \<noteq> Some pa" if "j < length bs" for j
    proof
      assume t: "translate m mem (va + word_of_nat j) = Some pa"
      note u = user_range_nth [OF assms(4) that] user_range_nth [OF assms(5) \<open>k < n\<close>]
      have "va + word_of_nat j = va' + word_of_nat k"
        using user_space_inj [OF assms(3) u(1,3) t Some] .
      then show False using u(2,4) assms(6) that \<open>k < n\<close> by simp
    qed
    then show ?thesis
      using store_bytes_spec(2) [OF assms(1-4)] Some same_spaceD(2) [OF store_bytes_spec(1) [OF assms(1-4)]]
      by (simp add: load_byte_def)
  qed (use same_spaceD(2) [OF store_bytes_spec(1) [OF assms(1-4)]] in \<open>simp add: load_byte_def\<close>)
  then show ?thesis by (rule load_bytes_cong)
qed

subsection \<open>User space and the page tables\<close>

lemma frame_of_page:
  assumes "aligned f"
  shows "frame_of (f + (va AND 0xFFF)) = f" and "f + (va AND 0xFFF) = f + (va' AND 0xFFF) \<longleftrightarrow> unat va mod 4096 = unat va' mod 4096"
proof -
  have low: "unat (va AND 0xFFF) = unat va mod 4096" for va :: u64
    unfolding low_mask(3) unat_low by simp
  have f: "unat f mod 4096 = 0" "unat f < 2 ^ 52" using aligned_unat [OF assms] .
  have "unat (f + (va AND 0xFFF)) = unat f + unat va mod 4096"
    using f(2) mod_less_divisor [of 4096 "unat va"] by (simp add: unat_word_ariths low)
  then have "unat (frame_of (f + (va AND 0xFFF))) = (unat f + unat va mod 4096) div 4096 * 4096"
    unfolding frame_of_def low_mask(3) unat_high by simp
  also have "\<dots> = unat f" using f(1) by auto
  finally show "frame_of (f + (va AND 0xFFF)) = f" by (simp add: word_unat_eq_iff)
  show "f + (va AND 0xFFF) = f + (va' AND 0xFFF) \<longleftrightarrow> unat va mod 4096 = unat va' mod 4096"
    by (simp only: add_left_cancel word_unat_eq_iff [of "va AND 0xFFF"] low)
qed

lemma user_page_inj:
  assumes "va < USER_ADDRESS_LIMIT" and "va' < USER_ADDRESS_LIMIT" and "path va = path va'"
    and "unat va mod 4096 = unat va' mod 4096"
  shows "va = va'"
proof -
  have "unat va < 2 ^ 40" "unat va' < 2 ^ 40"
    using assms(1,2) by (simp_all add: word_less_nat_alt USER_ADDRESS_LIMIT_def)
  then have "unat va div 4096 = unat va' div 4096"
    using assms(3) by (simp add: path_page_number page_number_def)
  then show ?thesis using assms(4) by (metis div_mult_mod_eq word_unat_eq_iff)
qed

lemma translate_new_page:
  assumes "leaf m mem va = Some (0, f OR user_flags OR PRESENT)" and "aligned f"
  shows "translate m mem va = Some (f + (va AND 0xFFF))"
  using assms leaf_entry_bits(1) [OF assms(2) user_flags_mask] low_12 by (simp add: translate_leaf)

lemma frames_between_not_handed_out: "f \<in> frames_between fa fa' \<Longrightarrow> \<not> handed_out fa f"
  by (auto simp: frames_between_def handed_out_def)

lemma mmap_loop_user_space:
  assumes tree: "pt_tree (ctl_mapper c) mem" and fr: "frames_ok (ctl_mapper c) mem (ctl_allocator c)"
    and us: "user_space_ok (ctl_mapper c) mem (ctl_allocator c)"
    and l: "mmap_loop c mem start 0 n = Some (c', mem', r)"
  shows "user_space_ok (ctl_mapper c) mem' (ctl_allocator c')"
proof -
  let ?m = "ctl_mapper c" and ?fa = "ctl_allocator c" and ?fa' = "ctl_allocator c'"
  obtain fs where grow: "tables_grow ?m mem ?fa mem' ?fa'" and pm: "pages_mapped ?m mem mem' start 0 fs"
    and d: "distinct fs" and b: "set fs \<subseteq> frames_between ?fa ?fa'" and h: "\<forall>f\<in>set fs. handed_out ?fa' f"
    using mmap_loop_spec [OF tree fr l] by auto
  define new where "new va k \<longleftrightarrow> k < length fs \<and> (\<exists>v. page_addr start k = Some v \<and> path va = path v)" for va k
  have fresh: "\<not> handed_out ?fa (fs ! k)" "handed_out ?fa' (fs ! k)" "no_table ?m mem' (fs ! k)" "aligned (fs ! k)"
    if "k < length fs" for k
    using nth_mem [OF that] b h pm frames_between_not_handed_out [of "fs ! k" ?fa ?fa']
    unfolding pages_mapped_def blank_page_def no_table_def by blast+
  have new_page: "translate ?m mem' va = Some (fs ! k + (va AND 0xFFF))" if n: "new va k" for va k
  proof -
    have k: "k < length fs" using n by (simp add: new_def)
    obtain v where v: "page_addr start k = Some v" "path va = path v" using n by (auto simp: new_def)
    have "leaf ?m mem' v = Some (0, fs ! k OR user_flags OR PRESENT)"
      using pm k v(1) by (auto simp: pages_mapped_def)
    then have "leaf ?m mem' va = Some (0, fs ! k OR user_flags OR PRESENT)" using leaf_path [OF v(2)] by metis
    then show ?thesis using translate_new_page fresh(4) [OF k] by blast
  qed
  have old: "translate ?m mem' va = translate ?m mem va" if "\<And>k. \<not> new va k" for va
    using that pm by (auto simp: translate_leaf new_def pages_mapped_def)
  have ok: "no_table ?m mem (frame_of pa) \<and> handed_out ?fa (frame_of pa)"
    if "va < USER_ADDRESS_LIMIT" "translate ?m mem va = Some pa" for va pa
    using us that by (simp add: user_space_ok_def)
  have kept: "no_table ?m mem' g \<and> handed_out ?fa' g" if "no_table ?m mem g" "handed_out ?fa g" for g
    using that grow handed_out_grow [OF grow] by (auto simp: tables_grow_def)
  have part1: "no_table ?m mem' (frame_of pa) \<and> handed_out ?fa' (frame_of pa)"
    if "va < USER_ADDRESS_LIMIT" "translate ?m mem' va = Some pa" for va pa
  proof (cases "\<exists>k. new va k")
    case True
    then obtain k where k: "new va k" ..
    then have "k < length fs" by (simp add: new_def)
    moreover have "pa = fs ! k + (va AND 0xFFF)" using new_page [OF k] that(2) by simp
    ultimately show ?thesis using fresh [of k] frame_of_page(1) by simp
  next
    case False
    then show ?thesis using old [of va] that ok [of va pa] kept by auto
  qed
  have mixed: False if "new va k" "\<And>k. \<not> new va' k" "va' < USER_ADDRESS_LIMIT"
    "translate ?m mem' va = Some pa" "translate ?m mem' va' = Some pa" for va va' k pa
  proof -
    have "k < length fs" using that(1) by (simp add: new_def)
    then have "\<not> handed_out ?fa (frame_of pa)"
      using new_page [OF that(1)] that(4) fresh(1,4) frame_of_page(1) by auto
    then show False using ok [of va' pa] old [OF that(2)] that(3,5) by auto
  qed
  have part2: "va = va'"
    if v: "va < USER_ADDRESS_LIMIT" "va' < USER_ADDRESS_LIMIT" "translate ?m mem' va = Some pa" "translate ?m mem' va' = Some pa"
    for va va' pa
  proof (cases "\<exists>k. new va k"; cases "\<exists>k. new va' k")
    assume "\<exists>k. new va k" "\<exists>k. new va' k"
    then obtain k k' where n: "new va k" "new va' k'" by blast
    then have k: "k < length fs" "k' < length fs" by (simp_all add: new_def)
    have e: "pa = fs ! k + (va AND 0xFFF)" "pa = fs ! k' + (va' AND 0xFFF)"
      using new_page [OF n(1)] new_page [OF n(2)] v(3,4) by simp_all
    have "fs ! k = fs ! k'" using frame_of_page(1) [OF fresh(4)] k e by metis
    then have kk: "k = k'" using d k by (simp add: nth_eq_iff_index_eq)
    then have "path va = path va'" using n by (auto simp: new_def)
    moreover have "unat va mod 4096 = unat va' mod 4096"
      using e kk frame_of_page(2) [OF fresh(4) [OF k(1)]] by simp
    ultimately show ?thesis using user_page_inj v(1,2) by blast
  next
    assume "\<not> (\<exists>k. new va k)" "\<not> (\<exists>k. new va' k)"
    then show ?thesis using v old user_space_inj [OF us v(1,2)] by auto
  qed (use mixed v in blast)+
  show ?thesis using part1 part2 unfolding user_space_ok_def by blast
qed

lemma unmap_page_spec:
  assumes tree: "pt_tree m mem" and u: "unmap_page m va mem = (mem', r)"
  shows "frames_ok m mem fa \<Longrightarrow> tables_grow m mem fa mem' fa"
    and "leaf m mem' va' = (if path va' = path va \<and> (\<exists>f. r = Inr f) then None else leaf m mem va')"
proof -
  have "(frames_ok m mem fa \<longrightarrow> tables_grow m mem fa mem' fa) \<and>
    leaf m mem' va' = (if path va' = path va \<and> (\<exists>f. r = Inr f) then None else leaf m mem va')"
  proof (cases "unmap_walk m mem va 4 (root_table m)")
    case (Inl e)
    then show ?thesis using u tree tables_grow_refl by (auto simp: unmap_page_def)
  next
    case (Inr t)
    then have w: "walk m mem (root_table m) (take 3 (path va)) = Some t" by (simp add: unmap_walk_root)
    show ?thesis
    proof (cases "mem (entry m t (table_index va 1)) AND PRESENT = 0")
      case True
      then show ?thesis using u tree tables_grow_refl Inr by (auto simp: unmap_page_def Let_def)
    next
      case False
      then have "mem' = mem(entry m t (table_index va 1) := 0)" "\<exists>f. r = Inr f"
        using u Inr by (auto simp: unmap_page_def Let_def)
      then show ?thesis using leaf_write_page(1,2) [OF tree w, of mem' 0] by auto
    qed
  qed
  then show "frames_ok m mem fa \<Longrightarrow> tables_grow m mem fa mem' fa"
    and "leaf m mem' va' = (if path va' = path va \<and> (\<exists>f. r = Inr f) then None else leaf m mem va')"
    by blast+
qed

lemma munmap_loop_user_space:
  assumes "pt_tree m mem" and "frames_ok m mem fa" and "user_space_ok m mem fa"
    and "munmap_loop m mem start i n = Some mem'"
  shows "pt_tree m mem' \<and> frames_ok m mem' fa \<and> user_space_ok m mem' fa"
  using assms
proof (induction n arbitrary: mem i)
  case (Suc n)
  obtain v mem1 r where v: "page_addr start i = Some v" "unmap_page m v mem = (mem1, r)"
    "munmap_loop m mem1 start (i + 1) n = Some mem'"
    using Suc.prems(4) by (auto split: option.splits) (metis fst_conv surj_pair)
  note sp = unmap_page_spec [OF Suc.prems(1) v(2)]
  have g: "tables_grow m mem fa mem1 fa" using sp(1) Suc.prems(2) .
  have t: "translate m mem1 va = Some pa \<Longrightarrow> translate m mem va = Some pa" for va pa
    using sp(2) [of va] by (auto simp: translate_leaf split: if_splits option.splits)
  have "user_space_ok m mem1 fa"
    using Suc.prems(3) g t unfolding user_space_ok_def tables_grow_def by blast
  then show ?case using Suc.IH [OF _ _ _ v(3)] tables_growD(1,2) [OF g] by blast
qed simp

subsection \<open>Writable paths\<close>

lemma inner_writableI:
  assumes "inner_writable m mem"
    and "\<And>q i x. length q \<le> 2 \<Longrightarrow> indices_ok q \<Longrightarrow> i < 512 \<Longrightarrow> walk m mem' (root_table m) q = Some x \<Longrightarrow>
      mem' (entry m x i) AND PRESENT = 0 \<or> mem' (entry m x i) AND WRITABLE \<noteq> 0 \<or>
      walk m mem (root_table m) q = Some x \<and> mem' (entry m x i) AND PRESENT = mem (entry m x i) AND PRESENT \<and>
      mem' (entry m x i) AND HUGE = mem (entry m x i) AND HUGE \<and>
      mem' (entry m x i) AND WRITABLE = mem (entry m x i) AND WRITABLE"
  shows "inner_writable m mem'"
  using assms unfolding inner_writable_def indices_ok_simps by metis

lemma inner_writable_same:
  assumes "inner_writable m mem"
    and "\<And>q i x. length q \<le> 2 \<Longrightarrow> indices_ok q \<Longrightarrow> i < 512 \<Longrightarrow> walk m mem' (root_table m) q = Some x \<Longrightarrow>
      walk m mem (root_table m) q = Some x \<and> mem' (entry m x i) = mem (entry m x i)"
  shows "inner_writable m mem'"
  using inner_writableI [OF assms(1)] assms(2) by metis

lemma inner_writable_zero:
  assumes "inner_writable m mem" and tree: "pt_tree m mem" and f: "no_table m mem f"
  shows "inner_writable m (zero_page m mem f)"
proof (rule inner_writable_same [OF assms(1)])
  fix q and i :: nat and x assume q: "length q \<le> 2" "indices_ok q" "i < 512" "walk m (zero_page m mem f) (root_table m) q = Some x"
  then have w: "walk m mem (root_table m) q = Some x" using zero_data_page [OF tree f, of q] by simp
  then have "x \<noteq> f" "aligned x" using f q walk_table [OF tree] by (auto simp: no_table_def)
  then show "walk m mem (root_table m) q = Some x \<and> zero_page m mem f (entry m x i) = mem (entry m x i)"
    using w f q(3) entry_in_page [of x f i m] by (simp add: zero_page_def no_table_def)
qed

lemma inner_writable_byte:
  assumes "inner_writable m mem" and tree: "pt_tree m mem" and f: "no_table m mem (frame_of pa)"
  shows "inner_writable m (write_byte m pa b mem)"
proof (rule inner_writable_same [OF assms(1)])
  fix q and i :: nat and x assume q: "length q \<le> 2" "indices_ok q" "i < 512" "walk m (write_byte m pa b mem) (root_table m) q = Some x"
  then have w: "walk m mem (root_table m) q = Some x" using write_byte_walk [OF tree f, of q] by simp
  then have "x \<noteq> frame_of pa" "aligned x" using f q walk_table [OF tree] by (auto simp: no_table_def)
  then show "walk m mem (root_table m) q = Some x \<and> write_byte m pa b mem (entry m x i) = mem (entry m x i)"
    using w f q(3) by (simp add: write_byte_elsewhere no_table_def)
qed

lemma inner_writable_leaf:
  assumes "inner_writable m mem" and tree: "pt_tree m mem"
    and p: "walk m mem (root_table m) p = Some u" "length p = 3" "indices_ok p" "j < 512"
  shows "inner_writable m (mem(entry m u j := v))"
proof (rule inner_writable_same [OF assms(1)])
  fix q and i :: nat and x assume q: "length q \<le> 2" "indices_ok q" "i < 512" "walk m (mem(entry m u j := v)) (root_table m) q = Some x"
  then have w: "walk m mem (root_table m) q = Some x" using leaf_write(3) [OF tree p refl, of q] by simp
  have "x \<noteq> u"
  proof
    assume "x = u"
    then have "q = p" using tree w p q unfolding pt_tree_def by (metis le_SucI numeral_3_eq_3 numeral_2_eq_2 order_refl)
    then show False using q(1) p(2) by simp
  qed
  then show "walk m mem (root_table m) q = Some x \<and> (mem(entry m u j := v)) (entry m x i) = mem (entry m x i)"
    using w q(3) p(4) entry_inj [OF walk_table [OF tree w] walk_table [OF tree p(1)]] by simp
qed

lemma inner_writable_user_bit:
  assumes "inner_writable m mem" and tree: "pt_tree m mem"
    and p: "walk m mem (root_table m) p = Some u" "length p \<le> 2" "indices_ok p" "j < 512"
    and e: "mem (entry m u j) AND PRESENT \<noteq> 0" "mem (entry m u j) AND HUGE = 0"
  shows "inner_writable m (mem(entry m u j := mem (entry m u j) OR USER))"
proof (rule inner_writableI [OF assms(1)])
  let ?mem = "mem(entry m u j := mem (entry m u j) OR USER)"
  fix q and i :: nat and x assume q: "length q \<le> 2" "indices_ok q" "i < 512" "walk m ?mem (root_table m) q = Some x"
  then have w: "walk m mem (root_table m) q = Some x" using user_bit_keeps(1) [OF tree p e refl, of q] by simp
  have "(y OR USER) AND WRITABLE = y AND WRITABLE" for y :: u64
    by (simp add: bit.conj_disj_distrib2) (simp add: entry_bits)
  then show "?mem (entry m x i) AND PRESENT = 0 \<or> ?mem (entry m x i) AND WRITABLE \<noteq> 0 \<or>
      walk m mem (root_table m) q = Some x \<and> ?mem (entry m x i) AND PRESENT = mem (entry m x i) AND PRESENT \<and>
      ?mem (entry m x i) AND HUGE = mem (entry m x i) AND HUGE \<and> ?mem (entry m x i) AND WRITABLE = mem (entry m x i) AND WRITABLE"
    using w by (simp add: user_entry_bits)
qed

lemma inner_writable_table:
  assumes "inner_writable m mem" and tree: "pt_tree m mem"
    and p: "walk m mem (root_table m) p = Some u" "length p \<le> 2" "indices_ok p" "j < 512"
    and e: "mem (entry m u j) AND PRESENT = 0" and f: "no_table m mem f"
    and mem': "mem' = (zero_page m mem f)(entry m u j := f OR PRESENT OR WRITABLE OR (flags AND USER))"
  shows "inner_writable m mem'"
proof (rule inner_writableI [OF assms(1)])
  fix q and i :: nat and x assume q: "length q \<le> 2" "indices_ok q" "i < 512" and w': "walk m mem' (root_table m) q = Some x"
  have au: "aligned u" using walk_table [OF tree p(1)] .
  have af: "aligned f" using f by (simp add: no_table_def)
  have uf: "u \<noteq> f" using f p by (auto simp: no_table_def)
  have w: "if q = p @ [j] then x = f else walk m mem (root_table m) q = Some x"
    using new_table_walk(1) [OF tree p e f mem', of q] q w' by (auto split: if_splits)
  show "mem' (entry m x i) AND PRESENT = 0 \<or> mem' (entry m x i) AND WRITABLE \<noteq> 0 \<or>
      walk m mem (root_table m) q = Some x \<and> mem' (entry m x i) AND PRESENT = mem (entry m x i) AND PRESENT \<and>
      mem' (entry m x i) AND HUGE = mem (entry m x i) AND HUGE \<and> mem' (entry m x i) AND WRITABLE = mem (entry m x i) AND WRITABLE"
  proof (cases "x = f")
    case True
    then show ?thesis using zeroed_table [OF af q(3) au uf p(4)] by (simp add: mem')
  next
    case False
    then have wx: "walk m mem (root_table m) q = Some x" using w by (auto split: if_splits)
    have ax: "aligned x" using walk_table [OF tree wx] .
    show ?thesis
    proof (cases "(x, i) = (u, j)")
      case True
      then have "mem' (entry m x i) AND WRITABLE = WRITABLE"
        by (simp add: mem' bit.conj_disj_distrib2)
      then show ?thesis by (simp add: WRITABLE_def)
    next
      case False
      then have "mem' (entry m x i) = mem (entry m x i)"
        using entry_inj [OF ax au q(3) p(4)] entry_in_page [OF ax af q(3)] \<open>x \<noteq> f\<close> by (auto simp: mem' zero_page_def)
      then show ?thesis using wx by simp
    qed
  qed
qed

lemma map_walk_inner_writable:
  assumes "pt_tree m mem" and "frames_ok m mem fa" and "inner_writable m mem" and "walk m mem (root_table m) p = Some table"
    and "length p + l = 4" and "indices_ok p" and "map_walk m va flags l table mem fa = (mem', fa', r)"
  shows "inner_writable m mem'"
  using assms
proof (induction l arbitrary: p table mem fa)
  case (Suc l)
  show ?case
  proof (cases l)
    case (Suc k)
    let ?j = "table_index va (Suc (Suc k))" and ?a = "entry m table (table_index va (Suc (Suc k)))"
    have p: "length p \<le> 2" using Suc.prems(5) Suc by simp
    have pj: "length (p @ [?j]) + l = 4" "indices_ok (p @ [?j])" using Suc.prems(5,6) by simp_all
    consider (absent) "mem ?a AND PRESENT = 0" | (huge) "mem ?a AND PRESENT \<noteq> 0" "mem ?a AND HUGE \<noteq> 0"
      | (there) "mem ?a AND PRESENT \<noteq> 0" "mem ?a AND HUGE = 0" by blast
    then show ?thesis
    proof cases
      case there
      define mem1 where "mem1 = (if flags AND USER \<noteq> 0 \<and> mem ?a AND USER = 0 then mem(?a := mem ?a OR USER) else mem)"
      have g: "tables_grow m mem fa mem1 fa"
        using user_bit_grow [OF Suc.prems(1,2,4) p Suc.prems(6) table_index_less there refl] tables_grow_refl Suc.prems(1,2)
        by (simp add: mem1_def)
      have "walk m mem (root_table m) (p @ [?j]) = Some (mem ?a AND ADDRESS_MASK)"
        using Suc.prems(4) there by (simp add: walk_append)
      then have w1: "walk m mem1 (root_table m) (p @ [?j]) = Some (mem ?a AND ADDRESS_MASK)"
        using tables_growD(3) [OF g] p Suc.prems(6) by simp
      have "inner_writable m mem1"
        using inner_writable_user_bit [OF Suc.prems(3,1,4) p Suc.prems(6) table_index_less there] Suc.prems(3) by (simp add: mem1_def)
      moreover have "map_walk m va flags l (mem ?a AND ADDRESS_MASK) mem1 fa = (mem', fa', r)"
        using Suc.prems(7) there Suc by (simp add: mem1_def Let_def)
      ultimately show ?thesis using Suc.IH [OF tables_growD(1,2) [OF g] _ w1 pj] by blast
    next
      case absent
      show ?thesis
      proof (cases rule: allocate_frame_cases [of fa])
        case (some fa1)
        define f where "f = usable_frames fa ! next_frame fa"
        define mem1 where "mem1 = (zero_page m mem f)(?a := f OR PRESENT OR WRITABLE OR (flags AND USER))"
        note g = new_table_grow [OF Suc.prems(1,2,4) p Suc.prems(6) table_index_less absent some(2,3,4) f_def mem1_def]
        have "no_table m mem f" using Suc.prems(2) some(4) by (simp add: frames_ok_def f_def)
        then have "inner_writable m mem1"
          using inner_writable_table [OF Suc.prems(3,1,4) p Suc.prems(6) table_index_less absent _ mem1_def] by blast
        moreover have "map_walk m va flags l f mem1 fa1 = (mem', fa', r)"
          using Suc.prems(7) absent Suc some(1) by (simp add: mem1_def f_def Let_def)
        ultimately show ?thesis using Suc.IH [OF tables_growD(1,2) [OF g(1)] _ g(2) pj] by blast
      qed (use Suc.prems absent Suc in \<open>auto simp: Let_def\<close>)
    qed (use Suc.prems Suc in \<open>auto simp: Let_def\<close>)
  qed (use Suc.prems in auto)
qed auto

lemma map_page_inner_writable:
  assumes "pt_tree m mem" and "frames_ok m mem fa" and "inner_writable m mem"
    and "map_page m va frame flags mem fa = (mem', fa', r)"
  shows "inner_writable m mem'"
proof -
  obtain mem1 fa1 r1 where mw: "map_walk m va flags 4 (root_table m) mem fa = (mem1, fa1, r1)" by (metis prod_cases3)
  have i: "inner_writable m mem1" using map_walk_inner_writable [OF assms(1-3) _ _ _ mw, of "[]"] by simp
  have s: "tables_grow m mem fa mem1 fa1" "\<And>t. r1 = Inr t \<Longrightarrow> walk m mem1 (root_table m) (take 3 (path va)) = Some t"
    using map_walk_spec [OF assms(1,2) _ _ _ mw, of "[]"] by (auto simp: path_path_down)
  show ?thesis
  proof (cases r1)
    case (Inr t)
    then show ?thesis
      using inner_writable_leaf [OF i tables_growD(1) [OF s(1)] s(2) [OF Inr] take_path table_index_less] assms(4) mw i
      by (auto simp: map_page_def Let_def split: if_splits)
  qed (use assms(4) mw i in \<open>simp add: map_page_def\<close>)
qed

lemma mmap_loop_inner_writable:
  assumes "pt_tree (ctl_mapper c) mem" and "frames_ok (ctl_mapper c) mem (ctl_allocator c)" and "inner_writable (ctl_mapper c) mem"
    and "mmap_loop c mem start i n = Some (c', mem', r)"
  shows "inner_writable (ctl_mapper c) mem'"
  using assms
proof (induction n arbitrary: c mem i)
  case (Suc n)
  let ?m = "ctl_mapper c" and ?fa = "ctl_allocator c"
  obtain vaddr where va: "page_addr start i = Some vaddr" using Suc.prems(4) by (auto split: option.splits)
  show ?case
  proof (cases rule: allocate_frame_cases [of ?fa])
    case (some fa1)
    define f where "f = usable_frames ?fa ! next_frame ?fa"
    note z = zero_frame_grow [OF Suc.prems(1,2) some(2,3,4) f_def]
    note t1 = tables_growD(1,2) [OF z(1)]
    obtain mem2 fa2 r2 where mp: "map_page ?m vaddr f user_flags (zero_page ?m mem f) fa1 = (mem2, fa2, r2)" by (metis prod_cases3)
    have "no_table ?m mem f" using Suc.prems(2) some(4) by (simp add: frames_ok_def f_def)
    then have i2: "inner_writable ?m mem2"
      using map_page_inner_writable [OF t1 inner_writable_zero [OF Suc.prems(3,1)] mp] by blast
    note t2 = tables_growD(1,2) [OF map_page_spec(1) [OF t1 mp]]
    show ?thesis
      using Suc.prems(4) va some(1) mp i2 Suc.IH [of "c\<lparr>ctl_allocator := fa2\<rparr>" mem2 "i + 1"] t2
      by (cases r2) (simp_all add: f_def)
  qed (use Suc.prems va in auto)
qed simp

lemma munmap_loop_inner_writable:
  assumes "pt_tree m mem" and "inner_writable m mem" and "munmap_loop m mem start i n = Some mem'"
  shows "inner_writable m mem'"
  using assms
proof (induction n arbitrary: mem i)
  case (Suc n)
  obtain v where v: "page_addr start i = Some v" "munmap_loop m (fst (unmap_page m v mem)) start (i + 1) n = Some mem'"
    using Suc.prems(3) by (auto split: option.splits)
  have "pt_tree m (fst (unmap_page m v mem)) \<and> inner_writable m (fst (unmap_page m v mem))"
  proof (cases "unmap_walk m mem v 4 (root_table m)")
    case (Inr t)
    then have w: "walk m mem (root_table m) (take 3 (path v)) = Some t" by (simp add: unmap_walk_root)
    show ?thesis
      using leaf_write(1) [OF Suc.prems(1) w take_path table_index_less refl]
        inner_writable_leaf [OF Suc.prems(2,1) w take_path table_index_less] Inr Suc.prems
      by (auto simp: unmap_page_def Let_def)
  qed (use Suc.prems in \<open>simp add: unmap_page_def\<close>)
  then show ?case using Suc.IH [OF _ _ v(2)] by blast
qed simp

lemma store_bytes_inner_writable:
  assumes "store_bytes m va bs mem = Some mem'" and "pt_tree m mem" and "user_space_ok m mem fa"
    and "user_range va (length bs)" and "inner_writable m mem"
  shows "inner_writable m mem'"
  using assms
proof (induction bs arbitrary: va mem)
  case (Cons b bs)
  obtain mem1 where s: "store_byte m va b mem = Some mem1" "store_bytes m (va + 1) bs mem1 = Some mem'"
    using Cons.prems(1) by (auto split: option.splits)
  have r: "va < USER_ADDRESS_LIMIT" "user_range (va + 1) (length bs)"
    using user_range_Suc [of va "length bs"] Cons.prems(4) by simp_all
  obtain pa where pa: "translate m mem va = Some pa" "mem1 = write_byte m pa b mem" and sp: "same_space m mem mem1"
    using store_byte_spec [OF s(1) Cons.prems(2,3) r(1)] .
  have "no_table m mem (frame_of pa)" using Cons.prems(3) r(1) pa(1) by (simp add: user_space_ok_def)
  then have "inner_writable m mem1" using inner_writable_byte [OF Cons.prems(5,2)] pa(2) by simp
  then show ?case using Cons.IH [OF s(2)] same_spaceD [OF sp] Cons.prems(3) r(2) by simp
qed simp

lemma inner_writableD:
  "inner_writable m mem \<Longrightarrow> length q \<le> 2 \<Longrightarrow> indices_ok (q @ [i]) \<Longrightarrow> hd (q @ [i]) < 2 \<Longrightarrow>
   walk m mem (root_table m) q = Some x \<Longrightarrow> mem (entry m x i) AND PRESENT \<noteq> 0 \<Longrightarrow> mem (entry m x i) AND HUGE = 0 \<Longrightarrow>
   mem (entry m x i) AND WRITABLE \<noteq> 0"
  by (simp add: inner_writable_def)

lemma user_top_index: "va < USER_ADDRESS_LIMIT \<Longrightarrow> hd (path va) < 2"
  using table_index_digit [of va 3] by (simp add: path_def word_less_nat_alt USER_ADDRESS_LIMIT_def)

lemma writable_page:
  assumes "inner_writable m mem" and "va < USER_ADDRESS_LIMIT" and "leaf m mem va = Some (0, e)" and "e AND WRITABLE \<noteq> 0"
  shows "writable m mem va"
proof -
  have "writable_from m mem l t va"
    if "walk m mem (root_table m) p = Some t" "p @ path_down va l = path va" "leaf_at m mem t (path_down va l) = Some (0, e)" for l p t
    using that
  proof (induction l arbitrary: p t)
    case (Suc l)
    let ?i = "table_index va (Suc l)"
    let ?e = "mem (entry m t ?i)"
    have len: "length p + Suc l = 4" using arg_cong [OF Suc.prems(2), of length] by simp
    show ?case
    proof (cases l)
      case 0
      then show ?thesis using Suc.prems(3) assms(4) by (auto simp: Let_def split: if_splits)
    next
      case (Suc k)
      have e: "?e AND PRESENT \<noteq> 0" "?e AND HUGE = 0" "leaf_at m mem (?e AND ADDRESS_MASK) (path_down va l) = Some (0, e)"
        using Suc.prems(3) Suc by (auto simp: Let_def split: if_splits)
      have ok: "indices_ok (p @ [?i])" "hd (p @ [?i]) = hd (path va)"
        using path_simps(2) [of va] by (simp_all flip: Suc.prems(2)) (simp add: hd_append)
      have "?e AND WRITABLE \<noteq> 0"
        using inner_writableD [OF assms(1) _ ok(1) _ Suc.prems(1) e(1,2)] ok(2) user_top_index [OF assms(2)] len Suc by simp
      moreover have "walk m mem (root_table m) (p @ [?i]) = Some (?e AND ADDRESS_MASK)"
        using Suc.prems(1) e(1,2) by (simp add: walk_append)
      ultimately show ?thesis using Suc.IH [of "p @ [?i]"] Suc.prems(2) e by (simp add: Let_def)
    qed
  qed simp
  from this [of "[]" _ 4] show ?thesis using assms(3) by (simp add: writable_def leaf_def path_path_down)
qed

subsection \<open>Fresh memory\<close>

lemma read_byte_frame: "read_byte m mem pa = byte_of (mem (entry m (frame_of pa) (slot_of pa))) (byte_index pa)"
  by (simp add: read_byte_def word_place_entry)

lemma grown_load:
  assumes "tables_grow m mem fa mem' fa'" and "user_space_ok m mem fa" and "va < USER_ADDRESS_LIMIT"
    and "translate m mem' va = translate m mem va"
  shows "load_byte m mem' va = load_byte m mem va"
proof (cases "translate m mem va")
  case (Some pa)
  then have "no_table m mem (frame_of pa)" "handed_out fa (frame_of pa)"
    using assms(2,3) by (simp_all add: user_space_ok_def)
  then have "mem' (entry m (frame_of pa) (slot_of pa)) = mem (entry m (frame_of pa) (slot_of pa))"
    using assms(1) by (simp add: tables_grow_def)
  then show ?thesis using Some assms(4) by (simp add: load_byte_def read_byte_frame)
qed (use assms(4) in \<open>simp add: load_byte_def\<close>)

lemma blank_load:
  assumes "translate m mem va = Some (f + (va AND 0xFFF))" and "blank_page m mem f"
  shows "load_byte m mem va = Some 0"
proof -
  have "aligned f" using assms(2) by (simp add: blank_page_def no_table_def)
  then have "mem (entry m (frame_of (f + (va AND 0xFFF))) i) = 0" if "i < 512" for i
    using assms(2) that by (simp add: frame_of_page(1) blank_page_def)
  then show ?thesis using assms(1) by (simp add: load_byte_def read_byte_frame byte_of_def)
qed

lemma pages_mapped_kept:
  assumes "pages_mapped m mem mem' start 0 fs" and "translate m mem va \<noteq> None"
  shows "translate m mem' va = translate m mem va"
proof -
  have "leaf m mem va \<noteq> None" using assms(2) by (auto simp: translate_leaf split: option.splits)
  then have "path va \<noteq> path v" if "k < length fs" "page_addr start k = Some v" for k v
    using assms(1) that leaf_path [of va v m mem] by (auto simp: pages_mapped_def)
  then show ?thesis using assms(1) by (simp add: pages_mapped_def translate_leaf)
qed

lemma page_of_offset:
  assumes "page_addr start (j div 4096) = Some v" and "unat start mod 4096 = 0" and "unat start + j < 2 ^ 64" and "j < 2 ^ 48"
  shows "path (start + word_of_nat j) = path v"
proof -
  have "unat v = unat start + 4096 * (j div 4096)"
    using page_addr_value [OF assms(1)] assms(4) by simp
  moreover have "unat (start + word_of_nat j) = unat start + j"
    using assms(3) by (simp add: unat_word_ariths unat_of_nat)
  ultimately show ?thesis
    using assms(2) by (auto simp: path_page_number page_number_def elim!: dvdE simp: mod_eq_0_iff_dvd)
qed

lemma fresh_leaf:
  assumes "pages_mapped m mem mem' start 0 fs" and "unat start mod 4096 = 0"
    and "unat start + length fs * 4096 \<le> 2 ^ 64" and "length fs < 2 ^ 36" and j: "j < length fs * 4096"
  shows "leaf m mem' (start + word_of_nat j) = Some (0, fs ! (j div 4096) OR user_flags OR PRESENT)"
proof -
  have k: "j div 4096 < length fs" using j by (simp add: less_mult_imp_div_less)
  then obtain v where v: "page_addr start (j div 4096) = Some v"
    "leaf m mem' v = Some (0, fs ! (j div 4096) OR user_flags OR PRESENT)"
    using assms(1) by (auto simp: pages_mapped_def)
  have "path (start + word_of_nat j) = path v"
    using page_of_offset [OF v(1) assms(2)] j assms(3,4) by simp
  then show ?thesis using v(2) leaf_path by metis
qed

lemma pages_zeroed:
  assumes "pages_mapped m mem mem' start 0 fs" and "unat start mod 4096 = 0"
    and "unat start + length fs * 4096 \<le> 2 ^ 64" and "length fs < 2 ^ 36"
  shows "load_bytes m mem' start (length fs * 4096) = Some (replicate (length fs * 4096) 0)"
proof -
  have z: "load_byte m mem' (start + word_of_nat j) = Some 0" if j: "j < length fs * 4096" for j
  proof -
    have b: "blank_page m mem' (fs ! (j div 4096))"
      using assms(1) j by (simp add: pages_mapped_def less_mult_imp_div_less)
    show ?thesis using blank_load [OF translate_new_page [OF fresh_leaf [OF assms j]] b] b by (simp add: blank_page_def no_table_def)
  qed
  have "map (\<lambda>j. the (load_byte m mem' (start + word_of_nat j))) [0..<length fs * 4096] = map (\<lambda>_. 0) [0..<length fs * 4096]"
    by (rule map_cong) (simp_all add: z)
  also have "\<dots> = replicate (length fs * 4096) 0" by (simp add: map_replicate_const)
  finally show ?thesis using z unfolding load_bytes_conv by simp
qed

lemma page_addr_room:
  assumes "unat start + n * 4096 < 2 ^ 64" and "k < n"
  shows "page_addr start k = Some (start + word_of_nat (k * 4096))"
proof -
  have "unat (word_of_nat k :: u64) = k" using assms by (simp add: unat_of_nat)
  then have "checked_mul_w (word_of_nat k) PAGE_SIZE = Some (word_of_nat (k * 4096))"
    using assms by (simp add: checked_mul_w_def PAGE_SIZE_def)
  moreover have "unat (word_of_nat (k * 4096) :: u64) = k * 4096" by (rule unat_of_nat_small) (use assms in simp)
  ultimately show ?thesis using assms by (simp add: page_addr_def checked_add_w_def del: of_nat_mult)
qed

lemma pages_elsewhere:
  assumes pm: "pages_mapped m mem mem' start 0 fs" and r: "user_range start (length fs * 4096)"
    and va: "va < USER_ADDRESS_LIMIT"
    and out: "unat va div 4096 < unat start div 4096 \<or> unat start div 4096 + length fs \<le> unat va div 4096"
  shows "leaf m mem' va = leaf m mem va"
proof -
  have lim: "unat start + length fs * 4096 \<le> 2 ^ 40" "unat va < 2 ^ 40"
    using r va by (simp_all add: user_range_def word_less_nat_alt USER_ADDRESS_LIMIT_def)
  have "path va \<noteq> path v" if k: "k < length fs" and v: "page_addr start k = Some v" for k v
  proof
    assume "path va = path v"
    moreover have u: "unat v = unat start + 4096 * k" using page_addr_value [OF v] k lim(1) by simp
    moreover have "unat v < 2 ^ 40" using u k lim(1) by simp
    ultimately have "unat va div 4096 = (unat start + 4096 * k) div 4096"
      using lim(2) by (simp add: path_page_number page_number_def)
    then show False using out k by simp
  qed
  then show ?thesis using pm by (simp add: pages_mapped_def)
qed

subsection \<open>The contract of a memory for its clients\<close>

locale byte_memory =
  fixes ok :: "'m \<Rightarrow> bool"
    and load :: "'m \<Rightarrow> u64 \<Rightarrow> nat \<Rightarrow> u8 list option"
    and store :: "'m \<Rightarrow> u64 \<Rightarrow> u8 list \<Rightarrow> 'm option"
    and may_store :: "'m \<Rightarrow> u64 \<Rightarrow> nat \<Rightarrow> bool"
    and inside :: "u64 \<Rightarrow> nat \<Rightarrow> bool"
  assumes store_succeeds: "ok mem \<Longrightarrow> inside p (length bs) \<Longrightarrow> may_store mem p (length bs) \<Longrightarrow> \<exists>mem'. store mem p bs = Some mem'"
    and store_ok: "ok mem \<Longrightarrow> inside p (length bs) \<Longrightarrow> store mem p bs = Some mem' \<Longrightarrow> ok mem'"
    and store_may_store: "ok mem \<Longrightarrow> inside p (length bs) \<Longrightarrow> store mem p bs = Some mem' \<Longrightarrow> may_store mem' q k = may_store mem q k"
    and load_same: "ok mem \<Longrightarrow> inside p (length bs) \<Longrightarrow> store mem p bs = Some mem' \<Longrightarrow> load mem' p (length bs) = Some bs"
    and load_apart: "ok mem \<Longrightarrow> inside p (length bs) \<Longrightarrow> store mem p bs = Some mem' \<Longrightarrow> inside q k \<Longrightarrow> apart p (length bs) q k \<Longrightarrow>
      load mem' q k = load mem q k"
begin

lemma delivers:
  assumes "ok mem" and "inside p (length bs)" and "may_store mem p (length bs)"
  shows "\<exists>mem'. store mem p bs = Some mem' \<and> ok mem' \<and> load mem' p (length bs) = Some bs \<and>
    (\<forall>q k. inside q k \<longrightarrow> apart p (length bs) q k \<longrightarrow> load mem' q k = load mem q k)"
  using store_succeeds [OF assms] store_ok [OF assms(1,2)] load_same [OF assms(1,2)] load_apart [OF assms(1,2)] by blast

text \<open>Two deliveries into buffers that do not overlap do not disturb each other.\<close>

lemma delivers_both:
  assumes "ok mem" and "inside p (length bs)" and "may_store mem p (length bs)"
    and "inside q (length cs)" and "may_store mem q (length cs)" and "apart q (length cs) p (length bs)"
  shows "\<exists>mem1 mem2. store mem p bs = Some mem1 \<and> store mem1 q cs = Some mem2 \<and> ok mem2 \<and>
    load mem2 p (length bs) = Some bs \<and> load mem2 q (length cs) = Some cs"
proof -
  obtain mem1 where 1: "store mem p bs = Some mem1" "ok mem1" "load mem1 p (length bs) = Some bs"
    using delivers [OF assms(1-3)] by blast
  have "may_store mem1 q (length cs)" using store_may_store [OF assms(1,2) 1(1)] assms(5) by simp
  from delivers [OF 1(2) assms(4) this] 1 assms(2,6) show ?thesis by metis
qed

end

interpretation user: byte_memory "space_ok m fa" "load_bytes m" "\<lambda>mem p bs. store_bytes m p bs mem" "may_write m" user_range
  for m fa
proof (unfold_locales, goal_cases)
  case (1 mem p bs)
  then show ?case using store_bytes_succeeds [of m mem fa p bs] by (auto simp: space_ok_def may_write_def)
next
  case (2 mem p bs mem')
  then have s: "pt_tree m mem" "user_space_ok m mem fa" "inner_writable m mem" by (simp_all add: space_ok_def)
  note sp = store_bytes_spec(1) [OF 2(3) s(1,2) 2(2)]
  show ?case using store_bytes_inner_writable [OF 2(3) s(1,2) 2(2) s(3)] s(2) same_spaceD [OF sp] by (simp add: space_ok_def)
next
  case (3 mem p bs mem' q k)
  then have s: "pt_tree m mem" "user_space_ok m mem fa" by (simp_all add: space_ok_def)
  show ?case using same_spaceD [OF store_bytes_spec(1) [OF 3(3) s 3(2)]] by (simp add: may_write_def)
next
  case (4 mem p bs mem')
  then show ?case using load_stored [of m p bs mem mem' fa] by (simp add: space_ok_def)
next
  case (5 mem p bs mem' q k)
  then show ?case using load_elsewhere [of m p bs mem mem' fa q k] by (simp add: space_ok_def apart_def)
qed

end
