(* ===== verification/Syscalls.thy ===== *)
theory Syscalls
  imports Transition_System User_Memory Ipc_Channel Elf_Loader Vfs Scheduler
begin

text \<open>
  The system calls of a user program on x86-64: \<^verbatim>\<open>kernel/src/arch/x86_64/userspace.rs\<close>, from the dispatcher on. This is where
  the components meet: a call reads and writes user memory through the page tables (theory \<open>User_Memory\<close>), takes frames and maps
  pages (\<open>Paging\<close>), sends messages (\<open>Ipc_Channel\<close>), reads the mounted archive (\<open>Vfs\<close>), looks into an executable (\<open>Elf_Loader\<close>)
  and spawns or ends threads (\<open>Scheduler\<close>).

  The state \<open>machine\<close> holds the statics of these modules. The root table in use is the register \<open>cr3\<close> of the scheduler, so the mapper
  and the memory controller are derived from it (\<open>mapper_of\<close>, \<open>controller_of\<close>). A call ends in one of the ways of
  \<open>syscall_outcome\<close>: it returns a value to the program, resumes another thread, halts until the next interrupt, goes back to the
  boot code, or stops the kernel (a panic, or a page fault in ring 0). A slice made from a user pointer must be mapped where it
  is used; reading text looks at the whole slice.

  The drivers behind a call (the console or desktop that shows text, the keyboard, the reports of the status call) are the
  functions of the record \<open>kernel_env\<close> over a state of any type, with the heap buffer for a new kernel stack and the block device
  of the file system. What an interrupt does while \<^verbatim>\<open>SYS_YIELD\<close> halts is a step of its own in \<open>kernel_step\<close>. The stores of programs
  are steps too, for addresses below the user limit; the processor itself asks only for the user bit of the page. The assembly around the
  dispatcher is not modelled.
\<close>

subsection \<open>The machine\<close>

record 'd machine =
  phys_window :: u64
  frames :: "frame_allocator option"
  phys_memory :: mem
  scheduler :: sched
  registry :: channel_registry
  root_fs :: vfs
  mmap_next :: u64
  devices :: 'd

record 'd kernel_env =
  file_env :: fs_env
  new_stack :: u64
  print_text :: "str \<Rightarrow> 'd \<Rightarrow> 'd"
  print_line :: "str \<Rightarrow> 'd \<Rightarrow> 'd"
  drain_ascii :: "nat \<Rightarrow> 'd \<Rightarrow> 'd \<times> u8 list"
  heap_used :: "'d \<Rightarrow> nat"
  timer_ticks :: "'d \<Rightarrow> nat"
  total_events :: "'d \<Rightarrow> nat"
  settings_report :: "'d \<Rightarrow> str"
  usb_report :: "'d \<Rightarrow> str"
  draw_desktop :: "'d \<Rightarrow> 'd \<times> bool"

datatype 'd syscall_outcome =
    Returned u64 "'d machine"
  | Resumed cpu_context "'d machine"
  | Halted "'d machine"
  | To_Kernel u64 "'d machine"
  | Stopped

definition mapper_of :: "'d machine \<Rightarrow> mapper" where
  "mapper_of s = \<lparr>physical_offset = phys_window s, root_table = cr3 (scheduler s)\<rparr>"

definition controller_of :: "'d machine \<Rightarrow> controller option" where
  "controller_of s = map_option (\<lambda>fa. \<lparr>ctl_mapper = mapper_of s, ctl_allocator = fa\<rparr>) (frames s)"

definition load_user :: "'d machine \<Rightarrow> u64 \<Rightarrow> nat \<Rightarrow> u8 list option" where
  "load_user s ptr n = load_bytes (mapper_of s) (phys_memory s) ptr n"

definition store_user :: "'d machine \<Rightarrow> u64 \<Rightarrow> u8 list \<Rightarrow> 'd machine option" where
  "store_user s ptr bs = map_option (\<lambda>mem. s\<lparr>phys_memory := mem\<rparr>) (store_bytes (mapper_of s) ptr bs (phys_memory s))"

subsection \<open>Text\<close>

fun decimal :: "nat \<Rightarrow> str" where
  "decimal n = (if n < 10 then [0x30 + n] else decimal (n div 10) @ [0x30 + n mod 10])"

declare decimal.simps [simp del]

definition right_aligned :: "nat \<Rightarrow> str \<Rightarrow> str" where
  "right_aligned w s = replicate (w - length s) 0x20 @ s"

definition listing_line :: "dir_entry \<Rightarrow> str" where
  "listing_line e =
     lit (if dir_is_dir e then ''DIR '' else ''FILE'') @ lit ''  '' @ right_aligned 8 (decimal (dir_size e)) @
     lit ''  '' @ dir_name e @ [0x0A]"

subsection \<open>The handlers\<close>

definition sys_write :: "'d kernel_env \<Rightarrow> 'd machine \<Rightarrow> u64 \<Rightarrow> u64 \<Rightarrow> 'd syscall_outcome" where
  "sys_write env s ptr len =
     (case validate_user_ptr ptr len of
        Inl e \<Rightarrow> Returned e s
      | Inr _ \<Rightarrow>
          if MAX_BUFFER_SIZE < len then Returned EINVAL s
          else
            (case load_user s ptr (unat len) of
               None \<Rightarrow> Stopped
             | Some bytes \<Rightarrow>
                 (case from_utf8 bytes of
                    Some text \<Rightarrow> Returned len (s\<lparr>devices := print_text env text (devices s)\<rparr>)
                  | None \<Rightarrow> Returned EINVAL s)))"

definition sys_read :: "'d kernel_env \<Rightarrow> 'd machine \<Rightarrow> u64 \<Rightarrow> u64 \<Rightarrow> 'd syscall_outcome" where
  "sys_read env s ptr max_len =
     (case validate_user_ptr ptr max_len of
        Inl e \<Rightarrow> Returned e s
      | Inr _ \<Rightarrow>
          let len = min (unat max_len) (unat MAX_BUFFER_SIZE);
              (d, typed) = drain_ascii env len (devices s);
              bytes = take len typed
          in case store_user (s\<lparr>devices := d\<rparr>) ptr bytes of
               None \<Rightarrow> Stopped
             | Some s' \<Rightarrow> Returned (word_of_nat (length bytes)) s')"

definition sys_yield :: "'d machine \<Rightarrow> 'd syscall_outcome" where
  "sys_yield s =
     Returned 0
       (if active (scheduler s) then s\<lparr>scheduler := expire_current_quantum (scheduler s)\<rparr> else s)"

definition sys_getpid :: u64 where
  "sys_getpid = 1"

definition after_mmap :: "'d machine \<Rightarrow> controller option \<Rightarrow> mem \<Rightarrow> 'd machine" where
  "after_mmap s ctl mem = s\<lparr>frames := map_option ctl_allocator ctl, phys_memory := mem\<rparr>"

definition sys_mmap :: "'d machine \<Rightarrow> u64 \<Rightarrow> 'd syscall_outcome" where
  "sys_mmap s requested_size =
     (if requested_size = 0 \<or> 256 * PAGE_SIZE < requested_size then Returned EINVAL s
      else
        let pages = div_ceil (unat requested_size) 4096;
            addr = mmap_next s;
            s1 = s\<lparr>mmap_next := addr + word_of_nat pages * PAGE_SIZE\<rparr>
        in case mmap_user_pages (controller_of s1) (phys_memory s1) addr pages of
             None \<Rightarrow> Stopped
           | Some (ctl, mem, Inr mapped) \<Rightarrow> Returned mapped (after_mmap s1 ctl mem)
           | Some (ctl, mem, Inl e) \<Rightarrow> Returned e (after_mmap s1 ctl mem))"

definition sys_munmap :: "'d machine \<Rightarrow> u64 \<Rightarrow> u64 \<Rightarrow> 'd syscall_outcome" where
  "sys_munmap s addr len =
     (if unat addr mod 4096 \<noteq> 0 \<or> len = 0 then Returned EINVAL s
      else
        (case validate_user_ptr addr len of
           Inl e \<Rightarrow> Returned e s
         | Inr _ \<Rightarrow>
             (case munmap_user_pages (controller_of s) (phys_memory s) addr (div_ceil (unat len) 4096) of
                None \<Rightarrow> Stopped
              | Some (mem, Inr _) \<Rightarrow> Returned 0 (s\<lparr>phys_memory := mem\<rparr>)
              | Some (mem, Inl e) \<Rightarrow> Returned e (s\<lparr>phys_memory := mem\<rparr>))))"

definition spawn_at :: "'d kernel_env \<Rightarrow> 'd machine \<Rightarrow> str \<Rightarrow> u64 \<Rightarrow> u64 \<Rightarrow> 'd syscall_outcome" where
  "spawn_at env s path_str entry_point mode =
     (let cr3_root = cr3 (scheduler s);
          stack_base = mmap_next s;
          s1 = s\<lparr>mmap_next := stack_base + 16 * PAGE_SIZE\<rparr>
      in case mmap_user_pages (controller_of s1) (phys_memory s1) stack_base 16 of
           None \<Rightarrow> Stopped
         | Some (ctl, mem, Inl e) \<Rightarrow> Returned ENOMEM (after_mmap s1 ctl mem)
         | Some (ctl, mem, Inr _) \<Rightarrow>
             (case checked_add_w stack_base (16 * PAGE_SIZE) of
                None \<Rightarrow> Stopped
              | Some stack_top \<Rightarrow>
                  (case spawn_process (scheduler s1) path_str cr3_root entry_point stack_top 0 True mode (new_stack env) of
                     None \<Rightarrow> Stopped
                   | Some (sched, pid, _) \<Rightarrow> Returned pid ((after_mmap s1 ctl mem)\<lparr>scheduler := sched\<rparr>))))"

definition sys_spawn :: "'d kernel_env \<Rightarrow> 'd machine \<Rightarrow> u64 \<Rightarrow> u64 \<Rightarrow> u64 \<Rightarrow> 'd syscall_outcome" where
  "sys_spawn env s path_ptr path_len mode =
     (case validate_user_ptr path_ptr path_len of
        Inl e \<Rightarrow> Returned e s
      | Inr _ \<Rightarrow>
          if 256 < path_len then Returned EINVAL s
          else
            (case load_user s path_ptr (unat path_len) of
               None \<Rightarrow> Stopped
             | Some path_bytes \<Rightarrow>
                 (case from_utf8 path_bytes of
                    None \<Rightarrow> Returned EINVAL s
                  | Some path_str \<Rightarrow>
                      (case read_all (file_env env) (root_fs s) path_str of
                         None \<Rightarrow> Stopped
                       | Some (Inl _) \<Rightarrow> Returned ENOENT s
                       | Some (Inr binary) \<Rightarrow>
                           (case parse_entry binary of
                              None \<Rightarrow> Returned EINVAL s
                            | Some entry_point \<Rightarrow> spawn_at env s path_str entry_point mode)))))"

definition sys_waitpid :: "'d machine \<Rightarrow> u64 \<Rightarrow> 'd syscall_outcome" where
  "sys_waitpid s target_pid = (if active (scheduler s) then sys_yield s else Returned 0 s)"

definition sys_channel_create :: "'d machine \<Rightarrow> 'd syscall_outcome" where
  "sys_channel_create s =
     (case create_channel (registry s) of
        (reg, Inr i) \<Rightarrow> Returned i (s\<lparr>registry := reg\<rparr>)
      | (reg, Inl e) \<Rightarrow> Returned e (s\<lparr>registry := reg\<rparr>))"

text \<open>The message is copied out of the caller's slice only when the channel accepts it; the errors depend on its
  length alone.\<close>

definition sys_channel_send :: "'d machine \<Rightarrow> u64 \<Rightarrow> u64 \<Rightarrow> u64 \<Rightarrow> 'd syscall_outcome" where
  "sys_channel_send s channel_id buf_ptr len =
     (case validate_user_ptr buf_ptr len of
        Inl e \<Rightarrow> Returned e s
      | Inr _ \<Rightarrow>
          (case send_message (registry s) channel_id sys_getpid
                  (case load_user s buf_ptr (unat len) of None \<Rightarrow> replicate (unat len) 0 | Some bytes \<Rightarrow> bytes) of
             (reg, Inl e) \<Rightarrow> Returned e (s\<lparr>registry := reg\<rparr>)
           | (reg, Inr sent) \<Rightarrow>
               if load_user s buf_ptr (unat len) = None then Stopped
               else Returned (word_of_nat sent) (s\<lparr>registry := reg\<rparr>)))"

text \<open>A receive writes the bytes it copies and no others: the first \<open>n\<close> of the buffer that comes back.\<close>

definition sys_channel_recv :: "'d machine \<Rightarrow> u64 \<Rightarrow> u64 \<Rightarrow> u64 \<Rightarrow> 'd syscall_outcome" where
  "sys_channel_recv s channel_id buf_ptr max_len =
     (case validate_user_ptr buf_ptr max_len of
        Inl e \<Rightarrow> Returned e s
      | Inr _ \<Rightarrow>
          (case recv_message (registry s) channel_id sys_getpid (replicate (unat max_len) 0) of
             (reg, out, Inl e) \<Rightarrow> Returned e (s\<lparr>registry := reg\<rparr>)
           | (reg, out, Inr n) \<Rightarrow>
               (case store_user (s\<lparr>registry := reg\<rparr>) buf_ptr (take n out) of
                  None \<Rightarrow> Stopped
                | Some s' \<Rightarrow> Returned (word_of_nat n) s')))"

definition read_user_path :: "'d machine \<Rightarrow> u64 \<Rightarrow> u64 \<Rightarrow> (u64 + str) option" where
  "read_user_path s ptr len =
     (case validate_user_ptr ptr len of
        Inl e \<Rightarrow> Some (Inl e)
      | Inr _ \<Rightarrow>
          if len = 0 \<or> 256 < len then Some (Inl EINVAL)
          else map_option (\<lambda>bytes. ok_or EINVAL (from_utf8 bytes)) (load_user s ptr (unat len)))"

definition copy_out :: "'d machine \<Rightarrow> u64 \<Rightarrow> u64 \<Rightarrow> u8 list \<Rightarrow> 'd syscall_outcome" where
  "copy_out s out_ptr out_len bytes =
     (case validate_user_ptr out_ptr out_len of
        Inl e \<Rightarrow> Returned e s
      | Inr _ \<Rightarrow>
          let n = min (length bytes) (unat out_len)
          in case store_user s out_ptr (take n bytes) of
               None \<Rightarrow> Stopped
             | Some s' \<Rightarrow> Returned (word_of_nat n) s')"

definition sys_fs_list :: "'d machine \<Rightarrow> u64 \<Rightarrow> u64 \<Rightarrow> u64 \<Rightarrow> u64 \<Rightarrow> 'd syscall_outcome" where
  "sys_fs_list s path_ptr path_len out_ptr out_len =
     (case read_user_path s path_ptr path_len of
        None \<Rightarrow> Stopped
      | Some (Inl e) \<Rightarrow> Returned e s
      | Some (Inr path_str) \<Rightarrow>
          (case vfs_list_dir (root_fs s) path_str of
             Inl _ \<Rightarrow> Returned ENOENT s
           | Inr es \<Rightarrow> copy_out s out_ptr out_len (as_bytes (concat (map listing_line es)))))"

definition sys_fs_readfile :: "'d kernel_env \<Rightarrow> 'd machine \<Rightarrow> u64 \<Rightarrow> u64 \<Rightarrow> u64 \<Rightarrow> u64 \<Rightarrow> 'd syscall_outcome" where
  "sys_fs_readfile env s path_ptr path_len out_ptr out_len =
     (case read_user_path s path_ptr path_len of
        None \<Rightarrow> Stopped
      | Some (Inl e) \<Rightarrow> Returned e s
      | Some (Inr path_str) \<Rightarrow>
          (case read_all (file_env env) (root_fs s) path_str of
             None \<Rightarrow> Stopped
           | Some (Inr bytes) \<Rightarrow> copy_out s out_ptr out_len bytes
           | Some (Inl _) \<Rightarrow> Returned ENOENT s))"

definition sys_sysinfo :: "'d kernel_env \<Rightarrow> 'd machine \<Rightarrow> u64 \<Rightarrow> u64 \<Rightarrow> 'd syscall_outcome" where
  "sys_sysinfo env s out_ptr out_len =
     (let d = devices s;
          text = lit ''arch: x86_64'' @ [0x0A] @ lit ''heap_used: '' @ decimal (heap_used env d) @ lit '' B'' @ [0x0A] @
            lit ''uptime_ticks: '' @ decimal (timer_ticks env d) @ [0x0A] @
            lit ''input_events: '' @ decimal (total_events env d) @ [0x0A] @
            settings_report env d @ [0x0A] @ usb_report env d
      in copy_out s out_ptr out_len (as_bytes text))"

definition sys_launch_desktop :: "'d kernel_env \<Rightarrow> 'd machine \<Rightarrow> 'd syscall_outcome" where
  "sys_launch_desktop env s =
     (case draw_desktop env (devices s) of
        (d, drawn) \<Rightarrow> Returned (if drawn then 0 else ENOSYS) (s\<lparr>devices := d\<rparr>))"

definition sys_exit :: "'d machine \<Rightarrow> u64 \<Rightarrow> 'd syscall_outcome" where
  "sys_exit s code =
     (if active (scheduler s) then
        (case exit_current_syscall (scheduler s) code of
           (sched, Some ctx) \<Rightarrow> Resumed ctx (s\<lparr>scheduler := sched\<rparr>)
         | (sched, None) \<Rightarrow> Halted (s\<lparr>scheduler := sched\<rparr>))
      else To_Kernel code s)"

definition handle_syscall ::
  "'d kernel_env \<Rightarrow> 'd machine \<Rightarrow> u64 \<Rightarrow> u64 \<Rightarrow> u64 \<Rightarrow> u64 \<Rightarrow> u64 \<Rightarrow> 'd syscall_outcome" where
  "handle_syscall env s number arg1 arg2 arg3 arg4 =
     (if number = SYS_EXIT then sys_exit s arg1
      else if number = SYS_WRITE then sys_write env s arg1 arg2
      else if number = SYS_READ then sys_read env s arg1 arg2
      else if number = SYS_YIELD then sys_yield s
      else if number = SYS_GETPID then Returned sys_getpid s
      else if number = SYS_MMAP then sys_mmap s arg1
      else if number = SYS_MUNMAP then sys_munmap s arg1 arg2
      else if number = SYS_SPAWN then sys_spawn env s arg1 arg2 arg3
      else if number = SYS_WAITPID then sys_waitpid s arg1
      else if number = SYS_CHANNEL_CREATE then sys_channel_create s
      else if number = SYS_CHANNEL_SEND then sys_channel_send s arg1 arg2 arg3
      else if number = SYS_CHANNEL_RECV then sys_channel_recv s arg1 arg2 arg3
      else if number = SYS_FS_LIST then sys_fs_list s arg1 arg2 arg3 arg4
      else if number = SYS_FS_READFILE then sys_fs_readfile env s arg1 arg2 arg3 arg4
      else if number = SYS_SYSINFO then sys_sysinfo env s arg1 arg2
      else if number = SYS_LAUNCH_DESKTOP then sys_launch_desktop env s
      else
        Returned EINVAL
          (s\<lparr>devices := print_line env (lit ''  unknown syscall: '' @ decimal (unat number)) (devices s)\<rparr>))"

subsection \<open>Specification vocabulary\<close>

fun outcome_state :: "'d syscall_outcome \<Rightarrow> 'd machine option" where
  "outcome_state (Returned r s) = Some s"
| "outcome_state (Resumed ctx s) = Some s"
| "outcome_state (Halted s) = Some s"
| "outcome_state (To_Kernel code s) = Some s"
| "outcome_state Stopped = None"

text \<open>All processes share one address space: a process has the root table in use, or none (the kernel thread).\<close>

definition one_space :: "sched \<Rightarrow> bool" where
  "one_space sc \<longleftrightarrow> (\<forall>pid p. processes sc pid = Some p \<longrightarrow> page_table_root p = 0 \<or> page_table_root p = cr3 sc)"

definition kernel_inv :: "'d machine \<Rightarrow> bool" where
  "kernel_inv s \<longleftrightarrow> sched_inv (scheduler s) \<and> one_space (scheduler s) \<and> registry_ok (registry s) \<and>
     pt_tree (mapper_of s) (phys_memory s) \<and> inner_writable (mapper_of s) (phys_memory s) \<and>
     (\<exists>fa. frames s = Some fa \<and> frames_ok (mapper_of s) (phys_memory s) fa \<and> user_space_ok (mapper_of s) (phys_memory s) fa)"

definition keeps_kernel :: "'d syscall_outcome \<Rightarrow> bool" where
  "keeps_kernel r \<longleftrightarrow> (\<forall>s'. outcome_state r = Some s' \<longrightarrow> kernel_inv s')"

definition ids_remain :: "'d machine \<Rightarrow> bool" where
  "ids_remain s \<longleftrightarrow> next_pid (scheduler s) \<noteq> - 1 \<and> next_tid (scheduler s) \<noteq> - 1"

inductive kernel_step :: "'d machine \<Rightarrow> 'd machine \<Rightarrow> bool" where
  system_call: "kernel_step s s'" if "ids_remain s" "outcome_state (handle_syscall env s n a b c d) = Some s'"
| timer_tick: "kernel_step s (s\<lparr>scheduler := sc\<rparr>)" if "on_tick (scheduler s) ctx = Some (sc, ctx', sw)"
| user_store: "kernel_step s (s\<lparr>phys_memory := mem\<rparr>)"
    if "va < USER_ADDRESS_LIMIT" "store_byte (mapper_of s) va b (phys_memory s) = Some mem"
| device_event: "kernel_step s (s\<lparr>devices := dev\<rparr>)"

definition room_at :: "'d machine \<Rightarrow> u64 \<Rightarrow> nat \<Rightarrow> bool" where
  "room_at s start n \<longleftrightarrow>
     (\<exists>fa. frames s = Some fa \<and> frames_handed_out fa + 4 * n \<le> length (usable_frames fa)) \<and>
     unat start mod 4096 = 0 \<and> unat start + n * 4096 < 2 ^ 64 \<and>
     (\<forall>k<n. translate (mapper_of s) (phys_memory s) (start + word_of_nat (k * 4096)) = None)"

definition user_writable :: "'d machine \<Rightarrow> u64 \<Rightarrow> nat \<Rightarrow> bool" where
  "user_writable s p n = may_write (mapper_of s) (phys_memory s) p n"

definition demo_region :: region where
  "demo_region = \<lparr>region_start = 0x100000, region_end = 0x200000, usable = True\<rparr>"

definition boot_machine :: "unit machine" where
  "boot_machine =
     \<lparr>phys_window = 0, frames = Some (new_frame_allocator [demo_region]), phys_memory = (\<lambda>_. 0),
      scheduler = new_sched\<lparr>cr3 := 0x1000\<rparr>, registry = fst (create_channel new_registry),
      root_fs = Some \<lparr>backing = Memory (tar_archive demo_files), entries = file_entries 0 demo_files\<rparr>,
      mmap_next = 0x10000000, devices = ()\<rparr>"

definition demo_kernel :: "unit kernel_env" where
  "demo_kernel =
     \<lparr>file_env = demo_env, new_stack = 0x444444440000, print_text = (\<lambda>_ d. d), print_line = (\<lambda>_ d. d),
      drain_ascii = (\<lambda>_ d. (d, [])), heap_used = (\<lambda>_. 0), timer_ticks = (\<lambda>_. 0), total_events = (\<lambda>_. 0),
      settings_report = (\<lambda>_. []), usb_report = (\<lambda>_. []), draw_desktop = (\<lambda>d. (d, True))\<rparr>"

definition elf_root :: tar_fs where
  "elf_root = \<lparr>backing = Memory demo_image,
     entries = [\<lparr>entry_path = lit ''/'', entry_size = 124, entry_is_dir = False, sector_or_offset = 0\<rparr>]\<rparr>"

subsection \<open>Scheduling in one address space\<close>

lemma one_space_roots:
  assumes "one_space sc" and "cr3 sc' = cr3 sc"
    and "\<And>pid p. processes sc' pid = Some p \<Longrightarrow> page_table_root p = 0 \<or> page_table_root p = cr3 sc \<or>
      (\<exists>q. processes sc pid = Some q \<and> page_table_root p = page_table_root q)"
  shows "one_space sc'"
  using assms unfolding one_space_def by metis

lemma enter_process_one_space:
  "one_space sc \<Longrightarrow> cr3 (enter_process sc pid) = cr3 sc"
  by (fastforce simp: one_space_def enter_process_def switch_page_table_def split: option.splits)

lemma end_current_roots:
  "cr3 (end_current sc code) = cr3 sc"
  "processes (end_current sc code) pid = Some p \<Longrightarrow>
     \<exists>q. processes sc pid = Some q \<and> page_table_root p = page_table_root q"
  by (auto simp: end_current_def terminate_def Let_def split: option.splits if_splits)

lemma end_current_one_space: "one_space sc \<Longrightarrow> one_space (end_current sc code)"
  using one_space_roots [of sc "end_current sc code"] end_current_roots by blast

lemma exit_loop_one_space:
  "one_space sc \<Longrightarrow> one_space (fst (exit_loop sc q)) \<and> cr3 (fst (exit_loop sc q)) = cr3 sc"
proof (induction q)
  case (Cons t q)
  then have "one_space (sc\<lparr>ready_queue := q\<rparr>)" by (simp add: one_space_def)
  note e = enter_process_one_space [OF this]
  have "one_space (run_thread (enter_process (sc\<lparr>ready_queue := q\<rparr>) pid) t nx)" for pid nx
    using Cons.prems e by (simp add: one_space_def)
  with Cons e show ?case by (simp split: option.split)
qed (simp add: one_space_def)

lemma exit_one_space:
  assumes "one_space sc"
  shows "one_space (fst (exit_current_syscall sc code))" and "cr3 (fst (exit_current_syscall sc code)) = cr3 sc"
  using exit_loop_one_space [OF end_current_one_space [OF assms]] end_current_roots(1)
  by (simp_all add: exit_current_syscall_def Let_def)

lemma switch_one_space:
  assumes "one_space sc"
  shows "cr3 (switch_to sc t n q) = cr3 sc"
proof -
  have "one_space (sc\<lparr>ready_queue := q\<rparr>)" using assms by (simp add: one_space_def)
  then show ?thesis by (simp add: switch_to_def enter_process_one_space)
qed

lemma pick_one_space:
  assumes "one_space sc" and "pick_and_switch_next sc ctx = Some (sc', ctx', b)"
  shows "one_space sc' \<and> cr3 sc' = cr3 sc"
proof (cases rule: queue_cases [of "ready_queue sc" sc])
  case none
  then have "sc' = sc\<lparr>ready_queue := []\<rparr>" using assms(2) by (simp add: pick_and_switch_next_def pick_loop_none)
  then show ?thesis using assms(1) by (simp add: one_space_def)
next
  case (some pre t rest nx)
  then have "sc' = switch_to sc t nx rest"
    using assms(2) by (auto simp: pick_and_switch_next_def pick_loop_some split: if_splits)
  then show ?thesis using assms(1) switch_one_space [OF assms(1)] by (simp add: one_space_def)
qed

lemma tick_one_space:
  assumes "one_space sc" and "on_tick sc ctx = Some (sc', ctx', b)"
  shows "one_space sc' \<and> cr3 sc' = cr3 sc"
proof -
  have keep: "pick_and_switch_next sc1 ctx = Some (sc', ctx', b) \<Longrightarrow> one_space sc1 \<Longrightarrow> cr3 sc1 = cr3 sc \<Longrightarrow>
      one_space sc' \<and> cr3 sc' = cr3 sc" for sc1
    using pick_one_space by metis
  have "one_space (capture_kernel sc ctx)" "cr3 (capture_kernel sc ctx) = cr3 sc"
    using assms(1) by (auto simp: one_space_def capture_kernel_def new_pcb_def add_thread_def)
  moreover have "one_space (set_thread sc t u)" "one_space ((set_thread sc t u)\<lparr>ready_queue := q\<rparr>)" for t u q
    using assms(1) by (simp_all add: one_space_def)
  ultimately show ?thesis
    using assms by (auto simp: on_tick_def Let_def split: if_splits option.splits dest!: keep)
qed

lemma expire_one_space:
  "one_space (expire_current_quantum sc) = one_space sc" "cr3 (expire_current_quantum sc) = cr3 sc"
  by (simp_all add: expire_current_quantum_def one_space_def split: option.splits)

lemma spawn_process_fields:
  assumes "spawn_process sc name root ent usp ksp user arg fresh = Some (sc', pid, tid)"
  shows "cr3 sc' = cr3 sc" and "pid = next_pid sc" and "tid = next_tid sc"
    and "processes sc' = (processes sc)(next_pid sc \<mapsto> add_thread (new_pcb (next_pid sc) name root user) (next_tid sc))"
    and "ready_queue sc' = ready_queue sc @ [next_tid sc]"
    and "\<exists>k. threads sc' = (threads sc)(next_tid sc \<mapsto>
      new_tcb (next_tid sc) (next_pid sc) usp k 10 (initial_context user ent usp k arg) (default_quantum sc))"
  using assms
  by (auto simp: spawn_process_def choose_stack_def alloc_kernel_stack_def Let_def split: option.splits if_splits)

lemma spawn_one_space:
  assumes "one_space sc" and "spawn_process sc name (cr3 sc) ent usp ksp user arg fresh = Some (sc', pid, tid)"
  shows "one_space sc'"
  using assms(1) spawn_process_fields(1,4) [OF assms(2)]
  by (auto simp: one_space_def new_pcb_def add_thread_def)

subsection \<open>What the parts of a call keep\<close>

lemma mapper_of_simps [simp]:
  "mapper_of (s\<lparr>devices := d\<rparr>) = mapper_of s" "mapper_of (s\<lparr>phys_memory := mem\<rparr>) = mapper_of s"
  "mapper_of (s\<lparr>registry := reg\<rparr>) = mapper_of s" "mapper_of (s\<lparr>mmap_next := a\<rparr>) = mapper_of s"
  "mapper_of (s\<lparr>frames := f\<rparr>) = mapper_of s" "mapper_of (after_mmap s ctl mem) = mapper_of s"
  "cr3 sc = cr3 (scheduler s) \<Longrightarrow> mapper_of (s\<lparr>scheduler := sc\<rparr>) = mapper_of s"
  by (simp_all add: mapper_of_def after_mmap_def)

lemma keeps_kernel_simps [simp]:
  "keeps_kernel (Returned r s) = kernel_inv s" "keeps_kernel (Resumed ctx s) = kernel_inv s"
  "keeps_kernel (Halted s) = kernel_inv s" "keeps_kernel (To_Kernel r s) = kernel_inv s" "keeps_kernel Stopped"
  by (simp_all add: keeps_kernel_def)

lemma kernel_inv_simps [simp]:
  "kernel_inv (s\<lparr>devices := d\<rparr>) = kernel_inv s" "kernel_inv (s\<lparr>mmap_next := a\<rparr>) = kernel_inv s"
  by (simp_all add: kernel_inv_def)

lemma kernel_inv_registry: "kernel_inv s \<Longrightarrow> registry_ok reg \<Longrightarrow> kernel_inv (s\<lparr>registry := reg\<rparr>)"
  by (simp add: kernel_inv_def)

lemma kernel_inv_scheduler:
  "kernel_inv s \<Longrightarrow> sched_inv sc \<Longrightarrow> one_space sc \<Longrightarrow> cr3 sc = cr3 (scheduler s) \<Longrightarrow> kernel_inv (s\<lparr>scheduler := sc\<rparr>)"
  by (simp add: kernel_inv_def)

lemma kernel_inv_memory:
  assumes "kernel_inv s" and "same_space (mapper_of s) (phys_memory s) mem" and "inner_writable (mapper_of s) mem"
  shows "kernel_inv (s\<lparr>phys_memory := mem\<rparr>)"
  using assms(1,3) same_spaceD [OF assms(2)] by (simp add: kernel_inv_def)

lemma valid_user_range: "validate_user_ptr p len = Inr u \<Longrightarrow> n \<le> unat len \<Longrightarrow> user_range p n"
  using validate_user_buffer_iff [of p len] by (simp add: validate_user_buffer_def user_range_def)

lemma store_user_space:
  assumes "kernel_inv s" and "store_user s p bs = Some s'" and "user_range p (length bs)"
  obtains mem fa where "s' = s\<lparr>phys_memory := mem\<rparr>" "store_bytes (mapper_of s) p bs (phys_memory s) = Some mem"
    "same_space (mapper_of s) (phys_memory s) mem" "user_space_ok (mapper_of s) (phys_memory s) fa"
    "pt_tree (mapper_of s) (phys_memory s)" "inner_writable (mapper_of s) mem"
proof -
  obtain mem where m: "s' = s\<lparr>phys_memory := mem\<rparr>" "store_bytes (mapper_of s) p bs (phys_memory s) = Some mem"
    using assms(2) by (auto simp: store_user_def)
  obtain fa where fa: "user_space_ok (mapper_of s) (phys_memory s) fa" "pt_tree (mapper_of s) (phys_memory s)"
    "inner_writable (mapper_of s) (phys_memory s)"
    using assms(1) by (auto simp: kernel_inv_def)
  with that m store_bytes_spec(1) [OF m(2) fa(2,1) assms(3)] store_bytes_inner_writable [OF m(2) fa(2,1) assms(3) fa(3)]
  show thesis by blast
qed

lemma store_user_inv:
  assumes "kernel_inv s" and "store_user s p bs = Some s'" and "user_range p (length bs)"
  shows "kernel_inv s'"
  using store_user_space [OF assms] kernel_inv_memory [OF assms(1)] by metis

lemma mmap_inv:
  assumes "kernel_inv s" and "mmap_user_pages (controller_of s) (phys_memory s) start n = Some (ctl, mem, r)"
  shows "kernel_inv (after_mmap s ctl mem)"
proof -
  obtain fa where fa: "frames s = Some fa" "pt_tree (mapper_of s) (phys_memory s)" "frames_ok (mapper_of s) (phys_memory s) fa"
    "user_space_ok (mapper_of s) (phys_memory s) fa" "inner_writable (mapper_of s) (phys_memory s)"
    using assms(1) by (auto simp: kernel_inv_def)
  let ?c = "\<lparr>ctl_mapper = mapper_of s, ctl_allocator = fa\<rparr>"
  obtain c' x where l: "mmap_loop ?c (phys_memory s) start 0 n = Some (c', mem, x)" "ctl = Some c'"
    using assms(2) fa(1) by (auto simp: mmap_user_pages_def controller_of_def split: option.splits sum.splits)
  have "user_space_ok (mapper_of s) mem (ctl_allocator c')"
    using mmap_loop_user_space [OF _ _ _ l(1)] fa(2-4) by simp
  moreover have "tables_grow (mapper_of s) (phys_memory s) fa mem (ctl_allocator c')"
    using mmap_loop_spec [OF _ _ l(1)] fa(2,3) by simp
  moreover have "inner_writable (mapper_of s) mem"
    using mmap_loop_inner_writable [OF _ _ _ l(1)] fa(2,3,5) by simp
  ultimately show ?thesis
    using assms(1) l(2) tables_growD(1,2) by (auto simp: kernel_inv_def after_mmap_def)
qed

subsection \<open>Every system call keeps the invariant\<close>

lemma copy_out_inv: "kernel_inv s \<Longrightarrow> keeps_kernel (copy_out s p len bs)"
  by (auto simp: copy_out_def Let_def valid_user_range split: sum.split option.split intro: store_user_inv)

lemma sys_read_inv: "kernel_inv s \<Longrightarrow> keeps_kernel (sys_read env s p len)"
  using store_user_inv [of "s\<lparr>devices := d\<rparr>" p "take n bs" for d n bs]
  by (auto simp: sys_read_def Let_def valid_user_range split: sum.split option.split prod.split)

lemma sys_mmap_inv:
  assumes "kernel_inv s"
  shows "keeps_kernel (sys_mmap s req)"
  using mmap_inv [of "s\<lparr>mmap_next := a\<rparr>" for a] assms
  by (auto simp: sys_mmap_def Let_def controller_of_def split: option.splits sum.splits)

lemma sys_munmap_inv:
  assumes "kernel_inv s"
  shows "keeps_kernel (sys_munmap s a len)"
proof -
  obtain fa where fa: "frames s = Some fa" "pt_tree (mapper_of s) (phys_memory s)" "frames_ok (mapper_of s) (phys_memory s) fa"
    "user_space_ok (mapper_of s) (phys_memory s) fa" "inner_writable (mapper_of s) (phys_memory s)"
    using assms by (auto simp: kernel_inv_def)
  have "kernel_inv (s\<lparr>phys_memory := mem\<rparr>)" if "munmap_loop (mapper_of s) (phys_memory s) a 0 n = Some mem" for mem n
    using munmap_loop_user_space [OF fa(2-4) that] munmap_loop_inner_writable [OF fa(2,5) that] assms fa(1) by (simp add: kernel_inv_def)
  then show ?thesis
    using assms fa(1) by (auto simp: sys_munmap_def munmap_user_pages_def controller_of_def split: sum.split option.split)
qed

lemma spawn_at_inv:
  assumes "kernel_inv s" and "ids_remain s"
  shows "keeps_kernel (spawn_at env s name ent mode)"
proof -
  let ?s1 = "s\<lparr>mmap_next := mmap_next s + 16 * PAGE_SIZE\<rparr>"
  have inv: "kernel_inv (after_mmap ?s1 ctl mem)"
    if "mmap_user_pages (controller_of ?s1) (phys_memory ?s1) start n = Some (ctl, mem, r)" for start n ctl mem r
    using mmap_inv [OF _ that] assms(1) by simp
  have "kernel_inv ((after_mmap ?s1 ctl mem)\<lparr>scheduler := sc\<rparr>)"
    if m: "mmap_user_pages (controller_of ?s1) (phys_memory ?s1) start n = Some (ctl, mem, r)"
      and sp: "spawn_process (scheduler s) name (cr3 (scheduler s)) ent top 0 True mode st = Some (sc, pid, tid)"
    for start n ctl mem r sc pid tid top st
  proof (rule kernel_inv_scheduler [OF inv [OF m]])
    show "sched_inv sc" using spawn_process_inv [OF _ _ _ sp] assms by (simp add: kernel_inv_def ids_remain_def)
    show "one_space sc" using spawn_one_space [OF _ sp] assms(1) by (simp add: kernel_inv_def)
    show "cr3 sc = cr3 (scheduler (after_mmap ?s1 ctl mem))" using spawn_process_fields(1) [OF sp] by (simp add: after_mmap_def)
  qed
  then show ?thesis using inv
    by (auto simp: spawn_at_def Let_def split: option.split sum.split prod.split)
qed

lemma sys_spawn_inv: "kernel_inv s \<Longrightarrow> ids_remain s \<Longrightarrow> keeps_kernel (sys_spawn env s p len mode)"
  by (auto simp: sys_spawn_def spawn_at_inv split: option.split sum.split)

lemma sys_yield_inv: "kernel_inv s \<Longrightarrow> keeps_kernel (sys_yield s)"
  by (auto simp: sys_yield_def expire_inv expire_one_space kernel_inv_def intro!: kernel_inv_scheduler)

lemma registry_step:
  "registry_ok reg \<Longrightarrow> create_channel reg = (reg', r) \<Longrightarrow> registry_ok reg'"
  "registry_ok reg \<Longrightarrow> send_message reg i pid bs = (reg', r') \<Longrightarrow> registry_ok reg'"
  "registry_ok reg \<Longrightarrow> recv_message reg i pid out = (reg', out', r') \<Longrightarrow> registry_ok reg'"
  using ipc_step_ok [of reg Create] ipc_step_ok [of reg "Send i pid bs"] ipc_step_ok [of reg "Recv i pid out"]
  by (auto simp: ipc_step_def split: sum.splits)

lemma channel_calls_inv:
  assumes "kernel_inv s"
  shows "keeps_kernel (sys_channel_create s)" and "keeps_kernel (sys_channel_send s i p len)"
    and "keeps_kernel (sys_channel_recv s i p len)"
proof -
  have reg: "registry_ok (registry s)" using assms by (simp add: kernel_inv_def)
  show "keeps_kernel (sys_channel_create s)"
    using registry_step(1) [OF reg] kernel_inv_registry [OF assms]
    by (auto simp: sys_channel_create_def split: prod.split sum.split)
  show "keeps_kernel (sys_channel_send s i p len)"
    using registry_step(2) [OF reg] kernel_inv_registry [OF assms] assms
    by (auto simp: sys_channel_send_def split: prod.split sum.split)
  show "keeps_kernel (sys_channel_recv s i p len)"
  proof (cases "validate_user_ptr p len")
    case (Inr u)
    obtain reg' out r where rm: "recv_message (registry s) i sys_getpid (replicate (unat len) 0) = (reg', out, r)" by (metis prod_cases3)
    have "kernel_inv s'" if "store_user (s\<lparr>registry := reg'\<rparr>) p (take n out) = Some s'" "r = Inr n" for s' n
    proof (rule store_user_inv [OF _ that(1)])
      show "kernel_inv (s\<lparr>registry := reg'\<rparr>)" using kernel_inv_registry [OF assms] registry_step(3) [OF reg rm] by blast
      have "length out \<le> unat len"
        using rm by (auto simp: recv_message_def chan_recv_def Let_def split: option.splits list.splits)
      then show "user_range p (length (take n out))" using valid_user_range [OF Inr] by simp
    qed
    then show ?thesis
      using Inr rm registry_step(3) [OF reg rm] kernel_inv_registry [OF assms]
      by (auto simp: sys_channel_recv_def split: sum.split option.split)
  qed (use assms in \<open>simp add: sys_channel_recv_def\<close>)
qed

lemma sys_exit_inv:
  assumes "kernel_inv s"
  shows "keeps_kernel (sys_exit s code)"
proof -
  have k: "sched_inv (scheduler s)" "one_space (scheduler s)" using assms by (simp_all add: kernel_inv_def)
  have "kernel_inv (s\<lparr>scheduler := fst (exit_current_syscall (scheduler s) code)\<rparr>)"
    using exit_syscall_inv [OF k(1)] exit_one_space [OF k(2)] by (intro kernel_inv_scheduler [OF assms]) simp_all
  then show ?thesis using assms by (auto simp: sys_exit_def split: prod.split option.split)
qed

lemma handle_syscall_inv:
  assumes "kernel_inv s" and "ids_remain s"
  shows "keeps_kernel (handle_syscall env s n a b c d)"
proof -
  have "keeps_kernel (sys_write env s a b)" "keeps_kernel (sys_waitpid s a)" "keeps_kernel (sys_launch_desktop env s)"
    "keeps_kernel (sys_fs_list s a b c d)" "keeps_kernel (sys_fs_readfile env s a b c d)" "keeps_kernel (sys_sysinfo env s a b)"
    using assms(1) sys_yield_inv [OF assms(1)] copy_out_inv [OF assms(1)]
    by (auto simp: sys_write_def sys_waitpid_def sys_launch_desktop_def sys_fs_list_def sys_fs_readfile_def sys_sysinfo_def Let_def
        split: option.split sum.split prod.split)
  then show ?thesis
    using assms by (simp add: handle_syscall_def sys_read_inv sys_mmap_inv sys_munmap_inv sys_spawn_inv sys_yield_inv
      channel_calls_inv sys_exit_inv)
qed

subsection \<open>Fresh memory\<close>

lemma mmap_serves:
  assumes inv: "kernel_inv s" and room: "room_at s start n" and n: "n < 2 ^ 36"
  obtains ctl mem fs where
    "mmap_user_pages (controller_of s) (phys_memory s) start n = Some (ctl, mem, Inr start)"
    "length fs = n" "pages_mapped (mapper_of s) (phys_memory s) mem start 0 fs"
    "load_bytes (mapper_of s) mem start (n * 4096) = Some (replicate (n * 4096) 0)"
    "\<forall>va k bs. user_range va k \<longrightarrow> load_bytes (mapper_of s) (phys_memory s) va k = Some bs \<longrightarrow>
       load_bytes (mapper_of s) mem va k = Some bs"
    "\<forall>j < n * 4096. start + word_of_nat j < USER_ADDRESS_LIMIT \<longrightarrow> writable (mapper_of s) mem (start + word_of_nat j)"
proof -
  obtain fa where fa: "frames s = Some fa" "frames_handed_out fa + 4 * n \<le> length (usable_frames fa)"
    using room by (auto simp: room_at_def)
  let ?m = "mapper_of s" and ?mem = "phys_memory s" and ?c = "\<lparr>ctl_mapper = mapper_of s, ctl_allocator = fa\<rparr>"
  have k: "pt_tree ?m ?mem" "frames_ok ?m ?mem fa" "user_space_ok ?m ?mem fa" using inv fa(1) by (simp_all add: kernel_inv_def)
  have a: "unat start mod 4096 = 0" "unat start + n * 4096 < 2 ^ 64" using room by (simp_all add: room_at_def)
  have "\<forall>k<n. \<exists>va. page_addr start k = Some va \<and> translate ?m ?mem va = None"
    using room page_addr_room [OF a(2)] by (simp add: room_at_def)
  then obtain c' mem where m: "mmap_user_pages (Some ?c) ?mem start n = Some (Some c', mem, Inr start)"
    using mmap_user_pages_returns [of ?c ?mem n start] k(1,2) n fa(2) by auto
  then obtain x where l: "mmap_loop ?c ?mem start 0 n = Some (c', mem, Inr x)"
    by (auto simp: mmap_user_pages_def split: option.splits sum.splits)
  obtain fs where fs: "pages_mapped ?m ?mem mem start 0 fs" "length fs = n"
    and grow: "tables_grow ?m ?mem fa mem (ctl_allocator c')"
    using mmap_loop_spec [OF _ _ l] k(1,2) by auto
  have "load_bytes ?m mem va j = Some bs" if r: "user_range va j" and lb: "load_bytes ?m ?mem va j = Some bs" for va j bs
  proof -
    have "load_byte ?m mem (va + word_of_nat i) = load_byte ?m ?mem (va + word_of_nat i)" if "i < j" for i
    proof -
      have "load_byte ?m ?mem (va + word_of_nat i) \<noteq> None"
        using lb that by (auto simp: load_bytes_conv split: if_splits)
      then have "translate ?m ?mem (va + word_of_nat i) \<noteq> None" by (auto simp: load_byte_def)
      then show ?thesis
        using grown_load [OF grow k(3) user_range_nth(1) [OF r that]] pages_mapped_kept [OF fs(1)] by blast
    qed
    then show ?thesis using lb load_bytes_cong by metis
  qed
  moreover have "load_bytes ?m mem start (n * 4096) = Some (replicate (n * 4096) 0)"
    using pages_zeroed [OF fs(1) a(1)] a(2) n fs(2) by simp
  moreover have "writable ?m mem (start + word_of_nat j)" if "j < n * 4096" "start + word_of_nat j < USER_ADDRESS_LIMIT" for j
  proof (rule writable_page [OF _ that(2)])
    show "inner_writable ?m mem" using mmap_loop_inner_writable [OF _ _ _ l] inv k(1,2) by (simp add: kernel_inv_def)
    show "leaf ?m mem (start + word_of_nat j) = Some (0, fs ! (j div 4096) OR user_flags OR PRESENT)"
      using fresh_leaf [OF fs(1) a(1) _ _, of j] that(1) a(2) n fs(2) by simp
    show "(fs ! (j div 4096) OR user_flags OR PRESENT) AND WRITABLE \<noteq> 0"
      by (simp add: bit.conj_disj_distrib2 or_eq_0_iff) (simp add: entry_bits)
  qed
  moreover have "controller_of s = Some ?c" using fa(1) by (simp add: controller_of_def)
  ultimately show thesis using that [of "Some c'" mem fs] m fs by simp
qed

lemma kernel_space: "kernel_inv s \<Longrightarrow> \<exists>fa. space_ok (mapper_of s) fa (phys_memory s)"
  by (auto simp: kernel_inv_def space_ok_def)

lemma store_user_delivers:
  assumes "kernel_inv s" and "user_range p (length bs)" and "user_writable s p (length bs)"
  obtains mem where "store_user s p bs = Some (s\<lparr>phys_memory := mem\<rparr>)"
    "load_user (s\<lparr>phys_memory := mem\<rparr>) p (length bs) = Some bs"
    "\<And>q k. user_range q k \<Longrightarrow> apart p (length bs) q k \<Longrightarrow> load_user (s\<lparr>phys_memory := mem\<rparr>) q k = load_user s q k"
proof -
  obtain fa where "space_ok (mapper_of s) fa (phys_memory s)" using kernel_space [OF assms(1)] by blast
  from user.delivers [OF this assms(2) assms(3) [unfolded user_writable_def]] show thesis
    using that by (auto simp: store_user_def load_user_def)
qed

lemma copy_out_delivers:
  assumes inv: "kernel_inv s" and v: "validate_user_ptr q m = Inr u"
    and w: "user_writable s q (min (length bs) (unat m))"
  obtains s' where "copy_out s q m bs = Returned (word_of_nat (min (length bs) (unat m))) s'"
    "load_user s' q (min (length bs) (unat m)) = Some (take (unat m) bs)"
    "\<And>p k. user_range p k \<Longrightarrow> apart q (min (length bs) (unat m)) p k \<Longrightarrow> load_user s' p k = load_user s p k"
proof -
  let ?n = "min (length bs) (unat m)"
  let ?bs = "take ?n bs"
  have r: "user_range q (length ?bs)" using valid_user_range [OF v] by simp
  have "user_writable s q (length ?bs)" using w by (simp add: min.absorb2)
  from store_user_delivers [OF inv r this] obtain mem where st: "store_user s q ?bs = Some (s\<lparr>phys_memory := mem\<rparr>)"
    "load_user (s\<lparr>phys_memory := mem\<rparr>) q (length ?bs) = Some ?bs"
    "\<And>p k. user_range p k \<Longrightarrow> apart q (length ?bs) p k \<Longrightarrow> load_user (s\<lparr>phys_memory := mem\<rparr>) p k = load_user s p k"
    by metis
  have l: "length ?bs = ?n" "?bs = take (unat m) bs" by (simp_all add: min_def)
  show thesis using that [of "s\<lparr>phys_memory := mem\<rparr>"] st v l by (simp add: copy_out_def Let_def)
qed

lemma read_user_path_ok:
  assumes "validate_user_ptr p n = Inr u" and "0 < n" and "n \<le> 256" and "load_user s p (unat n) = Some bs"
    and "from_utf8 bs = Some name"
  shows "read_user_path s p n = Some (Inr name)"
  using assms by (simp add: read_user_path_def word_neq_0_conv)

lemma kernel_step_inv:
  assumes "kernel_inv s1" and "kernel_step s1 s2"
  shows "kernel_inv s2"
  using assms(2)
proof cases
  case (system_call env n a b c d)
  then show ?thesis using handle_syscall_inv [OF assms(1), of env n a b c d] by (simp add: keeps_kernel_def)
next
  case (timer_tick ctx sc ctx' sw)
  then show ?thesis
    using on_tick_inv [OF _ timer_tick(2)] tick_one_space [OF _ timer_tick(2)] assms(1)
    by (auto simp: kernel_inv_def intro!: kernel_inv_scheduler)
next
  case (user_store va b mem)
  have "user_range va (length [b])" using user_store(2) by (simp add: user_range_def word_less_nat_alt)
  moreover have "store_user s1 va [b] = Some s2" using user_store by (simp add: store_user_def)
  ultimately show ?thesis using store_user_inv [OF assms(1)] by blast
qed (use assms(1) in simp)

interpretation kernel: transition_system kernel_step kernel_inv
  by unfold_locales (rule kernel_step_inv)

lemma mmap_call:
  assumes "kernel_inv s" and "0 < req" and "req \<le> 256 * PAGE_SIZE"
    and "room_at s (mmap_next s) (div_ceil (unat req) 4096)"
    and "user_range (mmap_next s) (div_ceil (unat req) 4096 * 4096)"
  obtains s' where "handle_syscall env s SYS_MMAP req x y z = Returned (mmap_next s) s'"
    "load_user s' (mmap_next s) (div_ceil (unat req) 4096 * 4096) = Some (replicate (div_ceil (unat req) 4096 * 4096) 0)"
    "user_writable s' (mmap_next s) (div_ceil (unat req) 4096 * 4096)"
    "\<forall>p k bs. user_range p k \<longrightarrow> load_user s p k = Some bs \<longrightarrow> load_user s' p k = Some bs"
    "unat (mmap_next s') = unat (mmap_next s) + div_ceil (unat req) 4096 * 4096"
    "registry s' = registry s" "root_fs s' = root_fs s" "scheduler s' = scheduler s"
proof -
  let ?n = "div_ceil (unat req) 4096" and ?a = "mmap_next s"
  let ?s1 = "s\<lparr>mmap_next := ?a + word_of_nat ?n * PAGE_SIZE\<rparr>"
  have "unat req \<le> 1048576" using assms(3) by (simp add: word_le_nat_alt PAGE_SIZE_def)
  then have n: "?n \<le> 256" using div_ceil_mult_less [of 4096 "unat req"] by simp
  have n36: "?n < 2 ^ 36" using n by simp
  have inv: "kernel_inv ?s1" using assms(1) by simp
  have room: "room_at ?s1 ?a ?n" using assms(4) by (simp add: room_at_def)
  obtain ctl mem fs where m: "mmap_user_pages (controller_of ?s1) (phys_memory ?s1) ?a ?n = Some (ctl, mem, Inr ?a)"
    "length fs = ?n" "pages_mapped (mapper_of ?s1) (phys_memory ?s1) mem ?a 0 fs"
    "load_bytes (mapper_of ?s1) mem ?a (?n * 4096) = Some (replicate (?n * 4096) 0)"
    "\<forall>va k bs. user_range va k \<longrightarrow> load_bytes (mapper_of ?s1) (phys_memory ?s1) va k = Some bs \<longrightarrow>
       load_bytes (mapper_of ?s1) mem va k = Some bs"
    "\<forall>j < ?n * 4096. ?a + word_of_nat j < USER_ADDRESS_LIMIT \<longrightarrow> writable (mapper_of ?s1) mem (?a + word_of_nat j)"
    using mmap_serves [OF inv room n36] .
  let ?s' = "after_mmap ?s1 ctl mem"
  have call: "handle_syscall env s SYS_MMAP req x y z = Returned ?a ?s'"
    using assms(2) leD [OF assms(3)] m(1)
    by (simp add: handle_syscall_def syscall_numbers sys_mmap_def Let_def word_neq_0_conv [symmetric])
  have mp: "mapper_of ?s' = mapper_of ?s1" "phys_memory ?s' = mem" by (simp_all add: after_mmap_def)
  have w: "user_writable ?s' ?a (?n * 4096)"
    using m(4,6) user_range_nth(1) [OF assms(5)]
    by (auto simp: user_writable_def may_write_def after_mmap_def load_bytes_conv load_byte_def split: if_splits)
  have "unat (mmap_next ?s') = unat ?a + ?n * 4096"
    using assms(5) n by (simp add: after_mmap_def unat_word_ariths unat_of_nat PAGE_SIZE_def user_range_def USER_ADDRESS_LIMIT_def)
  then show thesis
    using that [of ?s'] call m(4,5) w mp sys_mmap_inv [OF assms(1), of req] by (simp add: load_user_def after_mmap_def)
qed

subsection \<open>A concrete machine\<close>

lemma boot_mapper [simp]: "mapper_of boot_machine = demo_mapper"
  by (simp add: mapper_of_def boot_machine_def demo_mapper_def)

lemma boot_fields [simp]:
  "phys_memory boot_machine = (\<lambda>_. 0)" "mmap_next boot_machine = 0x10000000"
  "frames boot_machine = Some (new_frame_allocator [demo_region])"
  "registry boot_machine = fst (create_channel new_registry)"
  by (simp_all add: boot_machine_def)

lemma demo_region_frames: "length (usable_frames (new_frame_allocator [demo_region])) = 256"
  by (simp add: new_frame_allocator_def usable_frames_def demo_region_def region_frames_def div_ceil_def)

lemma demo_region_ok:
  "distinct (usable_frames (new_frame_allocator [demo_region]))"
  "f \<in> set (usable_frames (new_frame_allocator [demo_region])) \<Longrightarrow> aligned f \<and> 0x100000 \<le> f"
proof -
  have "distinct (concat (map region_frames [demo_region]))"
    by (rule usable_frames_distinct) (simp_all add: demo_region_def)
  then show "distinct (usable_frames (new_frame_allocator [demo_region]))"
    by (simp add: usable_frames_def new_frame_allocator_def demo_region_def)
  assume "f \<in> set (usable_frames (new_frame_allocator [demo_region]))"
  then have "f \<in> set (region_frames demo_region)"
    by (simp add: usable_frames_def new_frame_allocator_def demo_region_def)
  from region_frames_inside [OF this] show "aligned f \<and> 0x100000 \<le> f"
    by (simp add: frame_inside_def demo_region_def)
qed

lemma boot_inv: "kernel_inv boot_machine"
proof -
  have "sched_inv (scheduler boot_machine)" "one_space (scheduler boot_machine)"
    by (simp_all add: boot_machine_def sched_inv_def sched_core_def one_space_def new_sched_def)
  moreover have "registry_ok (registry boot_machine)"
    by (auto simp: registry_ok_def create_channel_def new_registry_def new_channel_def chan_ok_def Let_def)
  moreover have "inner_writable demo_mapper (\<lambda>_. 0)" by (simp add: inner_writable_def)
  moreover have "frames_ok demo_mapper (\<lambda>_. 0) (new_frame_allocator [demo_region])"
  proof -
    have "no_table demo_mapper (\<lambda>_. 0) f" if "f \<in> set (usable_frames (new_frame_allocator [demo_region]))" for f
      using demo_region_ok(2) [OF that] by (auto simp: no_table_def blank_walk demo_mapper_def split: if_splits)
    then show ?thesis using demo_region_ok(1) nth_mem by (auto simp: frames_ok_def)
  qed
  moreover have "user_space_ok demo_mapper (\<lambda>_. 0) fa" for fa by (simp add: user_space_ok_def blank_translate)
  ultimately show ?thesis using demo_tree by (simp add: kernel_inv_def)
qed

lemma boot_room: "n \<le> 16 \<Longrightarrow> room_at boot_machine 0x10000000 n"
  using demo_region_frames by (simp add: room_at_def frames_handed_out_def blank_translate) (simp add: new_frame_allocator_def)

lemma kernel_inv_mount [simp]: "kernel_inv (s\<lparr>root_fs := r\<rparr>) = kernel_inv s" "mapper_of (s\<lparr>root_fs := r\<rparr>) = mapper_of s"
  by (simp_all add: kernel_inv_def mapper_of_def)

lemma valid_demo:
  "validate_user_ptr 0x10000000 1 = Inr ()" "validate_user_ptr 0x10001000 8 = Inr ()" "validate_user_ptr 0x400000 4 = Inr ()"
  "validate_user_ptr 0x400000 0 = Inr ()"
  by (simp_all add: validate_user_ptr_def checked_add_w_def USER_ADDRESS_LIMIT_def)

lemma user_writable_part: "user_writable s p n \<Longrightarrow> k + j \<le> n \<Longrightarrow> user_writable s (p + word_of_nat k) j"
  by (force simp: user_writable_def may_write_def add.assoc simp flip: of_nat_add)

text \<open>The machine after the program got two pages and wrote the letter a into the first.\<close>

lemma demo_program:
  obtains s where "kernel_step\<^sup>*\<^sup>* boot_machine s" "kernel_inv s" "load_user s 0x10000000 1 = Some [0x61]" "user_writable s 0x10001000 8"
    "registry s = registry boot_machine" "root_fs s = root_fs boot_machine"
proof -
  have n: "div_ceil (unat (0x2000 :: u64)) 4096 = 2" by (simp add: div_ceil_def)
  have r: "user_range (mmap_next boot_machine) (div_ceil (unat (0x2000 :: u64)) 4096 * 4096)"
    unfolding n by (simp add: user_range_def USER_ADDRESS_LIMIT_def)
  have room: "room_at boot_machine (mmap_next boot_machine) (div_ceil (unat (0x2000 :: u64)) 4096)"
    unfolding n using boot_room [of 2] by simp
  have "(0 :: u64) < 0x2000" "(0x2000 :: u64) \<le> 256 * PAGE_SIZE" by (simp_all add: PAGE_SIZE_def)
  then obtain s1 where c: "handle_syscall demo_kernel boot_machine SYS_MMAP 0x2000 0 0 0 = Returned (mmap_next boot_machine) s1"
    "user_writable s1 (mmap_next boot_machine) (div_ceil (unat (0x2000 :: u64)) 4096 * 4096)"
    "registry s1 = registry boot_machine" "root_fs s1 = root_fs boot_machine"
    by (rule mmap_call [OF boot_inv _ _ room r, of demo_kernel 0 0 0]) (rule that; assumption)
  then have s1: "handle_syscall demo_kernel boot_machine SYS_MMAP 0x2000 0 0 0 = Returned 0x10000000 s1"
    "user_writable s1 0x10000000 8192" "registry s1 = registry boot_machine" "root_fs s1 = root_fs boot_machine"
    unfolding n by simp_all
  have ids: "ids_remain boot_machine" by (simp add: ids_remain_def boot_machine_def new_sched_def)
  have inv1: "kernel_inv s1"
    using handle_syscall_inv [OF boot_inv ids, of demo_kernel SYS_MMAP "0x2000" 0 0 0] s1(1) by simp
  have "outcome_state (handle_syscall demo_kernel boot_machine SYS_MMAP 0x2000 0 0 0) = Some s1" by (simp add: s1(1))
  then have step: "kernel_step boot_machine s1" by (rule system_call [OF ids])
  have lim: "(0x10000000 :: u64) < USER_ADDRESS_LIMIT" by (simp add: USER_ADDRESS_LIMIT_def)
  have r1: "user_range 0x10000000 (length [0x61 :: u8])" by (simp add: user_range_def USER_ADDRESS_LIMIT_def)
  have w: "user_writable s1 0x10000000 (length [0x61 :: u8])" "user_writable s1 0x10001000 8"
    using user_writable_part [OF s1(2), of 0 1] user_writable_part [OF s1(2), of 4096 8] by simp_all
  obtain mem where m: "store_user s1 0x10000000 [0x61] = Some (s1\<lparr>phys_memory := mem\<rparr>)"
    "load_user (s1\<lparr>phys_memory := mem\<rparr>) 0x10000000 (length [0x61 :: u8]) = Some [0x61]"
    using store_user_delivers [OF inv1 r1 w(1)] by metis
  have st: "store_byte (mapper_of s1) 0x10000000 0x61 (phys_memory s1) = Some mem"
    using m(1) by (auto simp: store_user_def split: option.splits dest: arg_cong [of _ _ phys_memory])
  have step2: "kernel_step s1 (s1\<lparr>phys_memory := mem\<rparr>)" using user_store [OF lim st] .
  have inv2: "kernel_inv (s1\<lparr>phys_memory := mem\<rparr>)" using store_user_inv [OF inv1 m(1) r1] .
  obtain fa where fa: "pt_tree (mapper_of s1) (phys_memory s1)" "user_space_ok (mapper_of s1) (phys_memory s1) fa"
    using inv1 by (auto simp: kernel_inv_def)
  have "same_space (mapper_of s1) (phys_memory s1) mem" using store_byte_spec [OF st fa lim] by blast
  then have "user_writable (s1\<lparr>phys_memory := mem\<rparr>) 0x10001000 8"
    using w(2) by (simp add: user_writable_def may_write_def same_spaceD)
  then show thesis
    using that [of "s1\<lparr>phys_memory := mem\<rparr>"] rtranclp.rtrancl_into_rtrancl [OF r_into_rtranclp [of kernel_step, OF step] step2] inv2 m(2) s1(3,4) by simp
qed

subsection \<open>Properties\<close>

text \<open>C3: in every run of system calls with any arguments, timer ticks, stores of the program and device events, the kernel
  stays consistent: the scheduler, the channels, the page tables and the frames keep their invariants, all processes
  share the one address space, and no user address ever reaches a page table, a free frame or the byte of another user
  address.\<close>

theorem kernel_keeps_invariant:
  assumes "kernel_step\<^sup>*\<^sup>* s s'" and "kernel_inv s"
  shows "kernel_inv s'"
  using kernel.steps_invar [OF assms] .

theorem kernel_keeps_invariant_witness:
  "\<exists>s. kernel_step\<^sup>*\<^sup>* boot_machine s \<and> load_user s 0x10000000 1 = Some [0x61] \<and> kernel_inv s"
  using demo_program kernel_keeps_invariant [OF _ boot_inv] by metis

text \<open>C9: a message carries its bytes from one user buffer to another: a send from a mapped buffer to an empty channel and a
  receive into a writable buffer both succeed, the receiver finds the bytes, cut to its buffer, the channel is empty
  again, and no other byte of user memory changes.\<close>

theorem channel_carries_bytes:
  assumes "kernel_inv s" and "queued (registry s) i = []" and "channels (registry s) i \<noteq> None"
    and "validate_user_ptr p n = Inr ()" and "n \<le> 1024" and "load_user s p (unat n) = Some bs"
    and "validate_user_ptr q m = Inr ()" and "user_writable s q (min (unat n) (unat m))"
  shows "\<exists>s1 s2. handle_syscall env s SYS_CHANNEL_SEND i p n x = Returned n s1 \<and>
    handle_syscall env s1 SYS_CHANNEL_RECV i q m y = Returned (min n m) s2 \<and>
    load_user s2 q (min (unat n) (unat m)) = Some (take (unat m) bs) \<and>
    queued (registry s2) i = [] \<and>
    (\<forall>r k. user_range r k \<longrightarrow> apart q (min (unat n) (unat m)) r k \<longrightarrow> load_user s2 r k = load_user s r k)"
proof -
  have len: "length bs = unat n" using assms(6) length_load_bytes by (simp add: load_user_def)
  have n: "unat n \<le> 1024" using assms(5) by (simp add: word_le_nat_alt)
  obtain c where c: "channels (registry s) i = Some c" "messages c = []"
    using assms(2,3) by (auto simp: queued_def)
  have ok: "chan_ok c" using assms(1) c(1) by (simp add: kernel_inv_def registry_ok_def)
  let ?msg = "\<lparr>sender_pid = sys_getpid, msg_data = bs\<rparr>"
  let ?s1 = "s\<lparr>registry := (registry s)\<lparr>channels := (channels (registry s))(i \<mapsto> c\<lparr>messages := [?msg]\<rparr>)\<rparr>\<rparr>"
  have send: "sys_channel_send s i p n = Returned n ?s1"
    using assms(4,6) c ok len n
    by (simp add: sys_channel_send_def send_message_def chan_send_def chan_ok_def)
  have inv1: "kernel_inv ?s1" using channel_calls_inv(2) [OF assms(1), of i p n] send by simp
  let ?k = "min (unat n) (unat m)"
  let ?s2 = "s\<lparr>registry := (registry s)\<lparr>channels := (channels (registry s))(i \<mapsto> c\<lparr>messages := []\<rparr>)\<rparr>\<rparr>"
  let ?bs = "take ?k bs"
  have inv2: "kernel_inv ?s2"
  proof (rule kernel_inv_registry [OF assms(1) registry_ok_upd])
    show reg: "registry_ok (registry s)" using assms(1) by (simp add: kernel_inv_def)
    show "chan_id (c\<lparr>messages := []\<rparr>) = i" using reg c(1) by (simp add: registry_ok_def)
    show "chan_ok (c\<lparr>messages := []\<rparr>)" using ok by (simp add: chan_ok_def)
  qed
  have lb: "length ?bs = ?k" using len by simp
  have r: "user_range q (length ?bs)" using valid_user_range [OF assms(7)] lb by simp
  have same: "user_writable ?s2 = user_writable s" "load_user ?s2 = load_user s"
    by (simp_all add: user_writable_def may_write_def load_user_def fun_eq_iff)
  have w: "user_writable ?s2 q (length ?bs)" using assms(8) lb by (simp add: same)
  obtain mem where st: "store_user ?s2 q ?bs = Some (?s2\<lparr>phys_memory := mem\<rparr>)"
    "load_user (?s2\<lparr>phys_memory := mem\<rparr>) q (length ?bs) = Some ?bs"
    "\<And>r k. user_range r k \<Longrightarrow> apart q (length ?bs) r k \<Longrightarrow> load_user (?s2\<lparr>phys_memory := mem\<rparr>) r k = load_user ?s2 r k"
    using store_user_delivers [OF inv2 r w] by metis
  have wmin: "(word_of_nat ?k :: u64) = min n m" by (simp add: min_def word_le_nat_alt)
  have tk: "take ?k (take ?k bs @ drop ?k (replicate (unat m) 0)) = ?bs" using len by simp
  have recv: "sys_channel_recv ?s1 i q m = Returned (min n m) (?s2\<lparr>phys_memory := mem\<rparr>)"
    using assms(7) st(1) len wmin tk by (simp add: sys_channel_recv_def recv_message_def chan_recv_def Let_def)
  have "take ?k bs = take (unat m) bs" using len by (simp add: min_def)
  then show ?thesis
    using send recv st(2,3) lb same(2)
    by (intro exI [of _ ?s1] exI [of _ "?s2\<lparr>phys_memory := mem\<rparr>"]) (simp add: handle_syscall_def syscall_numbers queued_def)
qed

theorem channel_carries_bytes_witness:
  "\<exists>s s1 s2. kernel_step\<^sup>*\<^sup>* boot_machine s \<and> load_user s 0x10000000 1 = Some [0x61] \<and>
     handle_syscall demo_kernel s SYS_CHANNEL_SEND 1 0x10000000 1 0 = Returned 1 s1 \<and>
     handle_syscall demo_kernel s1 SYS_CHANNEL_RECV 1 0x10001000 8 0 = Returned 1 s2 \<and>
     load_user s2 0x10001000 1 = Some [0x61]"
proof -
  obtain s where s: "kernel_step\<^sup>*\<^sup>* boot_machine s" "kernel_inv s" "load_user s 0x10000000 1 = Some [0x61]"
    "user_writable s 0x10001000 8" "registry s = registry boot_machine" "root_fs s = root_fs boot_machine"
    by (rule demo_program)
  have q: "queued (registry s) 1 = []" "channels (registry s) 1 \<noteq> None"
    by (simp_all add: s(5) create_channel_def new_registry_def new_channel_def queued_def Let_def)
  have l: "load_user s 0x10000000 (unat (1 :: u64)) = Some [0x61]" using s(3) by simp
  have w: "user_writable s 0x10001000 (min (unat (1 :: u64)) (unat (8 :: u64)))"
    using user_writable_part [OF s(4), of 0 1] by simp
  have "(1 :: u64) \<le> 1024" by simp
  from channel_carries_bytes [OF s(2) q valid_demo(1) this l valid_demo(2) w, of demo_kernel 0 0] s(1,3)
  show ?thesis by auto
qed

text \<open>C11: a program that reads a file of the mounted archive by its name gets the bytes that were written into the archive,
  cut to its buffer, and no other byte of its memory changes.\<close>

theorem readfile_delivers_archive:
  assumes "kernel_inv s" and "\<forall>f \<in> set files. valid_file f" and "distinct (map (\<lambda>f. normalize_path (file_name f)) files)"
    and "length (tar_archive files) < 2 ^ 63" and "from_memory (tar_archive files) = Some (Inr fs)" and "root_fs s = mount_root fs v"
    and "f \<in> set files" and "validate_user_ptr p (word_of_nat (length (fst f))) = Inr ()"
    and "load_user s p (length (fst f)) = Some (fst f)"
    and "validate_user_ptr q m = Inr ()" and "user_writable s q (min (length (snd f)) (unat m))"
  shows "\<exists>s'. handle_syscall env s SYS_FS_READFILE p (word_of_nat (length (fst f))) q m =
      Returned (word_of_nat (min (length (snd f)) (unat m))) s' \<and>
    load_user s' q (min (length (snd f)) (unat m)) = Some (take (unat m) (snd f)) \<and>
    (\<forall>r k. user_range r k \<longrightarrow> apart q (min (length (snd f)) (unat m)) r k \<longrightarrow> load_user s' r k = load_user s r k)"
proof -
  have f: "fst f \<noteq> []" "length (fst f) \<le> 100" "list_all (\<lambda>b. 0 < b \<and> b < 0x80) (fst f)"
    using assms(2,7) by (auto simp: valid_file_def)
  then have u: "unat (word_of_nat (length (fst f)) :: u64) = length (fst f)" by (simp add: unat_of_nat)
  have "read_user_path s p (word_of_nat (length (fst f))) = Some (Inr (file_name f))"
    using read_user_path_ok [OF assms(8)] u f assms(9) from_utf8_ascii [OF f(3)]
    by (simp add: word_less_nat_alt word_le_nat_alt file_name_def)
  moreover have "read_all (file_env env) (root_fs s) (file_name f) = Some (Inr (snd f))"
    using archive_reads [OF assms(2-4)] assms(5,6,7) by (simp add: mount_root_def)
  moreover obtain s' where "copy_out s q m (snd f) = Returned (word_of_nat (min (length (snd f)) (unat m))) s'"
    "load_user s' q (min (length (snd f)) (unat m)) = Some (take (unat m) (snd f))"
    "\<And>r k. user_range r k \<Longrightarrow> apart q (min (length (snd f)) (unat m)) r k \<Longrightarrow> load_user s' r k = load_user s r k"
    using copy_out_delivers [OF assms(1,10,11)] by metis
  ultimately show ?thesis by (simp add: handle_syscall_def syscall_numbers sys_fs_readfile_def)
qed

theorem readfile_delivers_archive_witness:
  "\<exists>s s'. kernel_step\<^sup>*\<^sup>* boot_machine s \<and> load_user s 0x10000000 1 = Some [0x61] \<and>
     handle_syscall demo_kernel s SYS_FS_READFILE 0x10000000 1 0x10001000 8 = Returned 3 s' \<and>
     load_user s' 0x10001000 3 = Some [1, 2, 3]"
proof -
  obtain s where s: "kernel_step\<^sup>*\<^sup>* boot_machine s" "kernel_inv s" "load_user s 0x10000000 1 = Some [0x61]"
    "user_writable s 0x10001000 8" "registry s = registry boot_machine" "root_fs s = root_fs boot_machine"
    by (rule demo_program)
  let ?f = "([0x61], [1, 2, 3]) :: u8 list \<times> u8 list"
  have m: "root_fs s = mount_root \<lparr>backing = Memory (tar_archive demo_files), entries = file_entries 0 demo_files\<rparr> None"
    by (simp add: s(6) boot_machine_def mount_root_def)
  have len: "length (tar_archive demo_files) < 2 ^ 63" by (simp add: demo_archive_length)
  have f: "?f \<in> set demo_files" by (simp add: demo_files_def)
  have v: "validate_user_ptr 0x10000000 (word_of_nat (length (fst ?f))) = Inr ()" using valid_demo(1) by simp
  have l: "load_user s 0x10000000 (length (fst ?f)) = Some (fst ?f)" using s(3) by simp
  have w: "user_writable s 0x10001000 (min (length (snd ?f)) (unat (8 :: u64)))"
    using user_writable_part [OF s(4), of 0 3] by (simp add: numeral_3_eq_3)
  from readfile_delivers_archive [OF s(2) demo_valid demo_distinct len demo_index m f v l valid_demo(2) w, of demo_kernel] s(1,3)
  show ?thesis by (auto simp: numeral_3_eq_3)
qed

text \<open>C14: a request for memory that fits returns the next address; the whole pages there read as zeros and can be written,
  everything the program could read before reads the same, and the next request starts behind them.\<close>

theorem mmap_gives_fresh_memory:
  assumes "kernel_inv s" and "0 < req" and "req \<le> 256 * PAGE_SIZE"
    and "room_at s (mmap_next s) (div_ceil (unat req) 4096)"
    and "user_range (mmap_next s) (div_ceil (unat req) 4096 * 4096)"
  shows "\<exists>s'. handle_syscall env s SYS_MMAP req x y z = Returned (mmap_next s) s' \<and>
    unat req \<le> div_ceil (unat req) 4096 * 4096 \<and>
    load_user s' (mmap_next s) (div_ceil (unat req) 4096 * 4096) = Some (replicate (div_ceil (unat req) 4096 * 4096) 0) \<and>
    user_writable s' (mmap_next s) (div_ceil (unat req) 4096 * 4096) \<and>
    (\<forall>p k bs. user_range p k \<longrightarrow> load_user s p k = Some bs \<longrightarrow> load_user s' p k = Some bs) \<and>
    unat (mmap_next s') = unat (mmap_next s) + div_ceil (unat req) 4096 * 4096"
proof -
  have "unat req \<le> div_ceil (unat req) 4096 * 4096" by (rule div_ceil_mult_ge) simp
  then show ?thesis by (blast intro: mmap_call [OF assms, of env x y z])
qed

theorem mmap_gives_fresh_memory_witness:
  "\<exists>s'. handle_syscall demo_kernel boot_machine SYS_MMAP 0x1800 0 0 0 = Returned 0x10000000 s' \<and>
     load_user s' 0x10000000 8192 = Some (replicate 8192 0) \<and> unat (mmap_next s') = 0x10002000"
proof -
  have n: "div_ceil (unat (0x1800 :: u64)) 4096 = 2" by (simp add: div_ceil_def)
  have "user_range (mmap_next boot_machine) (div_ceil (unat (0x1800 :: u64)) 4096 * 4096)"
    unfolding n by (simp add: user_range_def USER_ADDRESS_LIMIT_def)
  moreover have "room_at boot_machine (mmap_next boot_machine) (div_ceil (unat (0x1800 :: u64)) 4096)"
    unfolding n using boot_room [of 2] by simp
  moreover have "(0 :: u64) < 0x1800" "(0x1800 :: u64) \<le> 256 * PAGE_SIZE" by (simp_all add: PAGE_SIZE_def)
  ultimately show ?thesis
    using mmap_gives_fresh_memory [OF boot_inv, of "0x1800" demo_kernel 0 0 0] unfolding n boot_fields(2) by auto
qed

text \<open>C30: spawning a program from a well-formed image gives a ready thread that starts at the entry point of the image with
  an empty stack of sixteen fresh pages; but outside that stack no byte of user memory changes, so the image is never
  loaded.\<close>

theorem spawn_starts_without_image:
  assumes "kernel_inv s" and "validate_user_ptr p n = Inr ()" and "n \<le> 256" and "load_user s p (unat n) = Some bs"
    and "from_utf8 bs = Some name" and "read_all (file_env env) (root_fs s) name = Some (Inr binary)" and "parse_entry binary = Some start"
    and "room_at s (mmap_next s) 16" and "user_range (mmap_next s) 0x10000" and "unat (new_stack env) + 16384 < 2 ^ 64"
  shows "\<exists>s' th. handle_syscall env s SYS_SPAWN p n mode x = Returned (next_pid (scheduler s)) s' \<and>
    threads (scheduler s') (next_tid (scheduler s)) = Some th \<and> is_ready th \<and>
    ready_queue (scheduler s') = ready_queue (scheduler s) @ [next_tid (scheduler s)] \<and>
    ctx_rip (tcb_context th) = start \<and> ctx_rsp (tcb_context th) = mmap_next s + 0x10000 \<and> ctx_rdi (tcb_context th) = mode \<and>
    load_user s' (mmap_next s) 0x10000 = Some (replicate 0x10000 0) \<and>
    (\<forall>va. va < USER_ADDRESS_LIMIT \<longrightarrow>
       unat va div 4096 < unat (mmap_next s) div 4096 \<or> unat (mmap_next s) div 4096 + 16 \<le> unat va div 4096 \<longrightarrow>
       load_user s' va 1 = load_user s va 1)"
proof -
  let ?a = "mmap_next s" and ?s1 = "s\<lparr>mmap_next := mmap_next s + 16 * PAGE_SIZE\<rparr>"
  have inv: "kernel_inv ?s1" using assms(1) by simp
  have room: "room_at ?s1 ?a 16" using assms(8) by (simp add: room_at_def)
  have n36: "(16 :: nat) < 2 ^ 36" by simp
  obtain ctl mem fs where m: "mmap_user_pages (controller_of ?s1) (phys_memory ?s1) ?a 16 = Some (ctl, mem, Inr ?a)"
    "length fs = 16" "pages_mapped (mapper_of ?s1) (phys_memory ?s1) mem ?a 0 fs"
    "load_bytes (mapper_of ?s1) mem ?a (16 * 4096) = Some (replicate (16 * 4096) 0)"
    "\<forall>va k bs. user_range va k \<longrightarrow> load_bytes (mapper_of ?s1) (phys_memory ?s1) va k = Some bs \<longrightarrow>
       load_bytes (mapper_of ?s1) mem va k = Some bs"
    "\<forall>j < 16 * 4096. ?a + word_of_nat j < USER_ADDRESS_LIMIT \<longrightarrow> writable (mapper_of ?s1) mem (?a + word_of_nat j)"
    using mmap_serves [OF inv room n36] .
  have top: "checked_add_w ?a (16 * PAGE_SIZE) = Some (?a + 0x10000)"
    using assms(9) by (simp add: checked_add_w_def PAGE_SIZE_def user_range_def USER_ADDRESS_LIMIT_def)
  obtain sc pid tid where sp: "spawn_process (scheduler s) name (cr3 (scheduler s)) start (?a + 0x10000) 0 True mode (new_stack env) =
      Some (sc, pid, tid)"
    using assms(10) by (fastforce simp: spawn_process_def choose_stack_def alloc_kernel_stack_def checked_add_w_def Let_def)
  note f = spawn_process_fields [OF sp]
  obtain k where th: "threads sc (next_tid (scheduler s)) = Some (new_tcb (next_tid (scheduler s)) (next_pid (scheduler s)) (?a + 0x10000) k 10
      (initial_context True start (?a + 0x10000) k mode) (default_quantum (scheduler s)))"
    using f(6) by auto
  let ?s' = "(after_mmap ?s1 ctl mem)\<lparr>scheduler := sc\<rparr>"
  have call: "handle_syscall env s SYS_SPAWN p n mode x = Returned (next_pid (scheduler s)) ?s'"
    using assms(2,4-7) leD [OF assms(3)] m(1) top sp f(2)
    by (simp add: handle_syscall_def syscall_numbers sys_spawn_def spawn_at_def Let_def)
  have mp: "mapper_of ?s' = mapper_of s" using f(1) by (simp add: mapper_of_def after_mmap_def)
  have ld: "load_user ?s' va j = load_bytes (mapper_of s) mem va j" for va j
    by (simp only: load_user_def mp) (simp add: after_mmap_def)
  have other: "load_user ?s' va 1 = load_user s va 1"
    if va: "va < USER_ADDRESS_LIMIT" "unat va div 4096 < unat ?a div 4096 \<or> unat ?a div 4096 + 16 \<le> unat va div 4096" for va
  proof (cases "load_user s va 1")
    case (Some b)
    have "user_range va 1" using va(1) by (simp add: user_range_def word_less_nat_alt)
    then have "load_bytes (mapper_of s) mem va 1 = Some b"
      using m(5) [rule_format, of va 1 b] Some unfolding load_user_def mapper_of_simps by simp
    then show ?thesis using Some by (simp only: ld)
  next
    case None
    have "leaf (mapper_of s) mem va = leaf (mapper_of s) (phys_memory s) va"
      using pages_elsewhere [OF m(3) _ va(1)] m(2) assms(9) va(2) by simp
    then have "translate (mapper_of s) mem va = translate (mapper_of s) (phys_memory s) va" by (simp add: translate_leaf)
    then have "load_bytes (mapper_of s) mem va 1 = None"
      using None by (simp add: load_user_def load_byte_def split: option.splits)
    then show ?thesis using None by (simp only: ld)
  qed
  show ?thesis
    using call th f(5) m(4) other ld
    by (intro exI [of _ ?s'] exI) (auto simp: is_ready_def new_tcb_def initial_context_def new_user_def)
qed

theorem spawn_starts_without_image_witness:
  "\<exists>s' th. handle_syscall demo_kernel (boot_machine\<lparr>root_fs := Some elf_root\<rparr>) SYS_SPAWN 0x400000 0 7 0 = Returned 1 s' \<and>
     threads (scheduler s') 1 = Some th \<and> ctx_rip (tcb_context th) = 0x400000 \<and> load_user s' 0x400000 1 = None"
proof -
  let ?s = "boot_machine\<lparr>root_fs := Some elf_root\<rparr>"
  have inv: "kernel_inv ?s" using boot_inv by simp
  have room: "room_at ?s (mmap_next ?s) 16" using boot_room [of 16] by (simp add: room_at_def)
  have "normalize_path [] = lit ''/''"
    by (simp add: lit_def normalize_path_def trim_by_def SLASH_def is_whitespace_def Let_def)
  then have rd: "read_all (file_env demo_kernel) (root_fs ?s) [] = Some (Inr demo_image)"
    by (simp add: read_all_def read_all_cow_def find_entry_def elf_root_def read_file_cow_def usize_add_def demo_length)
      (simp add: demo_image_def slice_of_def)
  have pe: "parse_entry demo_image = Some 0x400000"
    using parse_elf_Inr [of demo_image "elf_summary demo_image"] demo_wf
    by (simp add: parse_entry_def demo_length elf_summary_def Let_def demo_header)
  have l: "load_user ?s 0x400000 (unat (0 :: u64)) = Some []" by (simp add: load_user_def)
  have u: "from_utf8 [] = Some []" by simp
  have r: "user_range (mmap_next ?s) 0x10000" "unat (new_stack demo_kernel) + 16384 < 2 ^ 64" "(0 :: u64) \<le> 256"
    by (simp_all add: user_range_def USER_ADDRESS_LIMIT_def demo_kernel_def)
  from spawn_starts_without_image [OF inv valid_demo(4) r(3) l u rd pe room r(1,2), of 7 0]
  obtain s' th where s': "handle_syscall demo_kernel ?s SYS_SPAWN 0x400000 0 7 0 = Returned (next_pid (scheduler ?s)) s'"
    "threads (scheduler s') (next_tid (scheduler ?s)) = Some th" "ctx_rip (tcb_context th) = 0x400000"
    "\<forall>va. va < USER_ADDRESS_LIMIT \<longrightarrow> unat va div 4096 < unat (mmap_next ?s) div 4096 \<or> unat (mmap_next ?s) div 4096 + 16 \<le> unat va div 4096 \<longrightarrow>
       load_user s' va 1 = load_user ?s va 1" by blast
  have "load_user s' 0x400000 1 = load_user ?s 0x400000 1" using s'(4) by (simp add: USER_ADDRESS_LIMIT_def)
  moreover have "load_user ?s 0x400000 1 = None" by (simp add: load_user_def load_byte_def blank_translate)
  ultimately show ?thesis using s'(1-3) by (simp add: boot_machine_def new_sched_def)
qed

text \<open>A pointer that passes the range check but is not mapped makes the kernel fault in ring 0, which is a panic: the check knows nothing of the page
  tables. Shown for a write to the console and a request for system information, with a length of at most a buffer.\<close>

lemma unmapped_pointer_stops_kernel:
  assumes "validate_user_ptr p n = Inr ()" and "0 < n" and "n \<le> MAX_BUFFER_SIZE"
    and "translate (mapper_of s) (phys_memory s) p = None"
  shows "handle_syscall env s SYS_WRITE p n x y = Stopped \<and> handle_syscall env s SYS_SYSINFO p n x y = Stopped"
proof -
  obtain k where k: "unat n = Suc k" using assms(2) by (metis not0_implies_Suc unat_eq_zero word_neq_0_conv)
  have "load_user s p (unat n) = None" using assms(4) k by (simp add: load_user_def load_byte_def)
  then have w: "handle_syscall env s SYS_WRITE p n x y = Stopped"
    using assms(1) leD [OF assms(3)] by (simp add: handle_syscall_def syscall_numbers sys_write_def)
  have "store_user s p (b # bs) = None" for b bs using assms(4) by (simp add: store_user_def store_byte_def)
  then have "copy_out s p n (b # bs) = Stopped" for b bs using assms(1) k by (simp add: copy_out_def)
  moreover have "as_bytes (lit ''arch: x86_64'' @ t) = 0x61 # tl (as_bytes (lit ''arch: x86_64'' @ t))" for t
    by (simp add: as_bytes_def lit_def utf8_char_def)
  ultimately have "copy_out s p n (as_bytes (lit ''arch: x86_64'' @ t)) = Stopped" for t by metis
  then have "handle_syscall env s SYS_SYSINFO p n x y = Stopped"
    by (simp add: handle_syscall_def syscall_numbers sys_sysinfo_def Let_def)
  with w show ?thesis by blast
qed

lemma unmapped_pointer_example:
  "handle_syscall demo_kernel boot_machine SYS_WRITE 0x400000 4 0 0 = Stopped"
  using unmapped_pointer_stops_kernel [OF valid_demo(3), of boot_machine demo_kernel 0 0] by (simp add: MAX_BUFFER_SIZE_def blank_translate)

end
