(* ===== verification/Wasm_Module.thy ===== *)
theory Wasm_Module
  imports Rust_Strings
begin

text \<open>
  Decoding WebAssembly binaries for the plugin engine of the daemon: \<^verbatim>\<open>system/antosd/src/wasm/parser.rs\<close>.

  A parse step has three outcomes: a value, an error (\<open>Err\<close>, the \<^verbatim>\<open>bail!\<close> and \<^verbatim>\<open>?\<close> of the source), or a
  panic: the source indexes slices without checking their bounds. Positions are offsets into the section. The
  capacity that the source reserves for a count is assumed to be available.
\<close>

subsection \<open>Outcomes\<close>

datatype wasm_error =
    Too_Short nat | Bad_Wasm_Magic | Bad_Wasm_Version | Leb_Overflow | Leb_Truncated | Signed_Leb_Overflow
  | Bad_Value_Type u8 | Bad_Function_Header | Bad_Utf8 | Only_Function_Imports

datatype 'a outcome = Panic | Err wasm_error | Ok 'a

fun then_do :: "'a outcome \<Rightarrow> ('a \<Rightarrow> 'b outcome) \<Rightarrow> 'b outcome" where
  "then_do Panic f = Panic"
| "then_do (Err e) f = Err e"
| "then_do (Ok x) f = f x"

lemma then_do_cong [fundef_cong]:
  "m = m' \<Longrightarrow> (\<And>x. m' = Ok x \<Longrightarrow> f x = f' x) \<Longrightarrow> then_do m f = then_do m' f'"
  by (cases m') auto

lemma then_do_Ok: "then_do m f = Ok y \<longleftrightarrow> (\<exists>x. m = Ok x \<and> f x = Ok y)"
  by (cases m) auto

text \<open>\<^verbatim>\<open>bytes[i]\<close>, \<^verbatim>\<open>&bytes[a..]\<close> and \<^verbatim>\<open>&bytes[a..b]\<close>.\<close>

definition index_at :: "u8 list \<Rightarrow> nat \<Rightarrow> u8 outcome" where
  "index_at bs i = (if i < length bs then Ok (bs ! i) else Panic)"

definition slice_from :: "u8 list \<Rightarrow> nat \<Rightarrow> u8 list outcome" where
  "slice_from bs a = (if a \<le> length bs then Ok (drop a bs) else Panic)"

definition slice_between :: "u8 list \<Rightarrow> nat \<Rightarrow> nat \<Rightarrow> u8 list outcome" where
  "slice_between bs a b = (if a \<le> b \<and> b \<le> length bs then Ok (slice_of a b bs) else Panic)"

subsection \<open>Variable-length integers\<close>

definition leb_bits :: "u8 \<Rightarrow> u32" where
  "leb_bits b = word_of_nat (unat (b AND 0x7F))"

definition leb_more :: "u8 \<Rightarrow> bool" where
  "leb_more b \<longleftrightarrow> b AND 0x80 \<noteq> 0"

fun read_u32_loop :: "u8 list \<Rightarrow> u32 \<Rightarrow> nat \<Rightarrow> nat \<Rightarrow> (u32 \<times> nat) outcome" where
  "read_u32_loop [] result shift count = Err Leb_Truncated"
| "read_u32_loop (b # bs) result shift count =
     (let result' = result OR push_bit shift (leb_bits b)
      in if \<not> leb_more b then Ok (result', count + 1)
         else if 35 \<le> shift + 7 then Err Leb_Overflow
         else read_u32_loop bs result' (shift + 7) (count + 1))"

definition read_u32_leb128 :: "u8 list \<Rightarrow> (u32 \<times> nat) outcome" where
  "read_u32_leb128 bytes = read_u32_loop bytes 0 0 0"

text \<open>The loop of the signed reader ends at the first byte without the continuation bit or at the end of the input.\<close>

fun read_i32_loop :: "u8 list \<Rightarrow> u32 \<Rightarrow> nat \<Rightarrow> nat \<Rightarrow> u8 \<Rightarrow> (u32 \<times> nat \<times> nat \<times> u8) outcome" where
  "read_i32_loop [] result shift count byte = Ok (result, shift, count, byte)"
| "read_i32_loop (b # bs) result shift count byte =
     (let result' = result OR push_bit shift (leb_bits b)
      in if \<not> leb_more b then Ok (result', shift + 7, count + 1, b)
         else if 35 \<le> shift + 7 then Err Signed_Leb_Overflow
         else read_i32_loop bs result' (shift + 7) (count + 1) b)"

definition read_i32_leb128 :: "u8 list \<Rightarrow> (u32 \<times> nat) outcome" where
  "read_i32_leb128 bytes =
     then_do (read_i32_loop bytes 0 0 0 0) (\<lambda>(result, shift, count, byte).
       if shift < 32 \<and> byte AND 0x40 \<noteq> 0 then Ok (result OR push_bit shift (- 1), count) else Ok (result, count))"

text \<open>\<^verbatim>\<open>read_u32_leb128(&bytes[offset..])?\<close> with the offset moved on.\<close>

definition u32_at :: "u8 list \<Rightarrow> nat \<Rightarrow> (u32 \<times> nat) outcome" where
  "u32_at bs offset =
     then_do (slice_from bs offset) (\<lambda>rest.
       then_do (read_u32_leb128 rest) (\<lambda>(v, len). Ok (v, offset + len)))"

lemma read_u32_loop_count:
  "read_u32_loop bs r s c = Ok (v, n) \<Longrightarrow> c < n \<and> n \<le> c + length bs"
proof (induction bs r s c rule: read_u32_loop.induct)
  case (2 b bs r s c)
  then show ?case by (fastforce simp: Let_def split: if_splits)
qed simp

lemma u32_at_Ok: "u32_at bs a = Ok (v, b) \<Longrightarrow> a < b \<and> b \<le> length bs"
  by (auto simp: u32_at_def then_do_Ok slice_from_def read_u32_leb128_def split: if_splits dest!: read_u32_loop_count)

subsection \<open>The module\<close>

datatype val_type = I32 | I64 | F32 | F64

definition val_type_from_byte :: "u8 \<Rightarrow> val_type outcome" where
  "val_type_from_byte b =
     (if b = 0x7F then Ok I32 else if b = 0x7E then Ok I64 else if b = 0x7D then Ok F32
      else if b = 0x7C then Ok F64 else Err (Bad_Value_Type b))"

record func_type =
  ft_params :: "val_type list"
  ft_returns :: "val_type list"

record import_entry =
  import_module :: str
  import_field :: str
  import_type_index :: u32

record export_entry =
  export_name :: str
  export_kind :: u8
  export_index :: u32

record func_body =
  body_locals :: "(u32 \<times> val_type) list"
  body_code :: "u8 list"

record wasm_module =
  types :: "func_type list"
  mod_imports :: "import_entry list"
  mod_functions :: "u32 list"
  exports :: "str \<rightharpoonup> export_entry"
  initial_memory_pages :: u32
  max_memory_pages :: u32
  bodies :: "func_body list"

subsection \<open>Sections\<close>

fun parse_val_types :: "u8 list \<Rightarrow> nat \<Rightarrow> nat \<Rightarrow> val_type list \<Rightarrow> (val_type list \<times> nat) outcome" where
  "parse_val_types bs 0 offset acc = Ok (acc, offset)"
| "parse_val_types bs (Suc n) offset acc =
     then_do (index_at bs offset) (\<lambda>b.
       then_do (val_type_from_byte b) (\<lambda>t. parse_val_types bs n (offset + 1) (acc @ [t])))"

fun parse_types :: "u8 list \<Rightarrow> nat \<Rightarrow> nat \<Rightarrow> func_type list \<Rightarrow> func_type list outcome" where
  "parse_types bs 0 offset acc = Ok acc"
| "parse_types bs (Suc n) offset acc =
     then_do (index_at bs offset) (\<lambda>b.
       if b \<noteq> 0x60 then Err Bad_Function_Header
       else
         then_do (u32_at bs (offset + 1)) (\<lambda>(param_count, o1).
           then_do (parse_val_types bs (unat param_count) o1 []) (\<lambda>(params, o2).
             then_do (u32_at bs o2) (\<lambda>(ret_count, o3).
               then_do (parse_val_types bs (unat ret_count) o3 []) (\<lambda>(rets, o4).
                 parse_types bs n o4 (acc @ [\<lparr>ft_params = params, ft_returns = rets\<rparr>]))))))"

definition parse_type_section :: "u8 list \<Rightarrow> func_type list outcome" where
  "parse_type_section bs = then_do (u32_at bs 0) (\<lambda>(count, offset). parse_types bs (unat count) offset [])"

text \<open>A name: its length, then that many bytes of UTF-8.\<close>

definition name_at :: "u8 list \<Rightarrow> nat \<Rightarrow> (str \<times> nat) outcome" where
  "name_at bs offset =
     then_do (u32_at bs offset) (\<lambda>(len, o1).
       then_do (slice_between bs o1 (o1 + unat len)) (\<lambda>raw.
         case from_utf8 raw of None \<Rightarrow> Err Bad_Utf8 | Some s \<Rightarrow> Ok (s, o1 + unat len)))"

fun parse_imports :: "u8 list \<Rightarrow> nat \<Rightarrow> nat \<Rightarrow> import_entry list \<Rightarrow> import_entry list outcome" where
  "parse_imports bs 0 offset acc = Ok acc"
| "parse_imports bs (Suc n) offset acc =
     then_do (name_at bs offset) (\<lambda>(mod_name, o1).
       then_do (name_at bs o1) (\<lambda>(field, o2).
         then_do (index_at bs o2) (\<lambda>kind.
           if kind \<noteq> 0 then Err Only_Function_Imports
           else
             then_do (u32_at bs (o2 + 1)) (\<lambda>(type_index, o3).
               parse_imports bs n o3
                 (acc @ [\<lparr>import_module = mod_name, import_field = field, import_type_index = type_index\<rparr>])))))"

definition parse_import_section :: "u8 list \<Rightarrow> import_entry list outcome" where
  "parse_import_section bs = then_do (u32_at bs 0) (\<lambda>(count, offset). parse_imports bs (unat count) offset [])"

fun parse_functions :: "u8 list \<Rightarrow> nat \<Rightarrow> nat \<Rightarrow> u32 list \<Rightarrow> u32 list outcome" where
  "parse_functions bs 0 offset acc = Ok acc"
| "parse_functions bs (Suc n) offset acc =
     then_do (u32_at bs offset) (\<lambda>(type_idx, o1). parse_functions bs n o1 (acc @ [type_idx]))"

definition parse_function_section :: "u8 list \<Rightarrow> u32 list outcome" where
  "parse_function_section bs = then_do (u32_at bs 0) (\<lambda>(count, offset). parse_functions bs (unat count) offset [])"

definition parse_memory_section :: "u8 list \<Rightarrow> (u32 \<times> u32) outcome" where
  "parse_memory_section bs =
     then_do (u32_at bs 0) (\<lambda>(count, offset).
       if count = 0 then Ok (1, 1024)
       else
         then_do (index_at bs offset) (\<lambda>flags.
           then_do (u32_at bs (offset + 1)) (\<lambda>(initial, o1).
             if flags AND 0x01 \<noteq> 0 then then_do (u32_at bs o1) (\<lambda>(m, _). Ok (initial, m))
             else Ok (initial, 1024))))"

fun parse_exports :: "u8 list \<Rightarrow> nat \<Rightarrow> nat \<Rightarrow> (str \<rightharpoonup> export_entry) \<Rightarrow> (str \<rightharpoonup> export_entry) outcome" where
  "parse_exports bs 0 offset acc = Ok acc"
| "parse_exports bs (Suc n) offset acc =
     then_do (name_at bs offset) (\<lambda>(name, o1).
       then_do (index_at bs o1) (\<lambda>kind.
         then_do (u32_at bs (o1 + 1)) (\<lambda>(index, o2).
           parse_exports bs n o2 (acc(name \<mapsto> \<lparr>export_name = name, export_kind = kind, export_index = index\<rparr>)))))"

definition parse_export_section :: "u8 list \<Rightarrow> (str \<rightharpoonup> export_entry) outcome" where
  "parse_export_section bs = then_do (u32_at bs 0) (\<lambda>(count, offset). parse_exports bs (unat count) offset Map.empty)"

fun parse_locals :: "u8 list \<Rightarrow> nat \<Rightarrow> nat \<Rightarrow> (u32 \<times> val_type) list \<Rightarrow> ((u32 \<times> val_type) list \<times> nat) outcome" where
  "parse_locals bs 0 offset acc = Ok (acc, offset)"
| "parse_locals bs (Suc n) offset acc =
     then_do (u32_at bs offset) (\<lambda>(num, o1).
       then_do (index_at bs o1) (\<lambda>b.
         then_do (val_type_from_byte b) (\<lambda>t. parse_locals bs n (o1 + 1) (acc @ [(num, t)]))))"

fun parse_bodies :: "u8 list \<Rightarrow> nat \<Rightarrow> nat \<Rightarrow> func_body list \<Rightarrow> func_body list outcome" where
  "parse_bodies bs 0 offset acc = Ok acc"
| "parse_bodies bs (Suc n) offset acc =
     then_do (u32_at bs offset) (\<lambda>(body_size, o1).
       let end_body = o1 + unat body_size
       in then_do (u32_at bs o1) (\<lambda>(local_decl_count, o2).
            then_do (parse_locals bs (unat local_decl_count) o2 []) (\<lambda>(ls, o3).
              then_do (slice_between bs o3 end_body) (\<lambda>code.
                parse_bodies bs n end_body (acc @ [\<lparr>body_locals = ls, body_code = code\<rparr>])))))"

definition parse_code_section :: "u8 list \<Rightarrow> func_body list outcome" where
  "parse_code_section bs = then_do (u32_at bs 0) (\<lambda>(count, offset). parse_bodies bs (unat count) offset [])"

subsection \<open>The whole binary\<close>

definition WASM_MAGIC :: "u8 list" where "WASM_MAGIC = [0x00, 0x61, 0x73, 0x6D]"
definition WASM_VERSION :: "u8 list" where "WASM_VERSION = [0x01, 0x00, 0x00, 0x00]"

definition empty_module :: wasm_module where
  "empty_module = \<lparr>types = [], mod_imports = [], mod_functions = [], exports = Map.empty, initial_memory_pages = 1,
     max_memory_pages = 1024, bodies = []\<rparr>"

definition parse_section :: "u8 \<Rightarrow> u8 list \<Rightarrow> wasm_module \<Rightarrow> wasm_module outcome" where
  "parse_section section_id bs md =
     (if section_id = 1 then then_do (parse_type_section bs) (\<lambda>t. Ok (md\<lparr>types := t\<rparr>))
      else if section_id = 2 then then_do (parse_import_section bs) (\<lambda>i. Ok (md\<lparr>mod_imports := i\<rparr>))
      else if section_id = 3 then then_do (parse_function_section bs) (\<lambda>f. Ok (md\<lparr>mod_functions := f\<rparr>))
      else if section_id = 5 then
        then_do (parse_memory_section bs) (\<lambda>(init, mx). Ok (md\<lparr>initial_memory_pages := init, max_memory_pages := mx\<rparr>))
      else if section_id = 7 then then_do (parse_export_section bs) (\<lambda>e. Ok (md\<lparr>exports := e\<rparr>))
      else if section_id = 10 then then_do (parse_code_section bs) (\<lambda>b. Ok (md\<lparr>bodies := b\<rparr>))
      else Ok md)"

function parse_sections :: "u8 list \<Rightarrow> nat \<Rightarrow> wasm_module \<Rightarrow> wasm_module outcome" where
  "parse_sections bs offset md =
     (if length bs \<le> offset then Ok md
      else
        let section_id = bs ! offset
        in then_do (u32_at bs (offset + 1)) (\<lambda>(section_len, o1).
             then_do (slice_between bs o1 (o1 + unat section_len)) (\<lambda>section_data.
               then_do (parse_section section_id section_data md) (\<lambda>md'.
                 parse_sections bs (o1 + unat section_len) md'))))"
  by pat_completeness auto
termination
  by (relation "measure (\<lambda>(bs, offset, _). length bs - offset)") (auto dest: u32_at_Ok)

declare parse_sections.simps [simp del]

definition from_bytes :: "u8 list \<Rightarrow> wasm_module outcome" where
  "from_bytes bs =
     (if length bs < 8 then Err (Too_Short (length bs))
      else if slice_of 0 4 bs \<noteq> WASM_MAGIC then Err Bad_Wasm_Magic
      else if slice_of 4 8 bs \<noteq> WASM_VERSION then Err Bad_Wasm_Version
      else parse_sections bs 8 empty_module)"

subsection \<open>Specification vocabulary\<close>

fun leb_encode :: "nat \<Rightarrow> u8 list" where
  "leb_encode v = (if v < 128 then [word_of_nat v] else word_of_nat (128 + v mod 128) # leb_encode (v div 128))"

declare leb_encode.simps [simp del]

subsection \<open>Integers of variable length\<close>

lemma seven_bits: "(word_of_nat k :: u32) = word_of_nat (k mod 128) OR push_bit 7 (word_of_nat (k div 128))"
proof -
  have d: "k mod 128 = take_bit 7 k" "k div 128 = drop_bit 7 k" by (simp_all add: take_bit_eq_mod drop_bit_eq_div)
  show ?thesis unfolding d
    by (rule bit_word_eqI) (auto simp: bit_or_iff bit_push_bit_iff bit_take_bit_iff bit_drop_bit_eq bit_of_nat_iff possible_bit_word not_less)
qed

lemma leb_byte:
  assumes "v < 128"
  shows "leb_bits (word_of_nat v) = word_of_nat v" "\<not> leb_more (word_of_nat v)"
    "leb_bits (word_of_nat (128 + v)) = word_of_nat v" "leb_more (word_of_nat (128 + v))"
proof -
  have m: "(0x7F :: u8) = mask 7" "(0x80 :: u8) = 2 ^ 7" by (simp_all add: mask_eq_exp_minus_1)
  have low: "unat (x AND 0x7F) = unat x mod 128" for x :: u8
    unfolding m(1) by (simp only: take_bit_eq_mask [symmetric] unsigned_take_bit_eq) (simp add: take_bit_eq_mod)
  have hi: "leb_more x \<longleftrightarrow> 128 \<le> unat x" for x :: u8
  proof -
    have "leb_more x \<longleftrightarrow> bit x 7"
      unfolding leb_more_def m(2) by (simp only: and_exp_eq_0_iff_not_bit not_not)
    also have "\<dots> \<longleftrightarrow> bit (unat x) 7" by (simp add: bit_unsigned_iff)
    also have "\<dots> \<longleftrightarrow> 128 \<le> unat x"
    proof -
      have "n div 128 = (if 128 \<le> n then 1 else 0)" if "n < 256" for n :: nat using that by (auto intro: div_nat_eqI)
      from this [of "unat x"] show ?thesis using unsigned_less [of x, where 'a = nat] by (simp add: bit_iff_odd)
    qed
    finally show ?thesis .
  qed
  have u: "unat (word_of_nat v :: u8) = v" "unat (word_of_nat (128 + v) :: u8) = 128 + v" using assms by (simp_all add: unat_of_nat del: of_nat_add)
  show "leb_bits (word_of_nat v) = word_of_nat v" "\<not> leb_more (word_of_nat v)"
    using u(1) assms by (simp_all only: leb_bits_def low hi) simp_all
  show "leb_bits (word_of_nat (128 + v)) = word_of_nat v" "leb_more (word_of_nat (128 + v))"
    using u(2) assms by (simp_all only: leb_bits_def low hi) simp_all
qed

lemma read_leb_encode:
  "v < 2 ^ (32 - s) \<Longrightarrow> s \<le> 31 \<Longrightarrow>
   read_u32_loop (leb_encode v @ rest) r s c = Ok (r OR push_bit s (word_of_nat v), c + length (leb_encode v))"
proof (induction v arbitrary: r s c rule: leb_encode.induct)
  case (1 v)
  show ?case
  proof (cases "v < 128")
    case True
    then show ?thesis using leb_byte [of v] by (simp add: leb_encode.simps)
  next
    case False
    have s: "s < 25"
    proof (rule ccontr)
      assume "\<not> s < 25"
      then have "(2::nat) ^ (32 - s) \<le> 2 ^ 7" by (intro power_increasing) simp_all
      then show False using "1.prems"(1) False by simp
    qed
    have e: "leb_encode v = word_of_nat (128 + v mod 128) # leb_encode (v div 128)" using False by (subst leb_encode.simps) simp
    have "32 - s = (32 - (s + 7)) + 7" using s by simp
    then have "(2::nat) ^ (32 - s) = 2 ^ (32 - (s + 7)) * 2 ^ 7" by (metis power_add)
    then have d: "v div 128 < 2 ^ (32 - (s + 7))" using "1.prems"(1) by (simp add: less_mult_imp_div_less del: diff_diff_left)
    have "push_bit s (word_of_nat v :: u32) = push_bit s (word_of_nat (v mod 128)) OR push_bit (s + 7) (word_of_nat (v div 128))"
      by (subst seven_bits) (simp add: push_bit_or push_bit_push_bit)
    then show ?thesis
      using "1.IH" [OF False d, of "r OR push_bit s (word_of_nat (v mod 128))" "c + 1"] s leb_byte(3,4) [of "v mod 128"]
      by (simp only: e append_Cons read_u32_loop.simps) (simp add: Let_def or.assoc)
  qed
qed

subsection \<open>Properties\<close>

text \<open>C34: every 32-bit number in its LEB128 encoding is read back exactly, whatever follows it.\<close>

theorem leb_round_trip:
  "read_u32_leb128 (leb_encode (unat v) @ rest) = Ok (v, length (leb_encode (unat v)))"
proof -
  have "unat v < 2 ^ 32" using unsigned_less [of v, where 'a = nat] by simp
  then show ?thesis using read_leb_encode [of "unat v" 0 rest 0 0] by (simp add: read_u32_leb128_def)
qed

text \<open>A module that ends inside a section is not reported as an error: the parser slices beyond the end and panics.
  And the signed reader accepts an operand that is not there at all as zero, where the unsigned one reports the truncation.\<close>

theorem truncated_input_not_rejected:
  "from_bytes (WASM_MAGIC @ WASM_VERSION @ [1, 5]) = Panic \<and> read_i32_leb128 [] = Ok (0, 0) \<and> read_u32_leb128 [] = Err Leb_Truncated"
  by (simp add: from_bytes_def WASM_MAGIC_def WASM_VERSION_def slice_of_def parse_sections.simps u32_at_def slice_from_def
      read_u32_leb128_def read_i32_leb128_def leb_bits_def leb_more_def slice_between_def)

end
