(* ===== verification/Wasm_Vm.thy ===== *)
theory Wasm_Vm
  imports Wasm_Module "HOL-Library.Signed_Division"
begin

text \<open>
  The WebAssembly interpreter of the plugin engine: \<^verbatim>\<open>system/antosd/src/wasm/vm.rs\<close>.

  An \<^verbatim>\<open>i32\<close> is a 32-bit word, read as signed where the source compares, divides or widens it. The
  operand stack and the control stack are lists with the top first. The interpreter recurses for every call;
  its model takes a number of steps as an argument and is \<open>None\<close> when that runs out. The fuel of the program itself bounds the
  steps: \<open>plugin_run_returns\<close> gives the number that is always enough.

  Every slice of the source is checked in the model: where the code would panic the memory operations are \<open>None\<close>, an
  instruction is \<open>Crash\<close> and a run \<open>Crashed\<close>. Calls of the plugin are recursive calls of the interpreter on the stack of the daemon, which no check guards:
  the argument \<open>d\<close> of the model is how many nested calls that stack has room for, and a call without room is \<open>Crashed\<close> too. The heap of the host is
  not bounded.
\<close>

type_synonym i32 = "32 word"

subsection \<open>Traps and instances\<close>

datatype host_fault =
    Not_A_Function str | Body_Not_Found nat | Leb_Fault wasm_error | Bad_Local u32 | Slice_Not_Word
  | Missing_Log_Args | Missing_Param_Args | Missing_Output_Args | Unknown_Import str str

datatype malformed =
    Truncated_Block | Truncated_Loop | No_Type_Declaration nat | Type_Out_Of_Range nat | No_Such_Function u32

datatype trap =
    Unreachable | MemoryOutOfBounds nat nat | FuelExhausted u64 | StackUnderflow | DivisionByZero
  | UnknownOpcode u8 | FunctionNotFound str | HostError host_fault | MalformedModule malformed

record host_env =
  logs :: "(str \<times> str) list"
  host_output :: "u8 list"
  params :: "str \<rightharpoonup> str"

record wasm_instance =
  inst_module :: wasm_module
  memory :: "u8 list"
  fuel_limit :: u64
  fuel_consumed :: u64
  inst_env :: host_env

definition WASM_PAGE_SIZE :: nat where "WASM_PAGE_SIZE = 65536"
definition MAX_LINEAR_MEMORY_BYTES :: nat where "MAX_LINEAR_MEMORY_BYTES = 64 * 1024 * 1024"
definition USIZE_MAX :: nat where "USIZE_MAX = 2 ^ 64 - 1"

definition new_instance :: "wasm_module \<Rightarrow> u64 \<Rightarrow> (str \<rightharpoonup> str) \<Rightarrow> trap + wasm_instance" where
  "new_instance md limit ps =
     (let initial_pages = max (unat (initial_memory_pages md)) 1;
          memory_size = initial_pages * WASM_PAGE_SIZE
      in if MAX_LINEAR_MEMORY_BYTES < memory_size then Inl (MemoryOutOfBounds memory_size MAX_LINEAR_MEMORY_BYTES)
         else Inr \<lparr>inst_module = md, memory = replicate memory_size 0, fuel_limit = limit, fuel_consumed = 0,
                   inst_env = \<lparr>logs = [], host_output = [], params = ps\<rparr>\<rparr>)"

definition consume_fuel :: "wasm_instance \<Rightarrow> u64 \<Rightarrow> wasm_instance \<times> (trap + unit)" where
  "consume_fuel inst amount =
     (let consumed = saturating_add_w (fuel_consumed inst) amount;
          inst' = inst\<lparr>fuel_consumed := consumed\<rparr>
      in if fuel_limit inst < consumed then (inst', Inl (FuelExhausted consumed)) else (inst', Inr ()))"

definition read_memory :: "wasm_instance \<Rightarrow> nat \<Rightarrow> nat \<Rightarrow> (trap + u8 list) option" where
  "read_memory inst ptr len =
     (case usize_add ptr len of
        None \<Rightarrow> Some (Inl (MemoryOutOfBounds USIZE_MAX (length (memory inst))))
      | Some stop \<Rightarrow>
          if length (memory inst) < stop then Some (Inl (MemoryOutOfBounds stop (length (memory inst))))
          else map_option Inr (checked_slice ptr stop (memory inst)))"

text \<open>\<^verbatim>\<open>copy_from_slice\<close> panics unless both slices have the same length.\<close>

definition write_memory :: "wasm_instance \<Rightarrow> nat \<Rightarrow> u8 list \<Rightarrow> (trap + wasm_instance) option" where
  "write_memory inst ptr bs =
     (case usize_add ptr (length bs) of
        None \<Rightarrow> Some (Inl (MemoryOutOfBounds USIZE_MAX (length (memory inst))))
      | Some stop \<Rightarrow>
          if length (memory inst) < stop then Some (Inl (MemoryOutOfBounds stop (length (memory inst))))
          else if ptr \<le> stop \<and> stop \<le> length (memory inst) \<and> stop - ptr = length bs
          then Some (Inr (inst\<lparr>memory := take ptr (memory inst) @ bs @ drop stop (memory inst)\<rparr>))
          else None)"

definition checked_address :: "wasm_instance \<Rightarrow> nat \<Rightarrow> nat \<Rightarrow> trap + nat" where
  "checked_address inst base offset = ok_or (MemoryOutOfBounds USIZE_MAX (length (memory inst))) (usize_add base offset)"

text \<open>\<^verbatim>\<open>v as usize\<close> for an \<^verbatim>\<open>i32\<close> extends the sign.\<close>

definition i32_as_usize :: "i32 \<Rightarrow> nat" where
  "i32_as_usize v = unat (word_of_int (sint v) :: u64)"

subsection \<open>Frames and control\<close>

record frame =
  f_code :: "u8 list"
  f_locals :: "i32 list"
  f_stack :: "i32 list"
  f_pc :: nat
  f_control :: "nat list"

datatype flow =
    Next wasm_instance frame
  | Leave wasm_instance frame
  | Stop wasm_instance trap
  | Invoke wasm_instance nat "i32 list" frame
  | Crash

text \<open>The operand of an instruction: \<^verbatim>\<open>read_u32_leb128(&code[pc..]).map_err(...)?\<close> and \<^verbatim>\<open>pc += len\<close>.\<close>

definition operand :: "wasm_instance \<Rightarrow> frame \<Rightarrow> (u32 \<Rightarrow> frame \<Rightarrow> flow) \<Rightarrow> flow" where
  "operand inst fr k =
     (if length (f_code fr) < f_pc fr then Crash
      else
        (case read_u32_leb128 (drop (f_pc fr) (f_code fr)) of
           Panic \<Rightarrow> Crash
         | Err e \<Rightarrow> Stop inst (HostError (Leb_Fault e))
         | Ok (v, len) \<Rightarrow> k v (fr\<lparr>f_pc := f_pc fr + len\<rparr>)))"

definition pop_value :: "wasm_instance \<Rightarrow> frame \<Rightarrow> (i32 \<Rightarrow> frame \<Rightarrow> flow) \<Rightarrow> flow" where
  "pop_value inst fr k =
     (case f_stack fr of
        [] \<Rightarrow> Stop inst StackUnderflow
      | v # vs \<Rightarrow> k v (fr\<lparr>f_stack := vs\<rparr>))"

definition push_value :: "i32 \<Rightarrow> frame \<Rightarrow> frame" where
  "push_value v fr = fr\<lparr>f_stack := v # f_stack fr\<rparr>"

text \<open>A branch to a loop goes on at its start; every other branch ends the \<^verbatim>\<open>while\<close> loop.\<close>

definition branch :: "wasm_instance \<Rightarrow> u32 \<Rightarrow> frame \<Rightarrow> flow" where
  "branch inst label fr =
     (if unat label < length (f_control fr) \<and> f_control fr ! unat label \<noteq> USIZE_MAX
      then Next inst (fr\<lparr>f_pc := f_control fr ! unat label\<rparr>)
      else Leave inst fr)"

definition exec_control :: "wasm_instance \<Rightarrow> u8 \<Rightarrow> frame \<Rightarrow> flow" where
  "exec_control inst op fr =
     (if op = 0x00 then Stop inst Unreachable
      else if op = 0x01 then Next inst fr
      else if op = 0x02 then
        (if f_pc fr < length (f_code fr)
         then Next inst (fr\<lparr>f_pc := f_pc fr + 1, f_control := USIZE_MAX # f_control fr\<rparr>)
         else Stop inst (MalformedModule Truncated_Block))
      else if op = 0x03 then
        (if f_pc fr < length (f_code fr)
         then Next inst (fr\<lparr>f_pc := f_pc fr + 1, f_control := (f_pc fr + 1) # f_control fr\<rparr>)
         else Stop inst (MalformedModule Truncated_Loop))
      else if op = 0x0B then
        (case f_control fr of
           [] \<Rightarrow> Leave inst fr
         | _ # cs \<Rightarrow> Next inst (fr\<lparr>f_control := cs\<rparr>))
      else if op = 0x0C then operand inst fr (\<lambda>label fr'. branch inst label fr')
      else if op = 0x0D then
        operand inst fr (\<lambda>label fr'. pop_value inst fr' (\<lambda>cond fr''.
          if cond \<noteq> 0 then branch inst label fr'' else Next inst fr''))
      else if op = 0x0F then Leave inst fr
      else Stop inst (UnknownOpcode op))"

text \<open>The arguments of a call are popped one by one, the last one first.\<close>

fun pop_values :: "wasm_instance \<Rightarrow> frame \<Rightarrow> nat \<Rightarrow> i32 list \<Rightarrow> (i32 list \<Rightarrow> frame \<Rightarrow> flow) \<Rightarrow> flow" where
  "pop_values inst fr 0 acc k = k (rev acc) fr"
| "pop_values inst fr (Suc n) acc k = pop_value inst fr (\<lambda>v fr'. pop_values inst fr' n (acc @ [v]) k)"

definition exec_call :: "wasm_instance \<Rightarrow> frame \<Rightarrow> flow" where
  "exec_call inst fr =
     operand inst fr (\<lambda>target fr'.
       let md = inst_module inst; i = unat target; n = length (mod_imports md)
       in case (if i < n then Inr (unat (import_type_index (mod_imports md ! i)))
                else if i - n < length (mod_functions md) then Inr (unat (mod_functions md ! (i - n)))
                else Inl (MalformedModule (No_Such_Function target))) of
            Inl t \<Rightarrow> Stop inst t
          | Inr type_idx \<Rightarrow>
              if type_idx < length (types md)
              then pop_values inst fr' (length (ft_params (types md ! type_idx))) [] (\<lambda>args fr''. Invoke inst i args fr'')
              else Stop inst (MalformedModule (Type_Out_Of_Range type_idx)))"

definition exec_local :: "wasm_instance \<Rightarrow> u8 \<Rightarrow> frame \<Rightarrow> flow" where
  "exec_local inst op fr =
     (if op = 0x1A then pop_value inst fr (\<lambda>_ fr'. Next inst fr')
      else if op = 0x20 then
        operand inst fr (\<lambda>idx fr'.
          if unat idx < length (f_locals fr') then Next inst (push_value (f_locals fr' ! unat idx) fr')
          else Stop inst StackUnderflow)
      else if op = 0x21 then
        operand inst fr (\<lambda>idx fr'. pop_value inst fr' (\<lambda>val fr''.
          if unat idx < length (f_locals fr'') then Next inst (fr''\<lparr>f_locals := (f_locals fr'')[unat idx := val]\<rparr>)
          else Stop inst (HostError (Bad_Local idx))))
      else if op = 0x22 then
        operand inst fr (\<lambda>idx fr'.
          case f_stack fr' of
            [] \<Rightarrow> Stop inst StackUnderflow
          | val # _ \<Rightarrow>
              Next inst (if unat idx < length (f_locals fr') then fr'\<lparr>f_locals := (f_locals fr')[unat idx := val]\<rparr> else fr'))
      else Stop inst (UnknownOpcode op))"

text \<open>The address of a memory access: alignment and offset operands, then the base from the stack.\<close>

definition address :: "wasm_instance \<Rightarrow> u32 \<Rightarrow> frame \<Rightarrow> (nat \<Rightarrow> frame \<Rightarrow> flow) \<Rightarrow> flow" where
  "address inst offset fr k =
     pop_value inst fr (\<lambda>base fr'.
       case checked_address inst (i32_as_usize base) (unat offset) of
         Inl t \<Rightarrow> Stop inst t
       | Inr addr \<Rightarrow> k addr fr')"

definition store :: "wasm_instance \<Rightarrow> nat \<Rightarrow> u8 list \<Rightarrow> frame \<Rightarrow> flow" where
  "store inst addr bs fr = (case write_memory inst addr bs of None \<Rightarrow> Crash | Some (Inl t) \<Rightarrow> Stop inst t | Some (Inr inst') \<Rightarrow> Next inst' fr)"

definition exec_memory :: "wasm_instance \<Rightarrow> u8 \<Rightarrow> frame \<Rightarrow> flow" where
  "exec_memory inst op fr =
     (if op = 0x28 then
        operand inst fr (\<lambda>_ fr1. operand inst fr1 (\<lambda>offset fr2. address inst offset fr2 (\<lambda>addr fr3.
          case read_memory inst addr 4 of
            None \<Rightarrow> Crash
          | Some (Inl t) \<Rightarrow> Stop inst t
          | Some (Inr bs) \<Rightarrow> if length bs \<noteq> 4 then Stop inst (HostError Slice_Not_Word) else Next inst (push_value (le_word bs) fr3))))
      else if op = 0x36 then
        operand inst fr (\<lambda>_ fr1. operand inst fr1 (\<lambda>offset fr2. pop_value inst fr2 (\<lambda>val fr3.
          address inst offset fr3 (\<lambda>addr fr4. store inst addr (le_bytes 4 (unat val)) fr4))))
      else if op = 0x3A then
        operand inst fr (\<lambda>_ fr1. operand inst fr1 (\<lambda>offset fr2. pop_value inst fr2 (\<lambda>val fr3.
          address inst offset fr3 (\<lambda>addr fr4. store inst addr [word_of_nat (unat (val AND 0xFF))] fr4))))
      else Stop inst (UnknownOpcode op))"

definition of_bool_i32 :: "bool \<Rightarrow> i32" where
  "of_bool_i32 b = (if b then 1 else 0)"

definition binary :: "wasm_instance \<Rightarrow> frame \<Rightarrow> (i32 \<Rightarrow> i32 \<Rightarrow> i32) \<Rightarrow> flow" where
  "binary inst fr f = pop_value inst fr (\<lambda>b fr1. pop_value inst fr1 (\<lambda>a fr2. Next inst (push_value (f a b) fr2)))"

definition exec_compare :: "wasm_instance \<Rightarrow> u8 \<Rightarrow> frame \<Rightarrow> flow" where
  "exec_compare inst op fr =
     (if op = 0x41 then
        (if length (f_code fr) < f_pc fr then Crash
         else
           (case read_i32_leb128 (drop (f_pc fr) (f_code fr)) of
              Panic \<Rightarrow> Crash
            | Err e \<Rightarrow> Stop inst (HostError (Leb_Fault e))
            | Ok (v, len) \<Rightarrow> Next inst (push_value v (fr\<lparr>f_pc := f_pc fr + len\<rparr>))))
      else if op = 0x45 then pop_value inst fr (\<lambda>v fr'. Next inst (push_value (of_bool_i32 (v = 0)) fr'))
      else if op = 0x46 then binary inst fr (\<lambda>a b. of_bool_i32 (a = b))
      else if op = 0x47 then binary inst fr (\<lambda>a b. of_bool_i32 (a \<noteq> b))
      else if op = 0x48 then binary inst fr (\<lambda>a b. of_bool_i32 (sint a < sint b))
      else if op = 0x4A then binary inst fr (\<lambda>a b. of_bool_i32 (sint b < sint a))
      else if op = 0x4C then binary inst fr (\<lambda>a b. of_bool_i32 (sint a \<le> sint b))
      else if op = 0x4E then binary inst fr (\<lambda>a b. of_bool_i32 (sint b \<le> sint a))
      else Stop inst (UnknownOpcode op))"

text \<open>\<^verbatim>\<open>wrapping_div\<close> truncates towards zero; the smallest value divided by minus one wraps.\<close>

definition wrapping_div :: "i32 \<Rightarrow> i32 \<Rightarrow> i32" where
  "wrapping_div a b = word_of_int (sint a sdiv sint b)"

definition exec_arith :: "wasm_instance \<Rightarrow> u8 \<Rightarrow> frame \<Rightarrow> flow" where
  "exec_arith inst op fr =
     (if op = 0x6A then binary inst fr (\<lambda>a b. a + b)
      else if op = 0x6B then binary inst fr (\<lambda>a b. a - b)
      else if op = 0x6C then binary inst fr (\<lambda>a b. a * b)
      else if op = 0x6D then
        pop_value inst fr (\<lambda>b fr1. pop_value inst fr1 (\<lambda>a fr2.
          if b = 0 then Stop inst DivisionByZero else Next inst (push_value (wrapping_div a b) fr2)))
      else if op = 0x71 then binary inst fr (\<lambda>a b. a AND b)
      else if op = 0x72 then binary inst fr (\<lambda>a b. a OR b)
      else if op = 0x73 then binary inst fr (\<lambda>a b. a XOR b)
      else Stop inst (UnknownOpcode op))"

text \<open>The \<^verbatim>\<open>match\<close> on the opcode, by its groups.\<close>

definition exec_op :: "wasm_instance \<Rightarrow> u8 \<Rightarrow> frame \<Rightarrow> flow" where
  "exec_op inst op fr =
     (if op \<le> 0x0F then exec_control inst op fr
      else if op = 0x10 then exec_call inst fr
      else if op \<le> 0x22 then exec_local inst op fr
      else if op \<le> 0x3A then exec_memory inst op fr
      else if op \<le> 0x4E then exec_compare inst op fr
      else exec_arith inst op fr)"

subsection \<open>Calls\<close>

datatype vm_result = Returned "i32 option" | Trapped trap | Crashed

definition pop_result :: "frame \<Rightarrow> i32 option" where
  "pop_result fr = (case f_stack fr of [] \<Rightarrow> None | v # _ \<Rightarrow> Some v)"

definition host_log :: "wasm_instance \<Rightarrow> i32 list \<Rightarrow> wasm_instance \<times> vm_result" where
  "host_log inst args =
     (if length args < 3 then (inst, Trapped (HostError Missing_Log_Args))
      else
        (case read_memory inst (i32_as_usize (args ! 1)) (i32_as_usize (args ! 2)) of
           None \<Rightarrow> (inst, Crashed)
         | Some (Inl t) \<Rightarrow> (inst, Trapped t)
         | Some (Inr bs) \<Rightarrow>
             let level = (if args ! 0 = 1 then lit ''ERROR'' else if args ! 0 = 2 then lit ''WARN'' else lit ''INFO'')
             in (inst\<lparr>inst_env := (inst_env inst)\<lparr>logs := logs (inst_env inst) @ [(level, from_utf8_lossy bs)]\<rparr>\<rparr>,
                 Returned None)))"

definition host_read_param :: "wasm_instance \<Rightarrow> i32 list \<Rightarrow> wasm_instance \<times> vm_result" where
  "host_read_param inst args =
     (if length args < 4 then (inst, Trapped (HostError Missing_Param_Args))
      else
        (case read_memory inst (i32_as_usize (args ! 0)) (i32_as_usize (args ! 1)) of
           None \<Rightarrow> (inst, Crashed)
         | Some (Inl t) \<Rightarrow> (inst, Trapped t)
         | Some (Inr key_bytes) \<Rightarrow>
             (case params (inst_env inst) (from_utf8_lossy key_bytes) of
                None \<Rightarrow> (inst, Returned (Some (- 1)))
              | Some val \<Rightarrow>
                  let val_bytes = as_bytes val;
                      to_write = min (length val_bytes) (i32_as_usize (args ! 3))
                  in (case checked_slice 0 to_write val_bytes of
                        None \<Rightarrow> (inst, Crashed)
                      | Some bs \<Rightarrow>
                          (case write_memory inst (i32_as_usize (args ! 2)) bs of
                             None \<Rightarrow> (inst, Crashed)
                           | Some (Inl t) \<Rightarrow> (inst, Trapped t)
                           | Some (Inr inst') \<Rightarrow> (inst', Returned (Some (word_of_nat to_write))))))))"

definition host_write_output :: "wasm_instance \<Rightarrow> i32 list \<Rightarrow> wasm_instance \<times> vm_result" where
  "host_write_output inst args =
     (if length args < 2 then (inst, Trapped (HostError Missing_Output_Args))
      else
        (case read_memory inst (i32_as_usize (args ! 0)) (i32_as_usize (args ! 1)) of
           None \<Rightarrow> (inst, Crashed)
         | Some (Inl t) \<Rightarrow> (inst, Trapped t)
         | Some (Inr bs) \<Rightarrow> (inst\<lparr>inst_env := (inst_env inst)\<lparr>host_output := host_output (inst_env inst) @ bs\<rparr>\<rparr>, Returned None)))"

definition call_host_import :: "wasm_instance \<Rightarrow> nat \<Rightarrow> i32 list \<Rightarrow> wasm_instance \<times> vm_result" where
  "call_host_import inst i args =
     (if length (mod_imports (inst_module inst)) \<le> i then (inst, Crashed)
      else
        let m = import_module (mod_imports (inst_module inst) ! i); f = import_field (mod_imports (inst_module inst) ! i)
        in if m = lit ''antos'' \<and> f = lit ''log'' then host_log inst args
           else if m = lit ''antos'' \<and> f = lit ''read_param'' then host_read_param inst args
           else if m = lit ''antos'' \<and> f = lit ''write_output'' then host_write_output inst args
           else (inst, Trapped (HostError (Unknown_Import m f))))"

text \<open>The frame of a call: arguments, missing ones zero, then the declared locals.\<close>

definition enter_function :: "wasm_module \<Rightarrow> nat \<Rightarrow> i32 list \<Rightarrow> trap + frame" where
  "enter_function md func_idx args =
     (let i = func_idx - length (mod_imports md)
      in if length (bodies md) \<le> i then Inl (HostError (Body_Not_Found func_idx))
         else if length (mod_functions md) \<le> i then Inl (MalformedModule (No_Type_Declaration func_idx))
         else
           let type_idx = unat (mod_functions md ! i)
           in if length (types md) \<le> type_idx then Inl (MalformedModule (Type_Out_Of_Range type_idx))
              else
                let ps = map (\<lambda>k. if k < length args then args ! k else 0) [0..<length (ft_params (types md ! type_idx))];
                    ls = concat (map (\<lambda>(count, _). replicate (unat count) 0) (body_locals (bodies md ! i)))
                in Inr \<lparr>f_code = body_code (bodies md ! i), f_locals = ps @ ls, f_stack = [], f_pc = 0, f_control = []\<rparr>)"

fun call_function :: "nat \<Rightarrow> nat \<Rightarrow> wasm_instance \<Rightarrow> nat \<Rightarrow> i32 list \<Rightarrow> (wasm_instance \<times> vm_result) option"
  and run_loop :: "nat \<Rightarrow> nat \<Rightarrow> wasm_instance \<Rightarrow> frame \<Rightarrow> (wasm_instance \<times> vm_result) option" where
  "call_function 0 d inst func_idx args = None"
| "call_function (Suc n) 0 inst func_idx args = Some (inst, Crashed)"
| "call_function (Suc n) (Suc d) inst func_idx args =
     (if func_idx < length (mod_imports (inst_module inst)) then Some (call_host_import inst func_idx args)
      else
        (case enter_function (inst_module inst) func_idx args of
           Inl t \<Rightarrow> Some (inst, Trapped t)
         | Inr fr \<Rightarrow> run_loop n d inst fr))"
| "run_loop 0 d inst fr = None"
| "run_loop (Suc n) d inst fr =
     (if length (f_code fr) \<le> f_pc fr then Some (inst, Returned (pop_result fr))
      else
        (case consume_fuel inst 1 of
           (inst', Inl t) \<Rightarrow> Some (inst', Trapped t)
         | (inst', Inr _) \<Rightarrow>
             (case exec_op inst' (f_code fr ! f_pc fr) (fr\<lparr>f_pc := f_pc fr + 1\<rparr>) of
                Next i fr' \<Rightarrow> run_loop n d i fr'
              | Leave i fr' \<Rightarrow> Some (i, Returned (pop_result fr'))
              | Stop i t \<Rightarrow> Some (i, Trapped t)
              | Crash \<Rightarrow> Some (inst', Crashed)
              | Invoke i target args fr' \<Rightarrow>
                  (case call_function n d i target args of
                     None \<Rightarrow> None
                   | Some (i', Returned None) \<Rightarrow> run_loop n d i' fr'
                   | Some (i', Returned (Some v)) \<Rightarrow> run_loop n d i' (push_value v fr')
                   | Some (i', Trapped t) \<Rightarrow> Some (i', Trapped t)
                   | Some (i', Crashed) \<Rightarrow> Some (i', Crashed)))))"

definition execute_export :: "nat \<Rightarrow> nat \<Rightarrow> wasm_instance \<Rightarrow> str \<Rightarrow> i32 list \<Rightarrow> (wasm_instance \<times> vm_result) option" where
  "execute_export n d inst name args =
     (case exports (inst_module inst) name of
        None \<Rightarrow> Some (inst, Trapped (FunctionNotFound name))
      | Some e \<Rightarrow>
          if export_kind e \<noteq> 0 then Some (inst, Trapped (HostError (Not_A_Function name)))
          else call_function n d inst (unat (export_index e)) args)"

subsection \<open>Specification vocabulary\<close>

definition keeps :: "wasm_instance \<Rightarrow> wasm_instance \<Rightarrow> bool" where
  "keeps inst inst' \<longleftrightarrow> inst_module inst' = inst_module inst \<and> length (memory inst') = length (memory inst) \<and>
     fuel_limit inst' = fuel_limit inst \<and> fuel_consumed inst' = fuel_consumed inst \<and>
     params (inst_env inst') = params (inst_env inst)"

definition frame_ok :: "u8 list \<Rightarrow> frame \<Rightarrow> bool" where
  "frame_ok code fr \<longleftrightarrow> f_code fr = code \<and> f_pc fr \<le> length code \<and> (\<forall>c \<in> set (f_control fr). c \<le> length code \<or> c = USIZE_MAX)"

fun flow_ok :: "wasm_instance \<Rightarrow> u8 list \<Rightarrow> flow \<Rightarrow> bool" where
  "flow_ok inst code (Next i fr) \<longleftrightarrow> keeps inst i \<and> frame_ok code fr"
| "flow_ok inst code (Leave i fr) \<longleftrightarrow> keeps inst i"
| "flow_ok inst code (Stop i t) \<longleftrightarrow> keeps inst i"
| "flow_ok inst code (Invoke i target args fr) \<longleftrightarrow> keeps inst i \<and> frame_ok code fr"
| "flow_ok inst code Crash \<longleftrightarrow> False"

definition within_fuel :: "wasm_instance \<Rightarrow> bool" where
  "within_fuel inst \<longleftrightarrow> fuel_consumed inst \<le> fuel_limit inst"

definition remaining :: "wasm_instance \<Rightarrow> nat" where
  "remaining inst = unat (fuel_limit inst) - unat (fuel_consumed inst)"

text \<open>What every run keeps; only an exhausted run is past the limit, and by one. A run crashes only when there is fuel for \<open>k\<close> calls.\<close>

definition runs_to :: "nat \<Rightarrow> wasm_instance \<Rightarrow> wasm_instance \<times> vm_result \<Rightarrow> bool" where
  "runs_to k inst res \<longleftrightarrow>
     inst_module (fst res) = inst_module inst \<and> length (memory (fst res)) = length (memory inst) \<and>
     fuel_limit (fst res) = fuel_limit inst \<and> fuel_consumed inst \<le> fuel_consumed (fst res) \<and>
     (snd res = Crashed \<longrightarrow> fuel_limit inst = - 1 \<or> k \<le> remaining inst) \<and>
     params (inst_env (fst res)) = params (inst_env inst) \<and>
     (within_fuel inst \<longrightarrow> unat (fuel_consumed (fst res)) \<le> unat (fuel_limit inst) + 1 \<and>
        (\<forall>v. snd res = Returned v \<longrightarrow> within_fuel (fst res)))"

text \<open>How a run goes on after an instruction.\<close>

fun continue_with :: "nat \<Rightarrow> nat \<Rightarrow> wasm_instance \<Rightarrow> flow \<Rightarrow> (wasm_instance \<times> vm_result) option" where
  "continue_with n d inst (Next i fr) = run_loop n d i fr"
| "continue_with n d inst (Leave i fr) = Some (i, Returned (pop_result fr))"
| "continue_with n d inst (Stop i t) = Some (i, Trapped t)"
| "continue_with n d inst Crash = Some (inst, Crashed)"
| "continue_with n d inst (Invoke i target args fr) =
     (case call_function n d i target args of
        None \<Rightarrow> None
      | Some (i', Returned v) \<Rightarrow> run_loop n d i' (case v of None \<Rightarrow> fr | Some x \<Rightarrow> push_value x fr)
      | Some (i', r) \<Rightarrow> Some (i', r))"

definition one_function :: "u8 list \<Rightarrow> wasm_module" where
  "one_function code = empty_module\<lparr>types := [\<lparr>ft_params = [I32, I32], ft_returns = [I32]\<rparr>], mod_functions := [0],
     exports := [lit ''run'' \<mapsto> \<lparr>export_name = lit ''run'', export_kind = 0, export_index = 0\<rparr>],
     bodies := [\<lparr>body_locals = [], body_code = code\<rparr>]\<rparr>"

definition demo_instance :: "u8 list \<Rightarrow> wasm_instance" where
  "demo_instance code = \<lparr>inst_module = one_function code, memory = [0, 0, 0, 0], fuel_limit = 10, fuel_consumed = 0,
     inst_env = \<lparr>logs = [], host_output = [], params = Map.empty\<rparr>\<rparr>"

named_theorems flow_rules \<open>what the combinators of the interpreter keep\<close>

subsection \<open>What an instruction may do\<close>

lemma keeps_refl [simp]: "keeps inst inst"
  by (simp add: keeps_def)

lemma read_u32_no_panic: "read_u32_loop bs r s c \<noteq> Panic"
  by (induction bs r s c rule: read_u32_loop.induct) (simp_all add: Let_def)

lemma read_i32_loop_ok:
  "read_i32_loop bs r s c b \<noteq> Panic \<and> (\<forall>r' s' c' b'. read_i32_loop bs r s c b = Ok (r', s', c', b') \<longrightarrow> c' \<le> c + length bs)"
proof (induction bs r s c b rule: read_i32_loop.induct)
  case (2 x bs r s c b)
  show ?case
  proof (cases "leb_more x \<and> s + 7 < 35")
    case True
    then show ?thesis using "2.IH" [OF refl] by (auto simp: Let_def)
  qed (auto simp: Let_def)
qed simp

lemma operand_ok [flow_rules]:
  assumes "frame_ok code fr" and "\<And>v fr'. frame_ok code fr' \<Longrightarrow> flow_ok inst code (k v fr')"
  shows "flow_ok inst code (operand inst fr k)"
proof (cases "read_u32_leb128 (drop (f_pc fr) (f_code fr))")
  case Panic
  then show ?thesis using read_u32_no_panic by (simp add: read_u32_leb128_def)
next
  case (Err e)
  then show ?thesis using assms(1) by (simp add: operand_def frame_ok_def)
next
  case (Ok r)
  obtain v n where r: "r = (v, n)" by (metis prod.exhaust)
  have "n \<le> length (f_code fr) - f_pc fr" using Ok r read_u32_loop_count by (fastforce simp: read_u32_leb128_def)
  then have "frame_ok code (fr\<lparr>f_pc := f_pc fr + n\<rparr>)" using assms(1) by (auto simp: frame_ok_def)
  then show ?thesis using Ok r assms by (simp add: operand_def frame_ok_def)
qed

lemma pop_value_ok [flow_rules]:
  assumes "frame_ok code fr" and "\<And>v fr'. frame_ok code fr' \<Longrightarrow> flow_ok inst code (k v fr')"
  shows "flow_ok inst code (pop_value inst fr k)"
  using assms by (cases "f_stack fr") (simp_all add: pop_value_def frame_ok_def)

lemma pop_values_ok:
  "frame_ok code fr \<Longrightarrow> (\<And>vs fr'. frame_ok code fr' \<Longrightarrow> flow_ok inst code (k vs fr')) \<Longrightarrow> flow_ok inst code (pop_values inst fr n acc k)"
  by (induction n arbitrary: fr acc) (simp_all add: pop_value_ok)

lemma push_value_ok [simp]: "frame_ok code (push_value v fr) = frame_ok code fr"
  by (simp add: push_value_def frame_ok_def)

lemma set_local_ok [simp]: "frame_ok code (fr\<lparr>f_locals := ls\<rparr>) = frame_ok code fr"
  by (simp add: frame_ok_def)

lemma binary_ok: "frame_ok code fr \<Longrightarrow> flow_ok inst code (binary inst fr f)"
  unfolding binary_def by (intro flow_rules) simp_all

lemma branch_ok: "frame_ok code fr \<Longrightarrow> flow_ok inst code (branch inst label fr)"
  by (auto simp: branch_def frame_ok_def dest: nth_mem)

lemma address_ok [flow_rules]:
  assumes "frame_ok code fr" and "\<And>a fr'. frame_ok code fr' \<Longrightarrow> flow_ok inst code (k a fr')"
  shows "flow_ok inst code (address inst off fr k)"
  unfolding address_def using assms by (intro flow_rules) (auto split: sum.splits)

text \<open>The checks in front of the slices are enough.\<close>

lemma read_memory_no_panic: "read_memory inst a n \<noteq> None"
  by (auto simp: read_memory_def checked_slice_def usize_add_def split: option.splits if_splits)

lemma write_memory_no_panic: "write_memory inst a bs \<noteq> None"
  by (auto simp: write_memory_def usize_add_def split: option.splits if_splits)

lemma write_memory_keeps: "write_memory inst a bs = Some (Inr inst') \<Longrightarrow> keeps inst inst'"
  by (auto simp: write_memory_def keeps_def usize_add_def split: option.splits if_splits)

lemma store_ok: "frame_ok code fr \<Longrightarrow> flow_ok inst code (store inst a bs fr)"
  using write_memory_no_panic by (auto simp: store_def write_memory_keeps split: sum.splits option.splits)

lemma exec_control_ok: "frame_ok code fr \<Longrightarrow> flow_ok inst code (exec_control inst op fr)"
proof -
  assume fr: "frame_ok code fr"
  have "flow_ok inst code (operand inst fr (\<lambda>label fr'. pop_value inst fr' (\<lambda>cond fr''.
      if cond \<noteq> 0 then branch inst label fr'' else Next inst fr'')))"
    using fr by (auto intro!: flow_rules simp: branch_ok)
  moreover have "flow_ok inst code (operand inst fr (\<lambda>label fr'. branch inst label fr'))"
    by (intro flow_rules fr) (simp add: branch_ok)
  ultimately show ?thesis using fr by (auto simp: exec_control_def frame_ok_def split: list.splits)
qed

lemma exec_call_ok: "frame_ok code fr \<Longrightarrow> flow_ok inst code (exec_call inst fr)"
  unfolding exec_call_def by (intro flow_rules) (auto simp: Let_def pop_values_ok)

lemma exec_local_ok: "frame_ok code fr \<Longrightarrow> flow_ok inst code (exec_local inst op fr)"
  unfolding exec_local_def by (auto intro!: flow_rules split: list.splits)

lemma exec_memory_ok: "frame_ok code fr \<Longrightarrow> flow_ok inst code (exec_memory inst op fr)"
  unfolding exec_memory_def by (auto intro!: flow_rules simp: store_ok read_memory_no_panic split: sum.splits option.splits)

lemma exec_compare_ok: "frame_ok code fr \<Longrightarrow> flow_ok inst code (exec_compare inst op fr)"
proof -
  assume fr: "frame_ok code fr"
  have "flow_ok inst code (exec_compare inst 0x41 fr)"
  proof (cases "read_i32_leb128 (drop (f_pc fr) (f_code fr))")
    case Panic
    then show ?thesis using read_i32_loop_ok [of "drop (f_pc fr) (f_code fr)" 0 0 0 0]
      by (cases "read_i32_loop (drop (f_pc fr) (f_code fr)) 0 0 0 0") (auto simp: read_i32_leb128_def split: if_splits prod.splits)
  next
    case (Ok r)
    obtain v n where r: "r = (v, n)" by (metis prod.exhaust)
    have "n \<le> length (f_code fr) - f_pc fr"
      using Ok r read_i32_loop_ok [of "drop (f_pc fr) (f_code fr)" 0 0 0 0]
      by (auto simp: read_i32_leb128_def then_do_Ok split: if_splits prod.splits)
    then have "frame_ok code (fr\<lparr>f_pc := f_pc fr + n\<rparr>)" using fr by (auto simp: frame_ok_def)
    then have "flow_ok inst code (Next inst (push_value v (fr\<lparr>f_pc := f_pc fr + n\<rparr>)))" by simp
    then show ?thesis using Ok r fr unfolding exec_compare_def by (simp add: frame_ok_def)
  qed (use fr in \<open>simp add: exec_compare_def frame_ok_def\<close>)
  then show ?thesis using fr
    by (cases "op = 0x41") (auto simp: exec_compare_def binary_ok intro!: flow_rules)
qed

lemma exec_arith_ok: "frame_ok code fr \<Longrightarrow> flow_ok inst code (exec_arith inst op fr)"
  unfolding exec_arith_def by (auto simp: binary_ok intro!: flow_rules)

lemma exec_op_ok: "frame_ok code fr \<Longrightarrow> flow_ok inst code (exec_op inst op fr)"
  by (simp add: exec_op_def exec_control_ok exec_call_ok exec_local_ok exec_memory_ok exec_compare_ok exec_arith_ok)

subsection \<open>Whole runs\<close>

lemma runs_to_refl: "r \<noteq> Crashed \<Longrightarrow> runs_to k inst (inst, r)"
  by (simp add: runs_to_def within_fuel_def word_le_nat_alt)

lemma runs_to_mono: "runs_to k inst res \<Longrightarrow> j \<le> k \<Longrightarrow> runs_to j inst res"
  by (auto simp: runs_to_def)

lemma consume_fuel_Inr:
  assumes "consume_fuel inst 1 = (inst', Inr u)"
  shows "inst_module inst' = inst_module inst" "length (memory inst') = length (memory inst)" "fuel_limit inst' = fuel_limit inst"
    "fuel_consumed inst \<le> fuel_consumed inst'" "within_fuel inst'" "params (inst_env inst') = params (inst_env inst)"
    "fuel_limit inst \<noteq> - 1 \<Longrightarrow> unat (fuel_consumed inst') = unat (fuel_consumed inst) + 1"
proof -
  have i: "inst' = inst\<lparr>fuel_consumed := saturating_add_w (fuel_consumed inst) 1\<rparr>"
    "saturating_add_w (fuel_consumed inst) 1 \<le> fuel_limit inst"
    using assms by (auto simp: consume_fuel_def Let_def split: if_splits)
  have s: "unat (saturating_add_w (fuel_consumed inst) 1) = min (unat (fuel_consumed inst) + 1) (2 ^ 64 - 1)"
    by (simp add: unat_saturating_add_w)
  show "inst_module inst' = inst_module inst" "length (memory inst') = length (memory inst)" "fuel_limit inst' = fuel_limit inst"
    "within_fuel inst'" "params (inst_env inst') = params (inst_env inst)" using i by (simp_all add: within_fuel_def)
  show "fuel_consumed inst \<le> fuel_consumed inst'"
    using i(1) s unsigned_less [of "fuel_consumed inst", where 'a = nat] by (simp add: word_le_nat_alt min_def)
  show "unat (fuel_consumed inst') = unat (fuel_consumed inst) + 1" if "fuel_limit inst \<noteq> - 1"
  proof -
    have "unat (fuel_limit inst) \<noteq> unat (- 1 :: u64)" using that by (simp add: word_unat_eq_iff)
    then have "unat (fuel_limit inst) \<noteq> 2 ^ 64 - 1" by (simp add: unsigned_minus_1_eq_mask mask_eq_exp_minus_1)
    then show ?thesis using i s unsigned_less [of "fuel_limit inst", where 'a = nat] by (simp add: word_le_nat_alt min_def split: if_splits)
  qed
qed

lemma consume_fuel_Inl:
  assumes "consume_fuel inst 1 = (inst', Inl t)"
  shows "runs_to k inst (inst', Trapped t)"
proof -
  have i: "inst' = inst\<lparr>fuel_consumed := saturating_add_w (fuel_consumed inst) 1\<rparr>"
    using assms by (auto simp: consume_fuel_def Let_def split: if_splits)
  have s: "unat (saturating_add_w (fuel_consumed inst) 1) = min (unat (fuel_consumed inst) + 1) (2 ^ 64 - 1)"
    by (simp add: unat_saturating_add_w)
  show ?thesis using i s unsigned_less [of "fuel_consumed inst", where 'a = nat]
    by (simp add: runs_to_def within_fuel_def word_le_nat_alt min_def)
qed

lemma remaining_keeps: "keeps inst inst' \<Longrightarrow> remaining inst' = remaining inst"
  by (simp add: keeps_def remaining_def)

lemma remaining_runs: "runs_to k inst (inst', r) \<Longrightarrow> remaining inst' \<le> remaining inst \<and> fuel_limit inst' = fuel_limit inst"
  by (auto simp: runs_to_def remaining_def word_le_nat_alt)

lemma remaining_consume:
  assumes "consume_fuel inst 1 = (inst', Inr u)" and "fuel_limit inst \<noteq> - 1"
  shows "Suc (remaining inst') = remaining inst \<and> fuel_limit inst' = fuel_limit inst"
  using consume_fuel_Inr(3,5,7) [OF assms(1)] assms(2) by (auto simp: remaining_def within_fuel_def word_le_nat_alt)

text \<open>An instruction pays for a call.\<close>

lemma runs_to_trans:
  assumes "consume_fuel inst 1 = (inst1, Inr u)" and "keeps inst1 inst2" and "runs_to k inst2 res"
  shows "runs_to (Suc k) inst res"
proof -
  note c = consume_fuel_Inr(1-6) [OF assms(1)]
  have "within_fuel inst2" using c(5) assms(2) by (simp add: within_fuel_def keeps_def)
  moreover have "fuel_limit inst \<noteq> - 1 \<Longrightarrow> k \<le> remaining inst2 \<Longrightarrow> Suc k \<le> remaining inst"
    using remaining_consume [OF assms(1)] remaining_keeps [OF assms(2)] by simp
  ultimately show ?thesis using c assms(2,3) by (auto simp: runs_to_def keeps_def)
qed

lemma runs_to_then:
  assumes "runs_to k inst (inst1, Returned v)" and "runs_to k inst1 res"
  shows "runs_to k inst res"
  using assms remaining_runs [OF assms(1)] by (auto simp: runs_to_def)

lemma runs_to_stop:
  assumes "consume_fuel inst 1 = (inst1, Inr u)" and "keeps inst1 inst2" and "r \<noteq> Crashed"
  shows "runs_to k inst (inst2, r)"
  using runs_to_mono [OF runs_to_trans [OF assms(1,2) runs_to_refl [OF assms(3), of k]]] by simp

lemma call_host_import_runs:
  assumes "i < length (mod_imports (inst_module inst))"
  shows "runs_to k inst (call_host_import inst i args)"
proof -
  have r: "runs_to k inst (inst', r)" if "keeps inst inst'" "r \<noteq> Crashed" for inst' r
    using that by (auto simp: runs_to_def keeps_def within_fuel_def word_le_nat_alt)
  have e: "keeps inst (inst\<lparr>inst_env := x\<rparr>)" if "params x = params (inst_env inst)" for x using that by (simp add: keeps_def)
  have "runs_to k inst (host_log inst args)"
    by (auto simp: host_log_def Let_def r e read_memory_no_panic split: sum.splits option.splits)
  moreover have "runs_to k inst (host_read_param inst args)"
    by (auto simp: host_read_param_def Let_def r write_memory_keeps read_memory_no_panic write_memory_no_panic checked_slice_def
        split: sum.splits option.splits)
  moreover have "runs_to k inst (host_write_output inst args)"
    by (auto simp: host_write_output_def r e read_memory_no_panic split: sum.splits option.splits)
  ultimately show ?thesis using assms by (simp add: call_host_import_def Let_def r)
qed

lemma enter_function_ok: "enter_function md i args = Inr fr \<Longrightarrow> frame_ok (f_code fr) fr"
  by (auto simp: enter_function_def Let_def frame_ok_def split: if_splits)

lemma run_loop_step:
  assumes "consume_fuel inst 1 = (inst1, Inr u)" and "f_pc fr < length (f_code fr)"
  shows "run_loop (Suc n) d inst fr = continue_with n d inst1 (exec_op inst1 (f_code fr ! f_pc fr) (fr\<lparr>f_pc := f_pc fr + 1\<rparr>))"
  using assms
  by (cases "exec_op inst1 (f_code fr ! f_pc fr) (fr\<lparr>f_pc := f_pc fr + 1\<rparr>)") (auto split: option.splits vm_result.splits)

lemma runs:
  "(\<forall>d inst i args res. call_function n d inst i args = Some res \<longrightarrow> runs_to d inst res) \<and>
   (\<forall>d inst code fr res. frame_ok code fr \<longrightarrow> run_loop n d inst fr = Some res \<longrightarrow> runs_to (Suc d) inst res)"
proof (induction n)
  case (Suc n)
  have call: "runs_to d inst res" if c: "call_function (Suc n) d inst i args = Some res" for d inst i args res
  proof (cases d)
    case 0
    then show ?thesis using c by (auto simp: runs_to_def within_fuel_def word_le_nat_alt)
  next
    case d: (Suc d')
    show ?thesis
  proof (cases "i < length (mod_imports (inst_module inst))")
    case True
    then show ?thesis using c d call_host_import_runs by auto
  next
    case False
    show ?thesis
    proof (cases "enter_function (inst_module inst) i args")
      case (Inl t)
      then show ?thesis using c d False runs_to_refl by auto
    next
      case (Inr fr)
      then have "run_loop n d' inst fr = Some res" using c d False by simp
      then show ?thesis using Suc.IH enter_function_ok [OF Inr] d by blast
    qed
  qed
  qed
  have loop: "runs_to (Suc d) inst res" if fr: "frame_ok code fr" and l: "run_loop (Suc n) d inst fr = Some res" for d inst code fr res
  proof (cases "length code \<le> f_pc fr")
    case True
    then have "res = (inst, Returned (pop_result fr))" using fr l by (simp add: frame_ok_def)
    then show ?thesis by (simp add: runs_to_def within_fuel_def word_le_nat_alt)
  next
    case pc: False
    obtain inst1 q where c: "consume_fuel inst 1 = (inst1, q)" by (metis prod.exhaust)
    show ?thesis
    proof (cases q)
      case (Inl t)
      then have "res = (inst1, Trapped t)" using l fr pc c by (auto simp: frame_ok_def)
      then show ?thesis using consume_fuel_Inl c Inl by simp
    next
      case (Inr u)
      note c = c [unfolded Inr]
      let ?fl = "exec_op inst1 (f_code fr ! f_pc fr) (fr\<lparr>f_pc := f_pc fr + 1\<rparr>)"
      have "frame_ok code (fr\<lparr>f_pc := f_pc fr + 1\<rparr>)" using fr pc by (simp add: frame_ok_def)
      then have ok: "flow_ok inst1 code ?fl" by (rule exec_op_ok)
      have l': "continue_with n d inst1 ?fl = Some res" using l pc fr run_loop_step [OF c, of fr n d] by (simp add: frame_ok_def)
      show ?thesis
      proof (cases ?fl)
        case (Next i fr')
        then have k: "keeps inst1 i" "frame_ok code fr'" "run_loop n d i fr' = Some res" using ok l' by simp_all
        then have "runs_to (Suc d) i res" using Suc.IH by blast
        then show ?thesis using runs_to_mono [OF runs_to_trans [OF c k(1)]] by simp
      next
        case (Leave i fr')
        then show ?thesis using l' ok runs_to_stop [OF c] by auto
      next
        case (Stop i t)
        then show ?thesis using l' ok runs_to_stop [OF c] by auto
      next
        case (Invoke i target args fr')
        have k: "keeps inst1 i" "frame_ok code fr'" using ok Invoke by simp_all
        obtain i' r where call: "call_function n d i target args = Some (i', r)" using l' Invoke by (auto split: option.splits)
        have r1: "runs_to d i (i', r)" using call Suc.IH by blast
        have "runs_to d i res"
        proof (cases r)
          case (Returned v)
          define fr2 where "fr2 = (case v of None \<Rightarrow> fr' | Some x \<Rightarrow> push_value x fr')"
          have "frame_ok code fr2" "run_loop n d i' fr2 = Some res"
            using l' Invoke call k(2) Returned by (cases v; simp add: fr2_def)+
          then have "runs_to (Suc d) i' res" using Suc.IH by blast
          then have "runs_to d i' res" by (rule runs_to_mono) simp
          then show ?thesis using runs_to_then r1 Returned by blast
        qed (use l' Invoke call r1 in \<open>auto simp: runs_to_def\<close>)
        then show ?thesis using runs_to_trans [OF c k(1)] by simp
      qed (use ok in simp)
    qed
  qed
  show ?case using call loop by blast
qed simp

subsection \<open>Every run returns\<close>

text \<open>Each instruction costs one unit of fuel, and a call two steps of the model.\<close>

lemma run_loop_returns:
  "frame_ok code fr \<Longrightarrow> fuel_limit inst \<noteq> - 1 \<Longrightarrow> remaining inst \<le> k \<Longrightarrow> 2 * k + 1 \<le> n \<Longrightarrow> run_loop n d inst fr \<noteq> None"
proof (induction k arbitrary: n d inst code fr rule: less_induct)
  case (less k)
  obtain m where n: "n = Suc m" using less.prems(4) by (cases n) auto
  show ?case
  proof (cases "length code \<le> f_pc fr")
    case True
    then show ?thesis using n less.prems(1) by (simp add: frame_ok_def)
  next
    case pc: False
    obtain inst1 q where c: "consume_fuel inst 1 = (inst1, q)" by (metis prod.exhaust)
    show ?thesis
    proof (cases q)
      case (Inl t)
      then show ?thesis using n pc c less.prems(1) by (simp add: frame_ok_def)
    next
      case (Inr u)
      note c = c [unfolded Inr]
      note r1 = remaining_consume [OF c less.prems(2)]
      have k: "k - 1 < k" "2 * (k - 1) + 1 \<le> m" "2 * (k - 1) + 1 \<le> m - 1" "0 < m" "remaining inst1 \<le> k - 1"
        using r1 less.prems(3,4) n by auto
      have ok: "flow_ok inst1 code (exec_op inst1 (f_code fr ! f_pc fr) (fr\<lparr>f_pc := f_pc fr + 1\<rparr>))"
        using less.prems(1) pc by (intro exec_op_ok) (simp add: frame_ok_def)
      have go: "run_loop j d' i fr' \<noteq> None"
        if "frame_ok code' fr'" "remaining i \<le> k - 1" "fuel_limit i = fuel_limit inst" "2 * (k - 1) + 1 \<le> j" for i fr' j d' code'
        using less.IH [OF k(1) that(1)] that less.prems(2) by simp
      have call: "call_function m d i target args \<noteq> None" if "remaining i \<le> k - 1" "fuel_limit i = fuel_limit inst" for i target args
      proof -
        obtain j where j: "m = Suc j" using k(4) by (cases m) auto
        then show ?thesis using go [OF enter_function_ok _ _ k(3)] that
          by (cases d; cases "enter_function (inst_module i) target args") auto
      qed
      have un: "run_loop n d inst fr = continue_with m d inst1 (exec_op inst1 (f_code fr ! f_pc fr) (fr\<lparr>f_pc := f_pc fr + 1\<rparr>))"
        using run_loop_step [OF c, of fr m d] pc less.prems(1) n by (simp add: frame_ok_def)
      show ?thesis
      proof (cases "exec_op inst1 (f_code fr ! f_pc fr) (fr\<lparr>f_pc := f_pc fr + 1\<rparr>)")
        case (Next i fr')
        then have "keeps inst1 i" "frame_ok code fr'" using ok by simp_all
        then have "run_loop m d i fr' \<noteq> None"
          using go [of code fr' i m d] remaining_keeps [of inst1 i] r1 k by (simp add: keeps_def)
        then show ?thesis using un Next by simp
      next
        case (Invoke i target args fr')
        then have ki: "keeps inst1 i" "frame_ok code fr'" using ok by simp_all
        then have ri: "remaining i \<le> k - 1" "fuel_limit i = fuel_limit inst"
          using remaining_keeps [of inst1 i] r1 k by (simp_all add: keeps_def)
        obtain i' r where cf: "call_function m d i target args = Some (i', r)" using call [OF ri] by force
        then have "runs_to d i (i', r)" using runs by blast
        then have "remaining i' \<le> k - 1" "fuel_limit i' = fuel_limit inst" using remaining_runs ri by fastforce+
        then have "run_loop m d i' fr'' \<noteq> None" if "frame_ok code fr''" for fr'' using go [OF that] k(2) by simp
        then show ?thesis using un Invoke cf ki(2) by (cases r) (auto split: option.splits)
      qed (use un in simp_all)
    qed
  qed
qed

lemma more_steps:
  "(\<forall>d inst i args res. call_function n d inst i args = Some res \<longrightarrow> call_function (Suc n) d inst i args = Some res) \<and>
   (\<forall>d inst fr res. run_loop n d inst fr = Some res \<longrightarrow> run_loop (Suc n) d inst fr = Some res)"
proof (induction n)
  case (Suc n)
  have enter: "call_function (Suc (Suc n)) (Suc d) inst i args = Some res" if "call_function (Suc n) (Suc d) inst i args = Some res" for d inst i args res
  proof (cases "i < length (mod_imports (inst_module inst))")
    case False
    show ?thesis
    proof (cases "enter_function (inst_module inst) i args")
      case (Inr fr)
      then have "run_loop n d inst fr = Some res" using that False by simp
      then have "run_loop (Suc n) d inst fr = Some res" using Suc.IH by blast
      then show ?thesis using Inr False by (simp del: run_loop.simps)
    qed (use that False in simp)
  qed (use that in simp)
  have call: "call_function (Suc (Suc n)) d inst i args = Some res" if "call_function (Suc n) d inst i args = Some res" for d inst i args res
    using enter that by (cases d) simp_all
  have loop: "run_loop (Suc (Suc n)) d inst fr = Some res" if l: "run_loop (Suc n) d inst fr = Some res" for d inst fr res
  proof (cases "f_pc fr < length (f_code fr)")
    case pc: True
    obtain inst1 q where c: "consume_fuel inst 1 = (inst1, q)" by (metis prod.exhaust)
    show ?thesis
    proof (cases q)
      case (Inr u)
      note st = run_loop_step [OF c [unfolded Inr] pc]
      have "continue_with (Suc n) d inst1 fl = Some res" if cw: "continue_with n d inst1 fl = Some res" for fl
      proof (cases fl)
        case (Next i fr')
        then have "run_loop n d i fr' = Some res" using cw by simp
        then have "run_loop (Suc n) d i fr' = Some res" using Suc.IH by blast
        then show ?thesis using Next by (simp del: run_loop.simps)
      next
        case (Invoke i target args fr')
        then obtain i' r where cf: "call_function n d i target args = Some (i', r)" using cw by (auto split: option.splits)
        then have cf': "call_function (Suc n) d i target args = Some (i', r)" using Suc.IH by blast
        show ?thesis
        proof (cases r)
          case (Returned v)
          define fr2 where "fr2 = (case v of None \<Rightarrow> fr' | Some x \<Rightarrow> push_value x fr')"
          then have "run_loop n d i' fr2 = Some res" using cw Invoke cf Returned by simp
          then have "run_loop (Suc n) d i' fr2 = Some res" using Suc.IH by blast
          then show ?thesis using Invoke cf' Returned by (simp add: fr2_def del: run_loop.simps call_function.simps)
        qed (use cw Invoke cf cf' in \<open>auto simp del: call_function.simps run_loop.simps\<close>)
      qed (use cw in simp_all)
      then show ?thesis using l unfolding st by blast
    qed (use l c pc in simp)
  qed (use l in simp)
  show ?case using call loop by blast
qed simp

lemma more_steps_add: "call_function n d inst i args = Some res \<Longrightarrow> call_function (n + k) d inst i args = Some res"
proof (induction k)
  case (Suc k)
  then have "call_function (Suc (n + k)) d inst i args = Some res" using more_steps [of "n + k"] by blast
  then show ?case by (simp only: add_Suc_right)
qed simp

lemma call_function_returns:
  assumes "fuel_limit inst \<noteq> - 1"
  shows "\<exists>res. runs_to d inst res \<and> (\<forall>n \<ge> 2 * remaining inst + 2. call_function n d inst i args = Some res)"
proof -
  let ?n = "2 * remaining inst + 1"
  have "call_function (Suc ?n) d inst i args \<noteq> None"
  proof (cases d)
    case (Suc d')
    show ?thesis
    proof (cases "enter_function (inst_module inst) i args")
      case (Inr fr)
      then have "run_loop ?n d' inst fr \<noteq> None" using run_loop_returns [OF enter_function_ok assms] by blast
      then show ?thesis using Inr Suc by (simp del: run_loop.simps)
    qed (simp add: Suc)
  qed simp
  then obtain res where res: "call_function (Suc ?n) d inst i args = Some res" by blast
  have "call_function n d inst i args = Some res" if "2 * remaining inst + 2 \<le> n" for n
  proof -
    have "n = Suc ?n + (n - Suc ?n)" using that by simp
    then show ?thesis using more_steps_add [OF res, of "n - Suc ?n"] by metis
  qed
  moreover have "runs_to d inst res" using res runs by blast
  ultimately show ?thesis by blast
qed

lemmas vm_eval = demo_instance_def one_function_def empty_module_def enter_function_def execute_export_def consume_fuel_def
  saturating_add_w_def exec_op_def exec_control_def exec_local_def exec_arith_def exec_compare_def binary_def operand_def pop_value_def
  push_value_def pop_result_def branch_def read_u32_leb128_def read_i32_leb128_def leb_bits_def leb_more_def Let_def

subsection \<open>Concrete modules\<close>

lemma demo_enter: "execute_export (Suc n) (Suc d) (demo_instance code) (lit ''run'') args =
    run_loop n d (demo_instance code)
      \<lparr>f_code = code, f_locals = map (\<lambda>k. if k < length args then args ! k else 0) [0, 1], f_stack = [], f_pc = 0, f_control = []\<rparr>"
  by (simp add: demo_instance_def one_function_def empty_module_def enter_function_def execute_export_def Let_def upt_rec del: run_loop.simps)

text \<open>A branch out of a block does not continue after the end of the block, as WebAssembly has it, but leaves the
  whole function: this body, whose last instruction pushes a seven, returns no value.\<close>

lemma demo_br: "execute_export (Suc (Suc (Suc n))) (Suc d) (demo_instance [0x02, 0x40, 0x0C, 0, 0x0B, 0x41, 7, 0x0B]) (lit ''run'') [] =
    Some ((demo_instance [0x02, 0x40, 0x0C, 0, 0x0B, 0x41, 7, 0x0B])\<lparr>fuel_consumed := 2\<rparr>, Returned None)"
  unfolding demo_enter
  by (simp add: consume_fuel_def saturating_add_w_def exec_op_def exec_control_def operand_def branch_def pop_result_def
      read_u32_leb128_def leb_bits_def leb_more_def demo_instance_def Let_def)

lemma demo_add: "execute_export (Suc (Suc (Suc (Suc (Suc (Suc n)))))) (Suc d) (demo_instance [0x20, 0, 0x20, 1, 0x6A, 0x0B]) (lit ''run'') [2, 40] =
    Some ((demo_instance [0x20, 0, 0x20, 1, 0x6A, 0x0B])\<lparr>fuel_consumed := 4\<rparr>, Returned (Some 42))"
  unfolding demo_enter
  by (simp add: consume_fuel_def saturating_add_w_def exec_op_def exec_control_def exec_local_def exec_arith_def operand_def pop_result_def
      read_u32_leb128_def leb_bits_def leb_more_def demo_instance_def Let_def binary_def push_value_def pop_value_def)

text \<open>A function that calls itself, at three units of fuel for a call.\<close>

definition self_call :: "u8 list" where
  "self_call = [0x41, 0, 0x41, 0, 0x10, 0]"

lemma consume_left:
  assumes "0 < remaining inst"
  shows "consume_fuel inst 1 = (inst\<lparr>fuel_consumed := fuel_consumed inst + 1\<rparr>, Inr ())"
    and "remaining (inst\<lparr>fuel_consumed := fuel_consumed inst + 1\<rparr>) = remaining inst - 1"
proof -
  have l: "unat (fuel_consumed inst) + 1 \<le> unat (fuel_limit inst)" using assms by (simp add: remaining_def)
  moreover have "unat (fuel_limit inst) < 2 ^ 64" using unsigned_less [of "fuel_limit inst", where 'a = nat] by simp
  ultimately have u: "unat (fuel_consumed inst + 1) = unat (fuel_consumed inst) + 1" using unat_plus_no_overflow [of "fuel_consumed inst" 1] by simp
  have "saturating_add_w (fuel_consumed inst) 1 = fuel_consumed inst + 1"
    using l \<open>unat (fuel_limit inst) < 2 ^ 64\<close> by (simp add: saturating_add_w_def)
  then show "consume_fuel inst 1 = (inst\<lparr>fuel_consumed := fuel_consumed inst + 1\<rparr>, Inr ())"
    using l u by (simp add: consume_fuel_def Let_def word_less_nat_alt)
  show "remaining (inst\<lparr>fuel_consumed := fuel_consumed inst + 1\<rparr>) = remaining inst - 1" using u by (simp add: remaining_def)
qed

lemma self_call_frame:
  assumes "inst_module inst = one_function self_call" and "3 \<le> remaining inst" and "f_code fr = self_call" and "f_pc fr = 0"
  shows "\<exists>i fr'. inst_module i = one_function self_call \<and> remaining i = remaining inst - 3 \<and>
    run_loop (Suc (Suc (Suc n))) d inst fr =
      (case call_function n d i 0 [0, 0] of
         None \<Rightarrow> None
       | Some (i', Returned v) \<Rightarrow> run_loop n d i' (case v of None \<Rightarrow> fr' | Some x \<Rightarrow> push_value x fr')
       | Some (i', q) \<Rightarrow> Some (i', q))"
proof -
  define next_of where "next_of i = i\<lparr>fuel_consumed := fuel_consumed i + 1\<rparr>" for i :: wasm_instance
  let ?i1 = "next_of inst" and ?i2 = "next_of (next_of inst)" and ?i3 = "next_of (next_of (next_of inst))"
  have c: "consume_fuel inst 1 = (?i1, Inr ())" "consume_fuel ?i1 1 = (?i2, Inr ())" "consume_fuel ?i2 1 = (?i3, Inr ())"
    "remaining ?i3 = remaining inst - 3"
    using consume_left [of inst] consume_left [of ?i1] consume_left [of ?i2] assms(2) unfolding next_of_def [symmetric] by simp_all
  have m: "inst_module ?i1 = one_function self_call" "inst_module ?i3 = one_function self_call" using assms(1) by (simp_all add: next_of_def)
  let ?f1 = "fr\<lparr>f_pc := Suc (Suc 0), f_stack := 0 # f_stack fr\<rparr>" and ?f2 = "fr\<lparr>f_pc := Suc (Suc (Suc (Suc 0))), f_stack := 0 # 0 # f_stack fr\<rparr>"
  have 1: "run_loop (Suc (Suc (Suc n))) d inst fr = run_loop (Suc (Suc n)) d ?i1 ?f1"
    using run_loop_step [OF c(1), of fr "Suc (Suc n)" d] assms(3,4)
    by (simp add: self_call_def exec_op_def exec_compare_def read_i32_leb128_def leb_bits_def leb_more_def push_value_def Let_def del: run_loop.simps)
  have 2: "run_loop (Suc (Suc n)) d ?i1 ?f1 = run_loop (Suc n) d ?i2 ?f2"
    using run_loop_step [OF c(2), of ?f1 "Suc n" d] assms(3,4)
    by (simp add: self_call_def exec_op_def exec_compare_def read_i32_leb128_def leb_bits_def leb_more_def push_value_def Let_def del: run_loop.simps)
  have 3: "run_loop (Suc n) d ?i2 ?f2 = continue_with n d ?i3 (Invoke ?i3 0 [0, 0] (fr\<lparr>f_pc := Suc (Suc (Suc (Suc (Suc (Suc 0)))))\<rparr>))"
    using run_loop_step [OF c(3), of ?f2 n d] assms(3,4) m(2)
    by (simp add: self_call_def exec_op_def exec_call_def operand_def read_u32_leb128_def leb_bits_def leb_more_def one_function_def empty_module_def
        pop_value_def Let_def del: run_loop.simps)
  show ?thesis using 1 2 3 c(4) m(2) by (intro exI [of _ ?i3] exI [of _ "fr\<lparr>f_pc := Suc (Suc (Suc (Suc (Suc (Suc 0)))))\<rparr>"]) simp
qed

lemma self_call_crashes:
  "inst_module inst = one_function self_call \<Longrightarrow> 3 * d \<le> remaining inst \<Longrightarrow> \<exists>i. call_function (4 * d + 1) d inst 0 args = Some (i, Crashed)"
proof (induction d arbitrary: inst args)
  case (Suc d)
  obtain fr where fr: "enter_function (inst_module inst) 0 args = Inr fr" "f_code fr = self_call" "f_pc fr = 0"
    using Suc.prems(1) by (simp add: enter_function_def one_function_def empty_module_def Let_def)
  obtain i fr' where i: "inst_module i = one_function self_call" "remaining i = remaining inst - 3"
      "run_loop (Suc (Suc (Suc (4 * d + 1)))) d inst fr =
        (case call_function (4 * d + 1) d i 0 [0, 0] of
           None \<Rightarrow> None
         | Some (i', Returned v) \<Rightarrow> run_loop (4 * d + 1) d i' (case v of None \<Rightarrow> fr' | Some x \<Rightarrow> push_value x fr')
         | Some (i', q) \<Rightarrow> Some (i', q))"
    using self_call_frame [OF Suc.prems(1) _ fr(2,3)] Suc.prems(2) by fastforce
  obtain j where "call_function (4 * d + 1) d i 0 [0, 0] = Some (j, Crashed)" using Suc.IH [OF i(1)] i(2) Suc.prems(2) by fastforce
  then have "run_loop (Suc (Suc (Suc (4 * d + 1)))) d inst fr = Some (j, Crashed)" using i(3) by simp
  moreover have "4 * Suc d + 1 = Suc (Suc (Suc (Suc (4 * d + 1))))" by simp
  moreover have "call_function (Suc k) (Suc d) inst 0 args = run_loop k d inst fr" for k
    using fr(1) Suc.prems(1) by (simp add: one_function_def empty_module_def del: run_loop.simps)
  ultimately show ?case by metis
qed simp

subsection \<open>Properties\<close>

text \<open>C5: with any fuel limit below the largest 64-bit value, and a host stack with room for more nested calls than there is fuel left, every run of
  an exported function returns, with a value or a trap and never a panic, whatever the module contains: a number of steps that depends
  only on the fuel left is enough.\<close>

theorem plugin_run_returns:
  assumes "fuel_limit inst \<noteq> - 1" and "remaining inst < d"
  shows "\<exists>i r. r \<noteq> Crashed \<and> (\<forall>n \<ge> 2 * remaining inst + 2. execute_export n d inst name args = Some (i, r))"
proof (cases "\<exists>e. exports (inst_module inst) name = Some e \<and> export_kind e = 0")
  case True
  then obtain e where e: "exports (inst_module inst) name = Some e" "export_kind e = 0" by blast
  obtain i r where r: "runs_to d inst (i, r)" "\<forall>n \<ge> 2 * remaining inst + 2. call_function n d inst (unat (export_index e)) args = Some (i, r)"
    using call_function_returns [OF assms(1), of d "unat (export_index e)" args] by (metis prod.exhaust)
  have "r \<noteq> Crashed" using r(1) assms by (auto simp: runs_to_def)
  then show ?thesis using r(2) e by (auto simp: execute_export_def)
next
  case False
  then show ?thesis by (cases "exports (inst_module inst) name") (auto simp: execute_export_def)
qed

theorem plugin_run_returns_witness:
  "\<exists>i. execute_export 22 11 (demo_instance [0x20, 0, 0x20, 1, 0x6A, 0x0B]) (lit ''run'') [2, 40] = Some (i, Returned (Some 42))"
proof -
  let ?inst = "demo_instance [0x20, 0, 0x20, 1, 0x6A, 0x0B]"
  have "fuel_limit ?inst \<noteq> - 1" "remaining ?inst = 10" by (simp_all add: demo_instance_def remaining_def)
  then obtain i r where r: "\<forall>n \<ge> 22. execute_export n 11 ?inst (lit ''run'') [2, 40] = Some (i, r)"
    using plugin_run_returns [of ?inst 11 "lit ''run''" "[2, 40]"] by auto
  then have "execute_export (Suc (Suc (Suc (Suc (Suc (Suc 16)))))) (Suc 10) ?inst (lit ''run'') [2, 40] = Some (i, r)" by simp
  then have "r = Returned (Some 42)" unfolding demo_add by simp
  then show ?thesis using r by simp
qed



text \<open>C37: a plugin can bring down the daemon: whatever the room on the host stack, there is a module of one function, which only calls itself,
  that exhausts it with three units of fuel for each frame; a limit on fuel is no limit on depth.\<close>

theorem plugin_can_exhaust_stack:
  assumes "3 * d \<le> unat limit"
  shows "\<exists>inst n i. new_instance (one_function self_call) limit ps = Inr inst \<and> execute_export n d inst (lit ''run'') [] = Some (i, Crashed)"
proof -
  define inst where "inst = \<lparr>inst_module = one_function self_call, memory = replicate 65536 0, fuel_limit = limit, fuel_consumed = 0,
    inst_env = \<lparr>logs = [], host_output = [], params = ps\<rparr>\<rparr>"
  have "new_instance (one_function self_call) limit ps = Inr inst"
    by (simp add: new_instance_def one_function_def empty_module_def WASM_PAGE_SIZE_def MAX_LINEAR_MEMORY_BYTES_def Let_def inst_def)
  moreover have "inst_module inst = one_function self_call" "3 * d \<le> remaining inst" using assms by (simp_all add: inst_def remaining_def)
  then obtain i where "call_function (4 * d + 1) d inst 0 [] = Some (i, Crashed)" using self_call_crashes by blast
  then have "execute_export (4 * d + 1) d inst (lit ''run'') [] = Some (i, Crashed)"
    by (simp add: execute_export_def inst_def one_function_def del: run_loop.simps call_function.simps)
  ultimately show ?thesis by blast
qed

theorem plugin_can_exhaust_stack_witness:
  "\<exists>inst n i. new_instance (one_function self_call) 1000000 Map.empty = Inr inst \<and>
     execute_export n 333333 inst (lit ''run'') [] = Some (i, Crashed)"
  using plugin_can_exhaust_stack [of 333333 1000000 Map.empty] by simp

end
