(* ===== verification/Spec2Isabelle.thy ===== *)
theory Spec2Isabelle
  imports Prelude Rust_Strings Transition_System Bounded_Fifo Heap_Alloc Spin_Lock Input_Queue Ipc_Channel Scheduler
    Syscall_Abi Paging Elf_Loader Tar_Fs Vfs User_Memory Syscalls Wasm_Module Wasm_Vm
begin

text \<open>
  \<^bold>\<open>A verification of the core of antOS.\<close>

  antOS is an operating system for developers in two halves: a kernel that boots on bare metal (\<^verbatim>\<open>kernel/\<close>, x86-64 and AArch64)
  with its user runtime (\<^verbatim>\<open>user/\<close>), and a daemon that runs agents and plugins on a host (\<^verbatim>\<open>system/antosd/\<close>) with its protocol
  (\<^verbatim>\<open>system/protocolo/\<close>), desktop bar (\<^verbatim>\<open>system/barra/\<close>) and image builder (\<^verbatim>\<open>builder/\<close>). This development models the parts that
  everything else rests on: memory, locks, threads, messages, files, executables and system calls of the kernel, and the
  WebAssembly engine in which the daemon isolates plugins.

  \<^bold>\<open>How the parts interact.\<close> At boot the frame allocator takes the memory map, the mapper builds page tables out of its frames, and the
  heap is a range of mapped pages. Every shared structure is behind the spin lock, which also masks interrupts. The timer interrupt
  calls the scheduler, which switches registers, kernel stacks and page table roots. Interrupt handlers push input events into a
  ring buffer. A program enters the kernel through a system call, whose handler reads and writes user memory through
  the page tables and calls the frame allocator, the channels, the file system over the initial archive, the ELF parser and the
  scheduler. In the daemon the WebAssembly decoder builds a module and the interpreter runs it with a fuel limit.

  \<^bold>\<open>The theories\<close>, each with its model in the order of the source, its vocabulary, its lemmas and its properties:

  \<^item> \<open>Prelude\<close>: machine integers of Rust with their overflow checks, slices, little-endian numbers, results.
  \<open>Rust_Strings\<close>: strings and UTF-8 as in the standard library. \<open>Transition_System\<close>: the locales of invariants of
  step relations, interpreted by the lock, the scheduler and the whole kernel. \<open>Bounded_Fifo\<close>: the locale of a bounded queue,
  interpreted by the input ring and by a channel.

  \<^item> \<open>Heap_Alloc\<close> (\<^verbatim>\<open>kernel/src/allocator/\<close>): the linked list and the bump allocator. The free list is nodes in memory, by address;
  the lemmas relate the pointer walks to a list of holes. The locale \<open>global_alloc\<close> is the contract of an allocator with its
  clients; its three interpretations give that blocks held at the same time never overlap, that releasing everything restores
  the heap, and the same for the bump allocator. The counters are exact over every history, and clients that write over their blocks do no harm.

  \<^item> \<open>Spin_Lock\<close> (\<^verbatim>\<open>kernel/src/sync.rs\<close>): the steps of taking, trying and dropping the lock, interleaved over any number of processors and
  nested interrupt handlers, and with calls by a context that holds the guard already: mutual exclusion, that a spinning context can always get
  in as long as no holder locks again, and that locking again hangs for ever.

  \<^item> \<open>Input_Queue\<close> (\<^verbatim>\<open>kernel/src/input/queue.rs\<close>) and \<open>Ipc_Channel\<close> (\<^verbatim>\<open>kernel/src/ipc/channel.rs\<close>): order and completeness of
  delivery, bounds.

  \<^item> \<open>Scheduler\<close> (\<^verbatim>\<open>kernel/src/task/pcb.rs\<close>, \<^verbatim>\<open>scheduler.rs\<close>): control blocks and every operation of the round-robin scheduler:
  consistency of queue, states and registers in all reachable states, that registers survive a switch, that kernel stacks are not
  shared, fairness, and under which use every call returns.

  \<^item> \<open>Syscall_Abi\<close> (\<^verbatim>\<open>kernel/src/syscall/mod.rs\<close>) and \<open>Paging\<close> (\<^verbatim>\<open>kernel/src/memory.rs\<close>): numbers, error codes and the pointer check;
  four-level page tables over a memory of words, walked and changed entry by entry. The lemmas describe the tables by the entry
  an address reaches, on trees of tables (\<open>pt_tree\<close>) with frames that are no tables (\<open>frames_ok\<close>): what mapping and unmapping
  change, and that frames are handed out once.

  \<^item> \<open>Elf_Loader\<close> (\<^verbatim>\<open>kernel/src/elf.rs\<close>): the parser, equal to a reference in unbounded arithmetic, and the AArch64 loader.

  \<^item> \<open>Tar_Fs\<close> and \<open>Vfs\<close> (\<^verbatim>\<open>kernel/src/fs/\<close>, \<^verbatim>\<open>kernel/src/drivers/virtio_blk.rs\<close>): paths, headers, the index over a slice and over a block
  device, listings, handles: files written into an archive are read back, and both backings agree.

  \<^item> \<open>User_Memory\<close> and \<open>Syscalls\<close> (\<^verbatim>\<open>kernel/src/arch/x86_64/userspace.rs\<close>): bytes of user memory behind the page tables, with the
  locale \<open>byte_memory\<close> as the contract for the handlers, and all sixteen system calls over the components above. Here
  are the properties that span components: one invariant of the whole kernel under calls, ticks and user stores, messages
  and files that arrive in user memory byte for byte, fresh memory, and what spawning does.

  \<^item> \<open>Wasm_Module\<close> and \<open>Wasm_Vm\<close> (\<^verbatim>\<open>system/antosd/src/wasm/parser.rs\<close>, \<^verbatim>\<open>vm.rs\<close>): the decoder with errors and panics as
  distinct outcomes, and every instruction of the interpreter: each run returns within its fuel and stays in its
  memory, and it panics only when nested calls exhaust the stack of the host, which a plugin can bring about.

  \<^bold>\<open>Conventions.\<close> A panic, an overflow that the build checks, or a call that hangs is \<open>None\<close> (a constructor of its own in the system
  calls and in the decoder); an error that the code returns is \<open>Inl\<close>. Error messages are constructors. Loops are
  recursion: structural where the source counts, with a measure where it scans (the allocator of contiguous frames, the index of
  an archive, UTF-8). The interpreter of WebAssembly is the one loop that may not end by itself. Its model has fuel for
  function calls and instructions in addition to the fuel counter of the code: since an instruction costs one unit and at most one
  instruction after the limit is started, twice the remaining units and two more steps are enough, and
  \<open>plugin_run_returns\<close> shows that the model then always has a result. The stack of the host is a second argument, the number of nested calls it has
  room for; with more room than fuel the result is a value or a trap.

  \<^bold>\<open>Hypotheses.\<close> What the boot loader and the hardware provide is assumed by name where it is used: usable regions that do not overlap
  (\<open>regions_ok\<close>), tables that form a tree, a block device that returns the sectors of an archive (\<open>holds\<close>), counters of
  64 bits that have not wrapped (\<open>ids_left\<close>, \<open>ids_remain\<close>), a heap that can copy a file out of an archive in memory. Each has a witness.

  \<^bold>\<open>Not modelled.\<close> Device drivers (storage, USB, PCI, display, interrupt controllers) are register and DMA access to devices outside the
  repository; boot, interrupt entry and context restore are assembly; console and desktop draw pixels; the daemon outside the
  plugin engine orchestrates host processes, language models, files and sockets through third-party crates. Memory ordering
  of atomics beyond the lock, caches and the TLB have no counterpart: the page tables are always walked.
\<close>

end
